(* ===== verification/Prelude.thy ===== *)
theory Prelude
  imports Main "HOL-Library.Word"
begin

text \<open>
  Shared vocabulary of the development: the machine types of the firmware, its error codes,
  the C library operations on byte buffers the sources call (memcpy at an offset, the
  truncating snprintf), and the generic list and word lemmas the component theories use.

  A C buffer together with the number of bytes in use is a list of bytes; a fixed array whose
  layout matters (the cache arena, the receive buffer, the packet ring) is a list of the
  array's full length that is updated in place. \<open>bt_conn\<close> is a pointer to the Bluetooth
  stack's opaque connection object, \<open>None\<close> the NULL pointer.
\<close>

section \<open>Collections of simplification rules\<close>

named_theorems layout_consts \<open>sizes, depths and offsets taken from the headers\<close>
named_theorems buffer_simps \<open>reading back what was copied into a buffer\<close>

section \<open>Machine types and error codes\<close>

type_synonym u8 = "8 word"
type_synonym u16 = "16 word"
type_synonym u32 = "32 word"
type_synonym bt_conn = "nat option"

datatype errno =
    EINVAL | ENOMEM | EMSGSIZE | ENOENT | ESHUTDOWN | ENODEV | ENOTCONN | EALREADY
  | Eother int

text \<open>The integer status the C functions return: 0, or a negated error code.\<close>

datatype rc = OK | Err errno

section \<open>Activity LEDs\<close>

text \<open>
  One tick of the blink worker, the same function in both drivers: the activity flag is fetched
  and cleared; the pin toggles if there was traffic since the last tick and is held off otherwise.
  The result is the new flag and the new pin level.
\<close>

definition led_blink_tick :: "bool \<Rightarrow> bool \<Rightarrow> bool \<times> bool" where
  "led_blink_tick pin active = (False, if active then \<not> pin else False)"

section \<open>memcpy and buffers\<close>

definition memcpy_at :: "'a list \<Rightarrow> nat \<Rightarrow> 'a list \<Rightarrow> 'a list" where
  "memcpy_at dst off src = take off dst @ src @ drop (off + length src) dst"

definition bslice :: "nat \<Rightarrow> nat \<Rightarrow> 'a list \<Rightarrow> 'a list" where
  "bslice off n xs = take n (drop off xs)"

lemma length_memcpy_at [simp, buffer_simps]:
  "off + length src \<le> length dst \<Longrightarrow> length (memcpy_at dst off src) = length dst"
  by (simp add: memcpy_at_def)

lemma bslice_memcpy_same [buffer_simps]:
  "off + length src \<le> length dst \<Longrightarrow> bslice off (length src) (memcpy_at dst off src) = src"
  by (simp add: bslice_def memcpy_at_def)

lemma bslice_memcpy_before [buffer_simps]:
  assumes "o1 + n \<le> off" and "off + length src \<le> length dst"
  shows "bslice o1 n (memcpy_at dst off src) = bslice o1 n dst"
proof -
  have "drop o1 (memcpy_at dst off src) = drop o1 (take off dst) @ src @ drop (off + length src) dst"
    using assms by (simp add: memcpy_at_def)
  moreover have "length (drop o1 (take off dst)) = off - o1" using assms by simp
  ultimately have "bslice o1 n (memcpy_at dst off src) = take n (drop o1 (take off dst))"
    using assms by (simp add: bslice_def)
  also have "\<dots> = bslice o1 n dst" using assms by (simp add: bslice_def drop_take min_def)
  finally show ?thesis .
qed

lemma bslice_memcpy_after [buffer_simps]:
  assumes "off + length src \<le> o1" and "off + length src \<le> length dst"
  shows "bslice o1 n (memcpy_at dst off src) = bslice o1 n dst"
  using assms by (simp add: bslice_def memcpy_at_def add.commute)

lemma take_memcpy_at_0 [simp, buffer_simps]:
  "take (length src) (memcpy_at dst 0 src) = src"
  by (simp add: memcpy_at_def)

lemma length_bslice [simp]: "off + n \<le> length xs \<Longrightarrow> length (bslice off n xs) = n"
  by (simp add: bslice_def)

lemma bslice_0 [simp]: "bslice 0 n xs = take n xs"
  by (simp add: bslice_def)

lemma take_take_Suc_update [simp]:
  "n < length xs \<Longrightarrow> take (Suc n) (xs[n := x]) = take n xs @ [x]"
  by (simp add: take_Suc_conv_app_nth)

lemma distinct_filter_nth:
  "distinct (filter P xs) \<Longrightarrow> i < length xs \<Longrightarrow> j < length xs \<Longrightarrow> xs ! i = xs ! j \<Longrightarrow> P (xs ! i) \<Longrightarrow> i = j"
proof (induction xs arbitrary: i j)
  case (Cons x xs)
  then show ?case by (cases i; cases j) (auto split: if_splits dest: nth_mem)
qed simp

section \<open>Decimal and hexadecimal rendering\<close>

definition digit_char :: "nat \<Rightarrow> char" where
  "digit_char d = char_of (48 + d)"

text \<open>The \<open>%u\<close> conversion.\<close>

fun decimal :: "nat \<Rightarrow> string" where
  "decimal n = (if n < 10 then [digit_char n] else decimal (n div 10) @ [digit_char (n mod 10)])"

declare decimal.simps [simp del]

definition hex_char :: "nat \<Rightarrow> char" where
  "hex_char d = (if d < 10 then digit_char d else char_of (87 + d))"

text \<open>The \<open>%02x\<close> conversion of a value below 256.\<close>

definition hex2 :: "nat \<Rightarrow> string" where
  "hex2 n = [hex_char (n div 16 mod 16), hex_char (n mod 16)]"

text \<open>
  \<open>snprintf\<close> into a buffer of \<open>sz > 0\<close> bytes: at most \<open>sz - 1\<close> characters of the
  formatted text, then the terminating NUL.
\<close>

definition snprintf_into :: "string \<Rightarrow> nat \<Rightarrow> string \<Rightarrow> string" where
  "snprintf_into buf sz s = memcpy_at buf 0 (take (sz - 1) s @ [CHR 0x00])"

definition c_string :: "string \<Rightarrow> string" where
  "c_string buf = takeWhile (\<lambda>c. c \<noteq> CHR 0x00) buf"

lemma digit_char_table [simp]:
  "digit_char 0 = CHR ''0''" "digit_char (Suc 0) = CHR ''1''" "digit_char 1 = CHR ''1''"
  "digit_char 2 = CHR ''2''" "digit_char 3 = CHR ''3''" "digit_char 4 = CHR ''4''"
  "digit_char 5 = CHR ''5''" "digit_char 6 = CHR ''6''" "digit_char 7 = CHR ''7''"
  "digit_char 8 = CHR ''8''" "digit_char 9 = CHR ''9''"
  by code_simp+

lemma digit_char_not_nul: "d < 10 \<Longrightarrow> digit_char d \<noteq> CHR 0x00"
  by (auto simp: digit_char_def char_of_eq_iff take_bit_eq_mod)

lemma digit_char_inj: "d < 10 \<Longrightarrow> e < 10 \<Longrightarrow> digit_char d = digit_char e \<Longrightarrow> d = e"
  by (auto simp: digit_char_def char_of_eq_iff take_bit_eq_mod)

lemma decimal_nonempty: "decimal n \<noteq> []"
  by (subst decimal.simps) simp

lemma decimal_digits: "c \<in> set (decimal n) \<Longrightarrow> \<exists>d < 10. c = digit_char d"
proof (induction n rule: decimal.induct)
  case (1 n)
  show ?case
  proof (cases "n < 10")
    case True
    with "1.prems" show ?thesis by (auto simp: decimal.simps [of n])
  next
    case False
    with "1.prems" consider "c \<in> set (decimal (n div 10))" | "c = digit_char (n mod 10)"
      by (auto simp: decimal.simps [of n])
    then show ?thesis
    proof cases
      case 1
      with "1.IH" False show ?thesis by simp
    next
      case 2
      then show ?thesis by (intro exI [of _ "n mod 10"]) simp
    qed
  qed
qed

lemma decimal_no_nul: "CHR 0x00 \<notin> set (decimal n)"
proof
  assume "CHR 0x00 \<in> set (decimal n)"
  then obtain d where "d < 10" "CHR 0x00 = digit_char d" using decimal_digits by blast
  then show False using digit_char_not_nul [of d] by simp
qed

text \<open>A value below \<open>10 ^ k\<close> needs at most \<open>k\<close> digits.\<close>

lemma decimal_length: "0 < k \<Longrightarrow> n < 10 ^ k \<Longrightarrow> length (decimal n) \<le> k"
proof (induction n arbitrary: k rule: decimal.induct)
  case (1 n)
  show ?case
  proof (cases "n < 10")
    case True
    with "1.prems" show ?thesis by (simp add: decimal.simps [of n])
  next
    case False
    with "1.prems" obtain j where k: "k = Suc j" and "0 < j"
      by (cases k; cases "k - 1") auto
    moreover have "n div 10 < 10 ^ j" using "1.prems" k by (simp add: less_mult_imp_div_less mult.commute)
    ultimately have "length (decimal (n div 10)) \<le> j" using "1.IH" False by simp
    with False k show ?thesis by (simp add: decimal.simps [of n])
  qed
qed

lemma c_string_snprintf:
  assumes "CHR 0x00 \<notin> set s"
  shows "c_string (snprintf_into buf sz s) = take (sz - 1) s"
proof -
  let ?t = "take (sz - 1) s"
  have "CHR 0x00 \<notin> set ?t" using assms by (meson in_set_takeD)
  then have "takeWhile (\<lambda>c. c \<noteq> CHR 0x00) (?t @ [CHR 0x00] @ rest) = ?t" for rest
    by (induction ?t) (auto simp: takeWhile_append)
  then show ?thesis by (simp add: c_string_def snprintf_into_def memcpy_at_def)
qed

end
