(* ===== verification/Proxy_Protocol.thy ===== *)
theory Proxy_Protocol
  imports Prelude
begin

text \<open>
  The application-layer proxy header of \<^verbatim>\<open>src/src/proxy_protocol.c\<close> and
  \<^verbatim>\<open>src/src/proxy_protocol.h\<close>: identifiers, the parser and builder of the 9-byte header,
  and the two string renderings. The buffer arguments of the C functions are byte lists whose
  length is the \<open>len\<close> argument; \<open>content\<close>, a pointer into the payload in C, is the rest of
  the payload here.
\<close>

section \<open>Layout constants\<close>

definition PROXY_PORTNUM :: u32 where "PROXY_PORTNUM = 256"
definition PROXY_PRACTICAL_MAX :: nat where "PROXY_PRACTICAL_MAX = 200"
definition PROXY_VERSION :: u8 where "PROXY_VERSION = 0x01"
definition PROXY_ID_SIZE :: nat where "PROXY_ID_SIZE = 4"
definition PROXY_HEADER_SIZE :: nat where "PROXY_HEADER_SIZE = 1 + 2 * PROXY_ID_SIZE"
definition PROXY_CONTENT_MAX :: nat where
  "PROXY_CONTENT_MAX = PROXY_PRACTICAL_MAX - PROXY_HEADER_SIZE"
definition PROXY_OFF_VERSION :: nat where "PROXY_OFF_VERSION = 0"
definition PROXY_OFF_SRC :: nat where "PROXY_OFF_SRC = 1"
definition PROXY_OFF_DST :: nat where "PROXY_OFF_DST = PROXY_OFF_SRC + PROXY_ID_SIZE"
definition PROXY_OFF_CONTENT :: nat where "PROXY_OFF_CONTENT = PROXY_HEADER_SIZE"

lemmas proxy_layout [layout_consts] =
  PROXY_PRACTICAL_MAX_def PROXY_ID_SIZE_def PROXY_HEADER_SIZE_def PROXY_CONTENT_MAX_def
  PROXY_OFF_VERSION_def PROXY_OFF_SRC_def PROXY_OFF_DST_def PROXY_OFF_CONTENT_def

section \<open>Identifiers and headers\<close>

record proxy_id_t =
  id_bytes :: "u8 list"

record proxy_header =
  h_src :: proxy_id_t
  h_dst :: proxy_id_t
  h_content :: "u8 list"
  h_content_len :: nat

text \<open>The C array has exactly \<open>PROXY_ID_SIZE\<close> bytes.\<close>

definition wf_id :: "proxy_id_t \<Rightarrow> bool" where
  "wf_id i \<longleftrightarrow> length (id_bytes i) = PROXY_ID_SIZE"

definition proxy_id_value :: "u8 list \<Rightarrow> u32" where
  "proxy_id_value b =
     or (or (or (ucast (b ! 3)) (push_bit 8 (ucast (b ! 2)))) (push_bit 16 (ucast (b ! 1))))
       (push_bit 24 (ucast (b ! 0)))"

definition proxy_header_parse :: "u8 list \<Rightarrow> proxy_header option" where
  "proxy_header_parse payload =
     (if length payload < PROXY_HEADER_SIZE then None
      else if payload ! PROXY_OFF_VERSION \<noteq> PROXY_VERSION then None
      else Some \<lparr>h_src = \<lparr>id_bytes = bslice PROXY_OFF_SRC PROXY_ID_SIZE payload\<rparr>,
                 h_dst = \<lparr>id_bytes = bslice PROXY_OFF_DST PROXY_ID_SIZE payload\<rparr>,
                 h_content = drop PROXY_OFF_CONTENT payload,
                 h_content_len = length payload - PROXY_HEADER_SIZE\<rparr>)"

text \<open>
  The builder returns the number of bytes written and the buffer. \<open>content\<close> may be NULL; a
  non-NULL content must provide \<open>content_len\<close> bytes.
\<close>

definition proxy_header_build ::
  "proxy_id_t \<Rightarrow> proxy_id_t \<Rightarrow> u8 list option \<Rightarrow> nat \<Rightarrow> u8 list \<Rightarrow> nat \<Rightarrow> nat \<times> u8 list" where
  "proxy_header_build src dst content content_len dst_buf dst_buf_size =
     (if content_len > PROXY_CONTENT_MAX then (0, dst_buf)
      else let total = (PROXY_HEADER_SIZE + content_len) mod 2 ^ 16 in
        if total > dst_buf_size then (0, dst_buf)
        else
          let b1 = dst_buf[PROXY_OFF_VERSION := PROXY_VERSION];
              b2 = memcpy_at b1 PROXY_OFF_SRC (take PROXY_ID_SIZE (id_bytes src));
              b3 = memcpy_at b2 PROXY_OFF_DST (take PROXY_ID_SIZE (id_bytes dst));
              b4 = (case content of
                      None \<Rightarrow> b3
                    | Some c \<Rightarrow> if content_len > 0
                                then memcpy_at b3 PROXY_OFF_CONTENT (take content_len c)
                                else b3)
          in (total, b4))"

definition proxy_id_equal :: "proxy_id_t \<Rightarrow> proxy_id_t \<Rightarrow> bool" where
  "proxy_id_equal a b \<longleftrightarrow> take PROXY_ID_SIZE (id_bytes a) = take PROXY_ID_SIZE (id_bytes b)"

text \<open>The loop over the bytes, from index \<open>i\<close>.\<close>

function proxy_id_is_zero_from :: "nat \<Rightarrow> proxy_id_t \<Rightarrow> bool" where
  "proxy_id_is_zero_from i pid =
     (if i < PROXY_ID_SIZE
      then if id_bytes pid ! i \<noteq> 0 then False else proxy_id_is_zero_from (Suc i) pid
      else True)"
  by pat_completeness auto
termination by (relation "measure (\<lambda>(i, _). PROXY_ID_SIZE - i)") auto

declare proxy_id_is_zero_from.simps [simp del]

definition proxy_id_is_zero :: "proxy_id_t \<Rightarrow> bool" where
  "proxy_id_is_zero pid = proxy_id_is_zero_from 0 pid"

definition proxy_id_from_str :: "string option \<Rightarrow> proxy_id_t" where
  "proxy_id_from_str str =
     (let zero = replicate PROXY_ID_SIZE (0 :: u8) in
      case str of
        None \<Rightarrow> \<lparr>id_bytes = zero\<rparr>
      | Some s \<Rightarrow>
          let len = (if length s > PROXY_ID_SIZE then PROXY_ID_SIZE else length s)
          in \<lparr>id_bytes = memcpy_at zero 0 (take len (map of_char s))\<rparr>)"

text \<open>\<open>out\<close> is the caller's character array, or NULL; the result is its new contents.\<close>

definition proxy_id_to_str :: "proxy_id_t option \<Rightarrow> string option \<Rightarrow> nat \<Rightarrow> string option" where
  "proxy_id_to_str pid out out_size =
     (case out of
        None \<Rightarrow> None
      | Some buf \<Rightarrow>
          if out_size = 0 then Some buf
          else case pid of
              None \<Rightarrow> Some (snprintf_into buf out_size ''(null)'')
            | Some p \<Rightarrow> Some (snprintf_into buf out_size (decimal (unat (proxy_id_value (id_bytes p))))))"

text \<open>
  The header renderer prints the two identifiers into local arrays of \<open>PROXY_ID_SIZE\<close>
  characters before formatting the line.
\<close>

definition proxy_header_to_str :: "proxy_header option \<Rightarrow> string option \<Rightarrow> nat \<Rightarrow> string option" where
  "proxy_header_to_str hdr out out_size =
     (case out of
        None \<Rightarrow> None
      | Some buf \<Rightarrow>
          if out_size = 0 then Some buf
          else case hdr of
              None \<Rightarrow> Some (snprintf_into buf out_size ''(null)'')
            | Some h \<Rightarrow>
                let local = replicate PROXY_ID_SIZE (CHR 0x00);
                    src = the (proxy_id_to_str (Some (h_src h)) (Some local) PROXY_ID_SIZE);
                    dst = the (proxy_id_to_str (Some (h_dst h)) (Some local) PROXY_ID_SIZE)
                in Some (snprintf_into buf out_size
                     (''[v'' @ hex2 (unat PROXY_VERSION) @ ''][src='' @ c_string src @
                      ''][dst='' @ c_string dst @ ''][content='' @
                      decimal (h_content_len h) @ '' B]'')))"

section \<open>Identifiers\<close>

lemma proxy_id_is_zero_from_iff:
  "proxy_id_is_zero_from i pid \<longleftrightarrow> (\<forall>j. i \<le> j \<and> j < PROXY_ID_SIZE \<longrightarrow> id_bytes pid ! j = 0)"
proof (induction i pid rule: proxy_id_is_zero_from.induct)
  case (1 i pid)
  show ?case
  proof (cases "i < PROXY_ID_SIZE \<and> id_bytes pid ! i = 0")
    case True
    with "1.IH" have "proxy_id_is_zero_from i pid \<longleftrightarrow>
        (\<forall>j. Suc i \<le> j \<and> j < PROXY_ID_SIZE \<longrightarrow> id_bytes pid ! j = 0)"
      by (simp add: proxy_id_is_zero_from.simps [of i pid])
    with True show ?thesis by (metis Suc_leI le_eq_less_or_eq Suc_leD)
  next
    case False
    then show ?thesis by (auto simp: proxy_id_is_zero_from.simps [of i pid])
  qed
qed

lemma proxy_id_is_zero_iff:
  assumes "wf_id pid"
  shows "proxy_id_is_zero pid \<longleftrightarrow> id_bytes pid = replicate PROXY_ID_SIZE 0"
  using assms by (auto simp: proxy_id_is_zero_def proxy_id_is_zero_from_iff wf_id_def list_eq_iff_nth_eq)

lemma proxy_id_equal_iff: "wf_id a \<Longrightarrow> wf_id b \<Longrightarrow> proxy_id_equal a b \<longleftrightarrow> a = b"
  by (cases a; cases b) (simp add: proxy_id_equal_def wf_id_def)

text \<open>Each byte of the identifier is a byte of its value, the first one the most significant.\<close>

lemma proxy_id_value_bytes:
  "ucast (drop_bit 24 (proxy_id_value b)) = b ! 0"
  "ucast (drop_bit 16 (proxy_id_value b)) = b ! 1"
  "ucast (drop_bit 8 (proxy_id_value b)) = b ! 2"
  "ucast (proxy_id_value b) = b ! 3"
  unfolding proxy_id_value_def
  by (rule bit_word_eqI; auto simp: bit_simps dest: bit_imp_le_length)+

lemma four_bytes_cases:
  assumes "length xs = 4"
  obtains a b c d where "xs = [a, b, c, d]"
  using assms by (auto simp: length_Suc_conv numeral_eq_Suc)

text \<open>
  for well-formed identifiers, comparing the 32-bit values the logs print decides the same
  question as comparing the bytes: the big-endian value determines the identifier.
\<close>

theorem proxy_id_value_determines_id:
  assumes "wf_id a" and "wf_id b"
  shows "proxy_id_value (id_bytes a) = proxy_id_value (id_bytes b) \<longleftrightarrow> proxy_id_equal a b"
proof
  assume eq: "proxy_id_value (id_bytes a) = proxy_id_value (id_bytes b)"
  have "id_bytes a ! i = id_bytes b ! i" if "i < 4" for i
    using that eq proxy_id_value_bytes [of "id_bytes a"] proxy_id_value_bytes [of "id_bytes b"]
    by (auto simp: less_Suc_eq numeral_eq_Suc)
  then have "id_bytes a = id_bytes b"
    using assms by (intro nth_equalityI) (auto simp: wf_id_def PROXY_ID_SIZE_def)
  then show "proxy_id_equal a b" by (simp add: proxy_id_equal_def)
next
  assume "proxy_id_equal a b"
  then show "proxy_id_value (id_bytes a) = proxy_id_value (id_bytes b)"
    using proxy_id_equal_iff [OF assms] by simp
qed

theorem proxy_id_value_determines_id_witness:
  "proxy_id_value [1, 2, 3, 4] = proxy_id_value [1, 2, 3, 5] \<longleftrightarrow>
   proxy_id_equal \<lparr>id_bytes = [1, 2, 3, 4]\<rparr> \<lparr>id_bytes = [1, 2, 3, 5]\<rparr>"
  using proxy_id_value_determines_id [of "\<lparr>id_bytes = [1, 2, 3, 4]\<rparr>" "\<lparr>id_bytes = [1, 2, 3, 5]\<rparr>"]
  by (simp add: wf_id_def PROXY_ID_SIZE_def)

section \<open>Parsing and building\<close>

lemma parse_frame:
  assumes "length s = PROXY_ID_SIZE" and "length d = PROXY_ID_SIZE"
  shows "proxy_header_parse (PROXY_VERSION # s @ d @ c) =
    Some \<lparr>h_src = \<lparr>id_bytes = s\<rparr>, h_dst = \<lparr>id_bytes = d\<rparr>, h_content = c, h_content_len = length c\<rparr>"
  using assms by (simp add: proxy_header_parse_def bslice_def layout_consts)

lemma split_header:
  assumes "PROXY_HEADER_SIZE \<le> length p"
  shows "p = p ! 0 # bslice PROXY_OFF_SRC PROXY_ID_SIZE p @ bslice PROXY_OFF_DST PROXY_ID_SIZE p
             @ drop PROXY_OFF_CONTENT p"
proof -
  obtain v q where p: "p = v # q" using assms by (cases p) (auto simp: layout_consts)
  have "drop 8 q = drop 4 (drop 4 q)" by simp
  then have "q = take 4 q @ take 4 (drop 4 q) @ drop 8 q" by (simp only: append_take_drop_id)
  then show ?thesis using p by (simp add: bslice_def layout_consts)
qed

text \<open>
  C36: the parser accepts exactly the payloads of the documented layout (version byte 1, four
  bytes of source, four of destination, any content), and returns those parts; every other
  payload, in particular a shorter one or one of another version, is rejected.
\<close>

theorem proxy_header_parse_iff:
  "proxy_header_parse p = Some h \<longleftrightarrow>
     p = PROXY_VERSION # id_bytes (h_src h) @ id_bytes (h_dst h) @ h_content h \<and>
     wf_id (h_src h) \<and> wf_id (h_dst h) \<and> h_content_len h = length (h_content h)"
proof
  assume parsed: "proxy_header_parse p = Some h"
  then have len: "PROXY_HEADER_SIZE \<le> length p" and ver: "p ! 0 = PROXY_VERSION"
    by (auto simp: proxy_header_parse_def PROXY_OFF_VERSION_def split: if_splits)
  from parsed have h: "h = \<lparr>h_src = \<lparr>id_bytes = bslice PROXY_OFF_SRC PROXY_ID_SIZE p\<rparr>,
      h_dst = \<lparr>id_bytes = bslice PROXY_OFF_DST PROXY_ID_SIZE p\<rparr>,
      h_content = drop PROXY_OFF_CONTENT p, h_content_len = length p - PROXY_HEADER_SIZE\<rparr>"
    by (auto simp: proxy_header_parse_def split: if_splits)
  show "p = PROXY_VERSION # id_bytes (h_src h) @ id_bytes (h_dst h) @ h_content h \<and>
     wf_id (h_src h) \<and> wf_id (h_dst h) \<and> h_content_len h = length (h_content h)"
    using split_header [OF len] ver len by (simp add: h wf_id_def layout_consts)
next
  assume "p = PROXY_VERSION # id_bytes (h_src h) @ id_bytes (h_dst h) @ h_content h \<and>
     wf_id (h_src h) \<and> wf_id (h_dst h) \<and> h_content_len h = length (h_content h)"
  then show "proxy_header_parse p = Some h"
    using parse_frame [of "id_bytes (h_src h)" "id_bytes (h_dst h)" "h_content h"]
    by (auto simp: wf_id_def)
qed

lemma nine_bytes_cases:
  assumes "9 \<le> length xs"
  obtains a0 a1 a2 a3 a4 a5 a6 a7 a8 t where "xs = a0 # a1 # a2 # a3 # a4 # a5 # a6 # a7 # a8 # t"
  using assms by (auto simp: Suc_le_length_iff numeral_eq_Suc)

lemma drop_nine: "drop (9 + n) (a0 # a1 # a2 # a3 # a4 # a5 # a6 # a7 # a8 # t) = drop n t"
  by (simp add: numeral_eq_Suc)

lemma build_writes_frame:
  assumes "wf_id src" and "wf_id dst" and "length c \<le> PROXY_CONTENT_MAX"
    and "PROXY_HEADER_SIZE + length c \<le> dst_buf_size" and "dst_buf_size \<le> length buf"
  shows "proxy_header_build src dst (Some c) (length c) buf dst_buf_size =
    (PROXY_HEADER_SIZE + length c,
     PROXY_VERSION # id_bytes src @ id_bytes dst @ c @ drop (PROXY_HEADER_SIZE + length c) buf)"
proof -
  obtain s0 s1 s2 s3 where s: "id_bytes src = [s0, s1, s2, s3]"
    using assms(1) by (auto simp: wf_id_def PROXY_ID_SIZE_def elim: four_bytes_cases)
  obtain d0 d1 d2 d3 where d: "id_bytes dst = [d0, d1, d2, d3]"
    using assms(2) by (auto simp: wf_id_def PROXY_ID_SIZE_def elim: four_bytes_cases)
  have "9 \<le> length buf" using assms(4,5) by (simp add: layout_consts)
  then obtain a0 a1 a2 a3 a4 a5 a6 a7 a8 t
    where buf: "buf = a0 # a1 # a2 # a3 # a4 # a5 # a6 # a7 # a8 # t"
    by (rule nine_bytes_cases)
  show ?thesis
    using assms(3-5)
    by (simp add: proxy_header_build_def layout_consts memcpy_at_def s d buf Let_def drop_nine)
qed

lemma build_then_parse:
  assumes "wf_id src" and "wf_id dst" and "length c \<le> PROXY_CONTENT_MAX"
    and "PROXY_HEADER_SIZE + length c \<le> dst_buf_size" and "dst_buf_size \<le> length buf"
    and "proxy_header_build src dst (Some c) (length c) buf dst_buf_size = (n, out)"
  shows "n = PROXY_HEADER_SIZE + length c \<and> drop n out = drop n buf \<and>
    proxy_header_parse (take n out) =
      Some \<lparr>h_src = src, h_dst = dst, h_content = c, h_content_len = length c\<rparr>"
proof -
  have ids: "length (id_bytes src) = 4" "length (id_bytes dst) = 4"
    using assms(1,2) by (simp_all add: wf_id_def PROXY_ID_SIZE_def)
  have n: "n = PROXY_HEADER_SIZE + length c"
    and out: "out = PROXY_VERSION # id_bytes src @ id_bytes dst @ c @ drop n buf"
    using build_writes_frame [OF assms(1-5)] assms(6) by auto
  have "length (PROXY_VERSION # id_bytes src @ id_bytes dst @ c) = n"
    using ids by (simp add: n layout_consts)
  then have "take n out = PROXY_VERSION # id_bytes src @ id_bytes dst @ c"
    and "drop n out = drop n buf"
    unfolding out by (metis append.assoc append_Cons append_eq_conv_conj)+
  then show ?thesis
    using parse_frame [of "id_bytes src" "id_bytes dst" c] ids n by (simp add: PROXY_ID_SIZE_def)
qed

text \<open>
  C35: what the builder writes, the parser reads back: for identifiers of four bytes and a
  content that fits, building into a large enough buffer returns the frame length, leaves the
  rest of the buffer alone, and parsing the bytes written gives the same identifiers and content.
\<close>

theorem proxy_header_roundtrip:
  assumes "wf_id src" and "wf_id dst" and "length c \<le> PROXY_CONTENT_MAX"
    and "PROXY_HEADER_SIZE + length c \<le> dst_buf_size" and "dst_buf_size \<le> length buf"
    and "proxy_header_build src dst (Some c) (length c) buf dst_buf_size = (n, out)"
  shows "n = PROXY_HEADER_SIZE + length c \<and> drop n out = drop n buf \<and>
    proxy_header_parse (take n out) =
      Some \<lparr>h_src = src, h_dst = dst, h_content = c, h_content_len = length c\<rparr>"
  by (rule build_then_parse [OF assms])

theorem proxy_header_roundtrip_witness:
  "fst (proxy_header_build \<lparr>id_bytes = [1, 2, 3, 4]\<rparr> \<lparr>id_bytes = [5, 6, 7, 8]\<rparr> (Some [9, 10]) 2
     (replicate 11 0) 11) = 11 \<and>
   proxy_header_parse [1, 1, 2, 3, 4, 5, 6, 7, 8, 9, 10] =
     Some \<lparr>h_src = \<lparr>id_bytes = [1, 2, 3, 4]\<rparr>, h_dst = \<lparr>id_bytes = [5, 6, 7, 8]\<rparr>,
           h_content = [9, 10], h_content_len = 2\<rparr>"
proof -
  let ?s = "\<lparr>id_bytes = [1, 2, 3, 4]\<rparr>" and ?d = "\<lparr>id_bytes = [5, 6, 7, 8]\<rparr>"
  let ?b = "[1, 1, 2, 3, 4, 5, 6, 7, 8, 9, 10] :: u8 list"
  have built: "proxy_header_build ?s ?d (Some [9, 10]) (length [9, 10 :: u8]) (replicate 11 0) 11
    = (11, ?b)"
    by (simp add: proxy_header_build_def layout_consts memcpy_at_def PROXY_VERSION_def Let_def)
  show ?thesis
    using proxy_header_roundtrip [of ?s ?d "[9, 10]" 11 "replicate 11 0", OF _ _ _ _ _ built] built
    by (simp add: wf_id_def layout_consts numeral_2_eq_2)
qed

text \<open>
  the builder's error paths: a content longer than the limit or a buffer too small for the
  frame yields 0 and leaves the buffer untouched, and these are the only ways to get 0.
\<close>

theorem proxy_header_build_error_iff:
  "fst (proxy_header_build src dst content len buf dst_buf_size) = 0 \<longleftrightarrow>
     (PROXY_CONTENT_MAX < len \<or> dst_buf_size < PROXY_HEADER_SIZE + len) \<and>
     proxy_header_build src dst content len buf dst_buf_size = (0, buf)"
  by (auto simp: proxy_header_build_def Let_def layout_consts split: if_splits)

section \<open>String renderings\<close>

lemma c_string_id_to_str:
  assumes "0 < sz"
  shows "c_string (the (proxy_id_to_str (Some p) (Some buf) sz)) =
    take (sz - 1) (decimal (unat (proxy_id_value (id_bytes p))))"
  using assms by (simp add: proxy_id_to_str_def c_string_snprintf decimal_no_nul)

lemma decimal_u32_length: "length (decimal (unat (w :: u32))) \<le> 10"
proof (rule decimal_length)
  have "unat w < 2 ^ 32" using unsigned_less [of w] by simp
  then show "unat w < 10 ^ 10" by simp
qed simp

text \<open>
  the identifier renderer is exact: into an array of at least 11 characters it writes the
  full decimal value of any identifier, terminated.
\<close>

theorem proxy_id_to_str_exact:
  assumes "11 \<le> sz"
  shows "c_string (the (proxy_id_to_str (Some p) (Some buf) sz)) =
    decimal (unat (proxy_id_value (id_bytes p)))"
proof -
  have "length (decimal (unat (proxy_id_value (id_bytes p)))) \<le> sz - 1"
    using decimal_u32_length [of "proxy_id_value (id_bytes p)"] assms by linarith
  then show ?thesis using assms by (simp add: c_string_id_to_str)
qed

theorem proxy_id_to_str_exact_witness:
  "c_string (the (proxy_id_to_str (Some \<lparr>id_bytes = [0, 0, 4, 210]\<rparr>) (Some (replicate 12 (CHR ''x''))) 12))
   = decimal (unat (proxy_id_value [0, 0, 4, 210]))"
  using proxy_id_to_str_exact [of 12 "\<lparr>id_bytes = [0, 0, 4, 210]\<rparr>" "replicate 12 (CHR ''x'')"] by simp

text \<open>
  the header renderer prints only the first three decimal digits of each identifier: its
  local arrays have \<open>PROXY_ID_SIZE\<close> characters, one of which is the terminator. Two headers
  whose identifiers agree on their first three digits are rendered alike.
\<close>

theorem proxy_header_to_str_truncates_ids:
  assumes "0 < sz"
  shows "c_string (the (proxy_header_to_str (Some h) (Some buf) sz)) =
    take (sz - 1) (''[v01][src='' @ take 3 (decimal (unat (proxy_id_value (id_bytes (h_src h))))) @
      ''][dst='' @ take 3 (decimal (unat (proxy_id_value (id_bytes (h_dst h))))) @
      ''][content='' @ decimal (h_content_len h) @ '' B]'')"
proof -
  have ver: "hex2 (unat PROXY_VERSION) = ''01''"
    by (simp add: hex2_def hex_char_def PROXY_VERSION_def)
  have "CHR 0x00 \<notin> set (take 3 (decimal n))" for n
    using decimal_no_nul [of n] by (meson in_set_takeD)
  then show ?thesis
    using assms
    by (simp add: proxy_header_to_str_def ver c_string_id_to_str PROXY_ID_SIZE_def Let_def
        c_string_snprintf decimal_no_nul del: take_append)
qed

theorem proxy_header_to_str_truncates_ids_witness:
  "c_string (the (proxy_header_to_str
     (Some \<lparr>h_src = \<lparr>id_bytes = [0, 0, 4, 210]\<rparr>, h_dst = \<lparr>id_bytes = [0, 0, 4, 211]\<rparr>,
            h_content = [], h_content_len = 0\<rparr>) (Some (replicate 64 (CHR ''x''))) 64))
   = ''[v01][src=123][dst=123][content=0 B]''"
proof -
  let ?h = "\<lparr>h_src = \<lparr>id_bytes = [0, 0, 4, 210]\<rparr>, h_dst = \<lparr>id_bytes = [0, 0, 4, 211]\<rparr>,
            h_content = [], h_content_len = 0\<rparr>"
  have "proxy_id_value [0, 0, 4, 210] = 1234" "proxy_id_value [0, 0, 4, 211] = 1235"
    by (simp_all add: proxy_id_value_def)
  then show ?thesis
    using proxy_header_to_str_truncates_ids [of 64 ?h "replicate 64 (CHR ''x'')"]
    by (simp add: decimal.simps)
qed

text \<open>
  An identifier made from a string is the string's characters, cut to four and zero padded.
\<close>

lemma proxy_id_from_str_bytes:
  "id_bytes (proxy_id_from_str (Some s)) =
     map of_char (take 4 s) @ replicate (4 - length s) 0 \<and>
   id_bytes (proxy_id_from_str None) = replicate 4 0"
  by (auto simp: proxy_id_from_str_def PROXY_ID_SIZE_def memcpy_at_def Let_def take_map)

lemma proxy_id_from_str_wf: "wf_id (proxy_id_from_str s)"
  using proxy_id_from_str_bytes by (cases s) (auto simp: wf_id_def PROXY_ID_SIZE_def)

end
