(* ===== verification/Proto_Handler.thy ===== *)
theory Proto_Handler
  imports Prelude
begin

text \<open>
  The protobuf front end of \<^verbatim>\<open>src/src/proto_handler.c\<close>: decoding FromRadio and ToRadio
  into the routing fields, and the three messages the proxy synthesizes.

  The message types and the codec are generated by nanopb from the Meshtastic definitions,
  which are no part of the repository. The messages are records of the fields the sources read
  or write, a oneof discriminator is a datatype with the tags the sources name (and one
  constructor for every other tag), and the codec is a parameter: a record \<open>nanopb\<close> of four
  functions and the generated maximal size of a ToRadio, passed to every operation that decodes
  or encodes. Encoding returns the success flag and
  the bytes written to the stream, at most the buffer size.
\<close>

section \<open>Generated message types\<close>

datatype fromradio_tag =
    FromRadio_packet_tag
  | FromRadio_my_info_tag
  | FromRadio_node_info_tag
  | FromRadio_config_tag
  | FromRadio_config_complete_id_tag
  | FromRadio_rebooted_tag
  | FromRadio_moduleConfig_tag
  | FromRadio_channel_tag
  | FromRadio_queueStatus_tag
  | FromRadio_metadata_tag
  | FromRadio_fileInfo_tag
  | FromRadio_deviceuiConfig_tag
  | FromRadio_other_tag int

datatype toradio_tag =
    ToRadio_packet_tag
  | ToRadio_want_config_id_tag
  | ToRadio_disconnect_tag
  | ToRadio_heartbeat_tag
  | ToRadio_other_tag int

datatype meshpacket_tag = MeshPacket_decoded_tag | MeshPacket_other_tag int

record mesh_packet =
  mp_from :: u32
  mp_to :: u32
  mp_which :: meshpacket_tag
  mp_portnum :: u32
  mp_payload :: "u8 list"

record queue_status =
  qs_res :: int
  qs_free :: u32
  qs_maxlen :: u32
  qs_mesh_packet_id :: u32

record fromradio_msg =
  fr_which :: fromradio_tag
  fr_packet :: mesh_packet
  fr_config_complete_id :: u32
  fr_queueStatus :: queue_status

record toradio_msg =
  tr_which :: toradio_tag
  tr_packet :: mesh_packet
  tr_want_config_id :: u32
  tr_heartbeat_nonce :: u32

text \<open>The zero initializers: no variant set, every field zero.\<close>

definition mesh_packet_zero :: mesh_packet where
  "mesh_packet_zero = \<lparr>mp_from = 0, mp_to = 0, mp_which = MeshPacket_other_tag 0, mp_portnum = 0,
     mp_payload = []\<rparr>"

definition fromradio_zero :: fromradio_msg where
  "fromradio_zero = \<lparr>fr_which = FromRadio_other_tag 0, fr_packet = mesh_packet_zero,
     fr_config_complete_id = 0,
     fr_queueStatus = \<lparr>qs_res = 0, qs_free = 0, qs_maxlen = 0, qs_mesh_packet_id = 0\<rparr>\<rparr>"

definition toradio_zero :: toradio_msg where
  "toradio_zero = \<lparr>tr_which = ToRadio_other_tag 0, tr_packet = mesh_packet_zero,
     tr_want_config_id = 0, tr_heartbeat_nonce = 0\<rparr>"

section \<open>The codec parameter\<close>

record nanopb =
  pb_decode_fromradio :: "u8 list \<Rightarrow> fromradio_msg option"
  pb_decode_toradio :: "u8 list \<Rightarrow> toradio_msg option"
  pb_encode_fromradio :: "fromradio_msg \<Rightarrow> nat \<Rightarrow> bool \<times> u8 list"
  pb_encode_toradio :: "toradio_msg \<Rightarrow> nat \<Rightarrow> bool \<times> u8 list"
  pb_toradio_size :: nat

section \<open>Routing information\<close>

record fromradio_info =
  which_variant :: fromradio_tag
  packet_from :: u32
  packet_to :: u32
  is_decoded :: bool
  portnum :: u32
  payload_bytes :: "u8 list"

record toradio_info =
  has_want_config :: bool
  want_config_id :: u32
  has_disconnect :: bool
  has_heartbeat :: bool
  is_packet :: bool
  ti_portnum :: u32
  ti_payload_bytes :: "u8 list"

definition fromradio_info_zero :: fromradio_info where
  "fromradio_info_zero = \<lparr>which_variant = FromRadio_other_tag 0, packet_from = 0, packet_to = 0,
     is_decoded = False, portnum = 0, payload_bytes = []\<rparr>"

definition toradio_info_zero :: toradio_info where
  "toradio_info_zero = \<lparr>has_want_config = False, want_config_id = 0, has_disconnect = False,
     has_heartbeat = False, is_packet = False, ti_portnum = 0, ti_payload_bytes = []\<rparr>"

section \<open>Decoding\<close>

definition proto_decode_fromradio :: "nanopb \<Rightarrow> u8 list \<Rightarrow> rc \<times> fromradio_info" where
  "proto_decode_fromradio pb buf =
     (let out = fromradio_info_zero in
      case pb_decode_fromradio pb buf of
        None \<Rightarrow> (Err EINVAL, out)
      | Some m \<Rightarrow>
          let out = out\<lparr>which_variant := fr_which m\<rparr> in
          if fr_which m \<noteq> FromRadio_packet_tag then (OK, out)
          else
            let p = fr_packet m;
                out = out\<lparr>packet_from := mp_from p, packet_to := mp_to p\<rparr>
            in if mp_which p \<noteq> MeshPacket_decoded_tag then (OK, out\<lparr>is_decoded := False\<rparr>)
               else (OK, out\<lparr>is_decoded := True, portnum := mp_portnum p,
                             payload_bytes := mp_payload p\<rparr>))"

definition proto_decode_toradio :: "nanopb \<Rightarrow> u8 list \<Rightarrow> rc \<times> toradio_info" where
  "proto_decode_toradio pb buf =
     (let out = toradio_info_zero in
      case pb_decode_toradio pb buf of
        None \<Rightarrow> (Err EINVAL, out)
      | Some m \<Rightarrow>
          (case tr_which m of
             ToRadio_want_config_id_tag \<Rightarrow>
               (OK, out\<lparr>has_want_config := True, want_config_id := tr_want_config_id m\<rparr>)
           | ToRadio_disconnect_tag \<Rightarrow> (OK, out\<lparr>has_disconnect := True\<rparr>)
           | ToRadio_heartbeat_tag \<Rightarrow> (OK, out\<lparr>has_heartbeat := True\<rparr>)
           | _ \<Rightarrow>
               if tr_which m = ToRadio_packet_tag \<and> mp_which (tr_packet m) = MeshPacket_decoded_tag
               then (OK, out\<lparr>is_packet := True, ti_portnum := mp_portnum (tr_packet m),
                             ti_payload_bytes := mp_payload (tr_packet m)\<rparr>)
               else (OK, out)))"

section \<open>Encoding\<close>

text \<open>
  The tail the three encoders share: the bytes the codec wrote are in the caller's buffer
  whether or not it succeeded; a failure with a full buffer is reported as \<open>-ENOMEM\<close>, any other
  as \<open>-EINVAL\<close>; \<open>*out_len\<close> is assigned on success only.
\<close>

definition encode_result ::
  "bool \<times> u8 list \<Rightarrow> u8 list \<Rightarrow> nat \<Rightarrow> nat \<Rightarrow> rc \<times> u8 list \<times> nat" where
  "encode_result r out_buf buf_size out_len =
     (let out_buf = memcpy_at out_buf 0 (snd r) in
      if \<not> fst r then
        if length (snd r) \<ge> buf_size then (Err ENOMEM, out_buf, out_len)
        else (Err EINVAL, out_buf, out_len)
      else (OK, out_buf, length (snd r) mod 2 ^ 16))"

definition config_complete_msg :: "u32 \<Rightarrow> fromradio_msg" where
  "config_complete_msg nonce = fromradio_zero\<lparr>fr_which := FromRadio_config_complete_id_tag,
     fr_config_complete_id := nonce\<rparr>"

definition heartbeat_msg :: "u32 \<Rightarrow> toradio_msg" where
  "heartbeat_msg nonce = toradio_zero\<lparr>tr_which := ToRadio_heartbeat_tag,
     tr_heartbeat_nonce := nonce\<rparr>"

definition queue_status_msg :: fromradio_msg where
  "queue_status_msg = fromradio_zero\<lparr>fr_which := FromRadio_queueStatus_tag,
     fr_queueStatus := \<lparr>qs_res = 0, qs_free = 16, qs_maxlen = 16, qs_mesh_packet_id = 0\<rparr>\<rparr>"

definition proto_encode_config_complete ::
  "nanopb \<Rightarrow> u32 \<Rightarrow> u8 list \<Rightarrow> nat \<Rightarrow> nat \<Rightarrow> rc \<times> u8 list \<times> nat" where
  "proto_encode_config_complete pb nonce out_buf buf_size out_len =
     encode_result (pb_encode_fromradio pb (config_complete_msg nonce) buf_size)
       out_buf buf_size out_len"

definition proto_encode_heartbeat ::
  "nanopb \<Rightarrow> u32 \<Rightarrow> u8 list \<Rightarrow> nat \<Rightarrow> nat \<Rightarrow> rc \<times> u8 list \<times> nat" where
  "proto_encode_heartbeat pb nonce out_buf buf_size out_len =
     encode_result (pb_encode_toradio pb (heartbeat_msg nonce) buf_size) out_buf buf_size out_len"

definition proto_encode_queue_status ::
  "nanopb \<Rightarrow> u8 list \<Rightarrow> nat \<Rightarrow> nat \<Rightarrow> rc \<times> u8 list \<times> nat" where
  "proto_encode_queue_status pb out_buf buf_size out_len =
     encode_result (pb_encode_fromradio pb queue_status_msg buf_size) out_buf buf_size out_len"

text \<open>
  \<open>decode_config_complete_nonce\<close> of \<^verbatim>\<open>src/src/upstream_session.c\<close>, which decodes the
  closing nonce into its own scratch message.
\<close>

definition decode_config_complete_nonce :: "nanopb \<Rightarrow> u8 list \<Rightarrow> u32 option" where
  "decode_config_complete_nonce pb payload =
     (case pb_decode_fromradio pb payload of
        None \<Rightarrow> None
      | Some m \<Rightarrow> if fr_which m \<noteq> FromRadio_config_complete_id_tag then None
                  else Some (fr_config_complete_id m))"

section \<open>A concrete codec\<close>

text \<open>
  A small codec at which the hypotheses about the parameter hold: the first byte is the tag of
  the variant, the second the nonce or the kind of packet. It serves the witnesses only.
\<close>

definition sample_packet :: "u8 list \<Rightarrow> mesh_packet" where
  "sample_packet bs =
     (case bs of
        [] \<Rightarrow> mesh_packet_zero
      | k # p \<Rightarrow>
          if k = 4 then mesh_packet_zero\<lparr>mp_which := MeshPacket_decoded_tag, mp_portnum := 256, mp_payload := p\<rparr>
          else if k = 1 then mesh_packet_zero\<lparr>mp_which := MeshPacket_decoded_tag, mp_portnum := 1, mp_payload := p\<rparr>
          else mesh_packet_zero)"

definition sample_pb :: nanopb where
  "sample_pb =
     \<lparr>pb_decode_fromradio = (\<lambda>bs. case bs of
          [] \<Rightarrow> None
        | t # p \<Rightarrow>
            if t = 2 then Some (fromradio_zero\<lparr>fr_which := FromRadio_packet_tag, fr_packet := sample_packet p\<rparr>)
            else if t = 3 then Some (fromradio_zero\<lparr>fr_which := FromRadio_my_info_tag\<rparr>)
            else if t = 4 then Some (fromradio_zero\<lparr>fr_which := FromRadio_node_info_tag\<rparr>)
            else if t = 7 then Some (config_complete_msg (case p of [] \<Rightarrow> 0 | n # _ \<Rightarrow> ucast n))
            else if t = 8 then Some (fromradio_zero\<lparr>fr_which := FromRadio_rebooted_tag\<rparr>)
            else if t = 11 then Some queue_status_msg
            else None),
      pb_decode_toradio = (\<lambda>bs. case bs of
          [] \<Rightarrow> None
        | t # p \<Rightarrow>
            if t = 1 then Some (toradio_zero\<lparr>tr_which := ToRadio_packet_tag, tr_packet := sample_packet p\<rparr>)
            else if t = 3 then Some (toradio_zero\<lparr>tr_which := ToRadio_want_config_id_tag,
                                       tr_want_config_id := (case p of [] \<Rightarrow> 0 | n # _ \<Rightarrow> ucast n)\<rparr>)
            else if t = 4 then Some (toradio_zero\<lparr>tr_which := ToRadio_disconnect_tag\<rparr>)
            else if t = 7 then Some (heartbeat_msg (case p of [] \<Rightarrow> 0 | n # _ \<Rightarrow> ucast n))
            else None),
      pb_encode_fromradio = (\<lambda>m n.
         if fr_which m = FromRadio_config_complete_id_tag
         then (2 \<le> n, take n [7, ucast (fr_config_complete_id m)])
         else (1 \<le> n, take n [11])),
      pb_encode_toradio = (\<lambda>m n.
         if tr_which m = ToRadio_want_config_id_tag
         then (2 \<le> n, take n [3, ucast (tr_want_config_id m)])
         else (2 \<le> n, take n [7, ucast (tr_heartbeat_nonce m)])),
      pb_toradio_size = 16\<rparr>"

text \<open>
  The documented guarantee of an output stream over a buffer: the encoder never writes more bytes
  than the buffer has.
\<close>

definition pb_bounded :: "nanopb \<Rightarrow> bool" where
  "pb_bounded pb \<longleftrightarrow> (\<forall>m n. length (snd (pb_encode_fromradio pb m n)) \<le> n) \<and>
     (\<forall>m n. length (snd (pb_encode_toradio pb m n)) \<le> n)"

lemma sample_pb_bounded: "pb_bounded sample_pb"
  by (simp add: pb_bounded_def sample_pb_def)

section \<open>What the decoders expose\<close>

lemma decode_fromradio_rc:
  "fst (proto_decode_fromradio pb buf) = (if pb_decode_fromradio pb buf = None then Err EINVAL else OK)"
  by (auto simp: proto_decode_fromradio_def Let_def split: option.splits)

text \<open>
  the FromRadio decoder reports a failure exactly when the codec fails, and otherwise the
  variant of the message; a payload and a port number are exposed for decoded packets only, and
  then they are those of the packet, while every other variant leaves the zeroed fields.
\<close>

theorem proto_decode_fromradio_exposes:
  "proto_decode_fromradio pb buf =
     (case pb_decode_fromradio pb buf of
        None \<Rightarrow> (Err EINVAL, fromradio_info_zero)
      | Some m \<Rightarrow>
          let pkt = (fr_which m = FromRadio_packet_tag);
              plain = (pkt \<and> mp_which (fr_packet m) = MeshPacket_decoded_tag)
          in (OK, \<lparr>which_variant = fr_which m,
                   packet_from = (if pkt then mp_from (fr_packet m) else 0),
                   packet_to = (if pkt then mp_to (fr_packet m) else 0),
                   is_decoded = plain,
                   portnum = (if plain then mp_portnum (fr_packet m) else 0),
                   payload_bytes = (if plain then mp_payload (fr_packet m) else [])\<rparr>))"
  by (simp add: proto_decode_fromradio_def fromradio_info_zero_def Let_def split: option.splits)

text \<open>
  the ToRadio decoder raises at most one of its flags, each exactly for its variant, and
  the want_config nonce it returns is the one of the message.
\<close>

theorem proto_decode_toradio_classifies:
  "proto_decode_toradio pb buf =
     (case pb_decode_toradio pb buf of
        None \<Rightarrow> (Err EINVAL, toradio_info_zero)
      | Some m \<Rightarrow> (OK, toradio_info_zero
          \<lparr>has_want_config := (tr_which m = ToRadio_want_config_id_tag),
           want_config_id := (if tr_which m = ToRadio_want_config_id_tag then tr_want_config_id m else 0),
           has_disconnect := (tr_which m = ToRadio_disconnect_tag),
           has_heartbeat := (tr_which m = ToRadio_heartbeat_tag),
           is_packet := (tr_which m = ToRadio_packet_tag \<and> mp_which (tr_packet m) = MeshPacket_decoded_tag),
           ti_portnum := (if tr_which m = ToRadio_packet_tag \<and> mp_which (tr_packet m) = MeshPacket_decoded_tag
                          then mp_portnum (tr_packet m) else 0),
           ti_payload_bytes := (if tr_which m = ToRadio_packet_tag \<and> mp_which (tr_packet m) = MeshPacket_decoded_tag
                          then mp_payload (tr_packet m) else [])\<rparr>))"
  by (auto simp: proto_decode_toradio_def toradio_info_zero_def Let_def
      split: option.splits toradio_tag.splits)

section \<open>Encoding\<close>

lemma encode_result_cases:
  "encode_result r buf sz l =
     (if fst r then (OK, memcpy_at buf 0 (snd r), length (snd r) mod 2 ^ 16)
      else (Err (if sz \<le> length (snd r) then ENOMEM else EINVAL), memcpy_at buf 0 (snd r), l))"
  by (simp add: encode_result_def Let_def)

end
