(* ===== verification/Interfaces.thy ===== *)
theory Interfaces
  imports Prelude
begin

text \<open>
  The contracts between components, as locales. \<open>bounded_log\<close> is a store that appends or refuses
  (the config cache); \<open>bounded_fifo\<close> extends it with removal from the front (the UART transmit
  queue and the packet ring of every phone); \<open>safe_system\<close> is a transition system with an
  inductive invariant; \<open>simulation\<close> adds an abstract service, \<open>watched_system\<close> a party that sees
  part of the state (a phone). The theories of the providers interpret them on their own operations.
\<close>

section \<open>Stores that append or refuse\<close>

text \<open>The frames a store accepts, in order, when each one is offered in turn.\<close>

primrec accepted :: "('f list \<Rightarrow> 'f \<Rightarrow> bool) \<Rightarrow> 'f list \<Rightarrow> 'f list \<Rightarrow> 'f list" where
  "accepted fits xs [] = []"
| "accepted fits xs (f # fs) =
     (if fits xs f then f # accepted fits (xs @ [f]) fs else accepted fits xs fs)"

primrec offer_all :: "('f \<Rightarrow> 's \<Rightarrow> rc \<times> 's) \<Rightarrow> 'f list \<Rightarrow> 's \<Rightarrow> 's" where
  "offer_all add [] s = s"
| "offer_all add (f # fs) s = offer_all add fs (snd (add f s))"

lemma accepted_all:
  assumes "\<And>ys f zs. fs = ys @ f # zs \<Longrightarrow> fits (xs @ ys) f"
  shows "accepted fits xs fs = fs"
  using assms
proof (induction fs arbitrary: xs)
  case Nil
  show ?case by simp
next
  case (Cons f fs)
  have "fits xs f" using Cons.prems [of "[]" f fs] by simp
  moreover have "accepted fits (xs @ [f]) fs = fs"
  proof (rule Cons.IH)
    fix ys g zs
    assume "fs = ys @ g # zs"
    then show "fits ((xs @ [f]) @ ys) g" using Cons.prems [of "f # ys" g zs] by simp
  qed
  ultimately show ?case by simp
qed

locale bounded_log =
  fixes add :: "'f \<Rightarrow> 's \<Rightarrow> rc \<times> 's"
    and contents :: "'s \<Rightarrow> 'f list"
    and invar :: "'s \<Rightarrow> bool"
    and fits :: "'f list \<Rightarrow> 'f \<Rightarrow> bool"
  assumes add_fits: "invar s \<Longrightarrow> fits (contents s) f \<Longrightarrow>
      fst (add f s) = OK \<and> contents (snd (add f s)) = contents s @ [f]"
    and add_refused: "invar s \<Longrightarrow> \<not> fits (contents s) f \<Longrightarrow>
      fst (add f s) \<noteq> OK \<and> contents (snd (add f s)) = contents s"
    and add_invar: "invar s \<Longrightarrow> invar (snd (add f s))"
begin

lemma add_ok_iff: "invar s \<Longrightarrow> fst (add f s) = OK \<longleftrightarrow> fits (contents s) f"
  using add_fits add_refused by blast

lemma contents_add:
  "invar s \<Longrightarrow> contents (snd (add f s)) = (if fits (contents s) f then contents s @ [f] else contents s)"
  by (simp add: add_fits add_refused)

lemma offer_all_invar: "invar s \<Longrightarrow> invar (offer_all add fs s)"
  by (induction fs arbitrary: s) (auto intro: add_invar)

lemma offer_all_contents:
  "invar s \<Longrightarrow> contents (offer_all add fs s) = contents s @ accepted fits (contents s) fs"
proof (induction fs arbitrary: s)
  case Nil
  show ?case by simp
next
  case (Cons f fs)
  then have "contents (offer_all add (f # fs) s) =
      contents (snd (add f s)) @ accepted fits (contents (snd (add f s))) fs"
    by (simp add: add_invar)
  with Cons.prems show ?case by (simp add: contents_add)
qed

lemma offer_all_ok:
  assumes "invar s" and "\<And>ys f zs. fs = ys @ f # zs \<Longrightarrow> fits (contents s @ ys) f"
  shows "contents (offer_all add fs s) = contents s @ fs"
proof -
  have "accepted fits (contents s) fs = fs" by (rule accepted_all) (rule assms(2))
  with offer_all_contents [OF assms(1)] show ?thesis by simp
qed

end

section \<open>Queues\<close>

datatype 'f fifo_op = Put 'f | Get

text \<open>
  Running a sequence of operations: the frames accepted and the frames delivered, both in order,
  and the final state.
\<close>

fun fifo_run :: "('f \<Rightarrow> 's \<Rightarrow> rc \<times> 's) \<Rightarrow> ('s \<Rightarrow> ('f \<times> 's) option) \<Rightarrow> 'f fifo_op list \<Rightarrow> 's
    \<Rightarrow> 'f list \<times> 'f list \<times> 's" where
  "fifo_run add get [] s = ([], [], s)"
| "fifo_run add get (Put f # ops) s =
     (let (r, s') = add f s; (ins, outs, s'') = fifo_run add get ops s'
      in (if r = OK then f # ins else ins, outs, s''))"
| "fifo_run add get (Get # ops) s =
     (case get s of
        None \<Rightarrow> fifo_run add get ops s
      | Some (f, s') \<Rightarrow> let (ins, outs, s'') = fifo_run add get ops s' in (ins, f # outs, s''))"

locale bounded_fifo = bounded_log add contents invar fits
  for add :: "'f \<Rightarrow> 's \<Rightarrow> rc \<times> 's"
    and contents :: "'s \<Rightarrow> 'f list"
    and invar :: "'s \<Rightarrow> bool"
    and fits :: "'f list \<Rightarrow> 'f \<Rightarrow> bool" +
  fixes get :: "'s \<Rightarrow> ('f \<times> 's) option"
  assumes get_empty: "invar s \<Longrightarrow> contents s = [] \<Longrightarrow> get s = None"
    and get_front: "invar s \<Longrightarrow> contents s = f # fs \<Longrightarrow>
      \<exists>s'. get s = Some (f, s') \<and> contents s' = fs \<and> invar s'"
begin

lemma get_cases:
  assumes "invar s"
  obtains "contents s = []" and "get s = None"
  | f s' where "get s = Some (f, s')" and "contents s = f # contents s'" and "invar s'"
proof (cases "contents s")
  case Nil
  then show ?thesis by (rule that(1)) (rule get_empty [OF assms Nil])
next
  case (Cons f fs)
  then obtain t where "get s = Some (f, t)" "contents t = fs" "invar t"
    using get_front [OF assms Cons] by blast
  with Cons that(2) show ?thesis by simp
qed

lemma get_invar: "invar s \<Longrightarrow> get s = Some (f, s') \<Longrightarrow> invar s'"
  by (cases rule: get_cases [of s]) simp_all

text \<open>Nothing is lost, duplicated or reordered between what was accepted and what comes out.\<close>

lemma fifo_order:
  assumes "invar s" and "fifo_run add get ops s = (ins, outs, s')"
  shows "invar s' \<and> outs @ contents s' = contents s @ ins"
  using assms
proof (induction ops arbitrary: s ins outs s')
  case Nil
  then show ?case by simp
next
  case (Cons op ops)
  show ?case
  proof (cases op)
    case (Put f)
    obtain r t where a: "add f s = (r, t)" by (cases "add f s")
    obtain ins' where run: "fifo_run add get ops t = (ins', outs, s')"
      and ins: "ins = (if r = OK then f # ins' else ins')"
      using Cons.prems(2) Put a by (auto simp: Let_def split: prod.splits)
    have "invar t" using add_invar [OF Cons.prems(1), of f] a by simp
    from Cons.IH [OF this run] show ?thesis
      using contents_add [OF Cons.prems(1), of f] add_ok_iff [OF Cons.prems(1), of f] a ins by auto
  next
    case Get
    from Cons.prems(1) show ?thesis
    proof (cases rule: get_cases)
      case 1
      then show ?thesis using Cons.IH [OF Cons.prems(1)] Cons.prems(2) Get by simp
    next
      case (2 f t)
      then obtain outs' where run: "fifo_run add get ops t = (ins, outs', s')" and "outs = f # outs'"
        using Cons.prems(2) Get by (auto simp: Let_def split: prod.splits)
      then show ?thesis using Cons.IH [OF 2(3) run] 2(2) by simp
    qed
  qed
qed

end

section \<open>Transition systems with an invariant\<close>

inductive reachable :: "('s \<Rightarrow> bool) \<Rightarrow> ('s \<Rightarrow> 'e \<Rightarrow> 's \<Rightarrow> bool) \<Rightarrow> 's \<Rightarrow> bool"
  for start :: "'s \<Rightarrow> bool" and step :: "'s \<Rightarrow> 'e \<Rightarrow> 's \<Rightarrow> bool" where
  reach_start: "start s \<Longrightarrow> reachable start step s"
| reach_step: "reachable start step s \<Longrightarrow> step s e t \<Longrightarrow> reachable start step t"

locale safe_system =
  fixes start :: "'s \<Rightarrow> bool"
    and step :: "'s \<Rightarrow> 'e \<Rightarrow> 's \<Rightarrow> bool"
    and inv :: "'s \<Rightarrow> bool"
  assumes start_inv: "start s \<Longrightarrow> inv s"
    and step_inv: "inv s \<Longrightarrow> step s e t \<Longrightarrow> inv t"
begin

lemma reachable_inv: "reachable start step s \<Longrightarrow> inv s"
  by (induction rule: reachable.induct) (auto intro: start_inv step_inv)

end

section \<open>Simulation by an abstract service\<close>

text \<open>
  A system that implements an abstract one: under the invariant every concrete step is an abstract
  step of the abstraction, or leaves it alone.
\<close>

locale simulation = safe_system start step inv
  for start :: "'s \<Rightarrow> bool"
    and step :: "'s \<Rightarrow> 'e \<Rightarrow> 's \<Rightarrow> bool"
    and inv :: "'s \<Rightarrow> bool" +
  fixes abs :: "'s \<Rightarrow> 'a"
    and astep :: "'a \<Rightarrow> 'a \<Rightarrow> bool"
  assumes sim_step: "inv s \<Longrightarrow> step s e t \<Longrightarrow> abs t = abs s \<or> astep (abs s) (abs t)"
begin

lemma sim_path:
  assumes "inv s" and "reachable (\<lambda>v. v = s) step t"
  shows "inv t \<and> astep\<^sup>*\<^sup>* (abs s) (abs t)"
  using assms(2)
proof (induction rule: reachable.induct)
  case (reach_start t)
  then show ?case using assms(1) by simp
next
  case (reach_step t e u)
  then have "astep\<^sup>*\<^sup>* (abs s) (abs u)"
    using sim_step [of t e u] by (auto intro: rtranclp.rtrancl_into_rtrancl)
  then show ?case using reach_step step_inv [of t e u] by blast
qed

end

section \<open>A system watched by one party\<close>

inductive event_run :: "('s \<Rightarrow> 'e \<Rightarrow> 's \<Rightarrow> bool) \<Rightarrow> 's \<Rightarrow> 'e list \<Rightarrow> 's \<Rightarrow> bool" for step where
  run_none: "event_run step s [] s"
| run_event: "step s e t \<Longrightarrow> event_run step t es u \<Longrightarrow> event_run step s (e # es) u"

inductive_simps event_run_simps [simp]: "event_run step s [] t" "event_run step s (e # es) t"

lemma run_append: "event_run step s (es @ fs) u \<longleftrightarrow> (\<exists>t. event_run step s es t \<and> event_run step t fs u)"
  by (induction es arbitrary: s) auto

lemma run_from_reachable: "event_run step s es t \<Longrightarrow> reachable start step s \<Longrightarrow> reachable start step t"
  by (induction rule: event_run.induct) (auto intro: reach_step)

text \<open>
  A system watched by one party: \<open>obs\<close> is what the party can see, \<open>own\<close> its own events,
  \<open>quiet\<close> the events under which it is watched.
\<close>

locale watched_system = safe_system start step inv
  for start :: "'s \<Rightarrow> bool"
    and step :: "'s \<Rightarrow> 'e \<Rightarrow> 's \<Rightarrow> bool"
    and inv :: "'s \<Rightarrow> bool" +
  fixes obs :: "'s \<Rightarrow> 'o"
    and own :: "'e \<Rightarrow> bool"
    and quiet :: "'e \<Rightarrow> bool"
  assumes local_respect: "inv s \<Longrightarrow> step s e t \<Longrightarrow> quiet e \<Longrightarrow> \<not> own e \<Longrightarrow> obs t = obs s"
    and step_consistent: "inv s \<Longrightarrow> inv s' \<Longrightarrow> obs s' = obs s \<Longrightarrow> own e \<Longrightarrow> step s e t \<Longrightarrow> step s' e t' \<Longrightarrow>
      obs t' = obs t"
begin

lemma run_inv: "event_run step s es t \<Longrightarrow> inv s \<Longrightarrow> inv t"
  by (induction rule: event_run.induct) (auto intro: step_inv)

lemma run_unseen:
  "event_run step s es t \<Longrightarrow> inv s \<Longrightarrow> \<forall>e \<in> set es. quiet e \<and> \<not> own e \<Longrightarrow> obs t = obs s"
proof (induction rule: event_run.induct)
  case (run_event s e t es u)
  have "obs t = obs s" using local_respect [OF run_event.prems(1) run_event.hyps(1)] run_event.prems(2) by simp
  with run_event.IH step_inv [OF run_event.prems(1) run_event.hyps(1)] run_event.prems(2) show ?case by simp
qed simp

text \<open>Two runs with the same own events, whatever else happens in between, end in the same view.\<close>

lemma run_purge:
  assumes "event_run step s es t" and "event_run step s' fs t'" and "inv s" and "inv s'" and "obs s' = obs s"
    and "\<forall>e \<in> set es. quiet e" and "\<forall>e \<in> set fs. quiet e" and "filter own fs = filter own es"
  shows "obs t' = obs t"
  using assms
proof (induction arbitrary: s' fs rule: event_run.induct)
  case (run_none s)
  then have "\<forall>e \<in> set fs. quiet e \<and> \<not> own e" by (auto simp: filter_empty_conv)
  with run_unseen [OF run_none(1,3)] run_none(4) show ?case by simp
next
  case (run_event s e t es u)
  have inv: "inv t" by (rule step_inv [OF run_event.prems(2) run_event.hyps(1)])
  have q: "quiet e" "\<forall>e \<in> set es. quiet e" using run_event.prems(5) by simp_all
  show ?case
  proof (cases "own e")
    case False
    have "obs s' = obs t"
      using local_respect [OF run_event.prems(2) run_event.hyps(1) q(1) False] run_event.prems(4) by simp
    with run_event.IH [OF run_event.prems(1) inv run_event.prems(3) _ q(2) run_event.prems(6)]
      run_event.prems(7) False show ?thesis by simp
  next
    case True
    then have "filter own fs = e # filter own es" using run_event.prems(7) by simp
    then obtain us vs where f: "fs = us @ e # vs" "\<forall>u \<in> set us. \<not> own u" "filter own vs = filter own es"
      unfolding filter_eq_Cons_iff by metis
    then obtain x y where x: "event_run step s' us x" "step x e y" "event_run step y vs t'"
      using run_event.prems(1) by (auto simp: run_append)
    have ix: "inv x" by (rule run_inv [OF x(1) run_event.prems(3)])
    have "obs x = obs s"
      using run_unseen [OF x(1) run_event.prems(3)] run_event.prems(4,6) f by simp
    from step_consistent [OF run_event.prems(2) ix this True run_event.hyps(1) x(2)] have "obs y = obs t" .
    with run_event.IH [OF x(3) inv step_inv [OF ix x(2)] _ q(2) _ f(3)] run_event.prems(6) f(1)
    show ?thesis by simp
  qed
qed

end

end
