(* ===== verification/Config_Cache.thy ===== *)
theory Config_Cache
  imports Proto_Handler Interfaces
begin

text \<open>
  The config cache of \<^verbatim>\<open>src/src/config_cache.c\<close>: the packed arena, its index, and the
  nonce-dependent segments of a replay. The 16-bit cursors are natural numbers; the invariant
  bounds them by the arena and index sizes, far below \<open>2 ^ 16\<close>. The abstract view of a cache is
  the list of the frames stored, each a variant and its bytes.
\<close>

section \<open>State\<close>

definition CONFIG_CACHE_ARENA_BYTES :: nat where "CONFIG_CACHE_ARENA_BYTES = 4096"
definition CONFIG_CACHE_MAX_FRAMES :: nat where "CONFIG_CACHE_MAX_FRAMES = 128"
definition MESH_NONCE_ONLY_CONFIG :: u32 where "MESH_NONCE_ONLY_CONFIG = 69420"
definition MESH_NONCE_ONLY_NODES :: u32 where "MESH_NONCE_ONLY_NODES = 69421"

lemmas cache_layout [layout_consts] = CONFIG_CACHE_ARENA_BYTES_def CONFIG_CACHE_MAX_FRAMES_def

record cache_frame_ref =
  cf_offset :: nat
  cf_len :: nat
  cf_variant :: fromradio_tag

record cache =
  s_arena :: "u8 list"
  s_index :: "cache_frame_ref list"
  s_used :: nat
  s_count :: nat
  s_ready :: bool
  s_queuestatus_idx :: int
  s_own_nodeinfo_idx :: int

definition cache_static :: cache where
  "cache_static = \<lparr>s_arena = replicate CONFIG_CACHE_ARENA_BYTES 0,
     s_index = replicate CONFIG_CACHE_MAX_FRAMES
       \<lparr>cf_offset = 0, cf_len = 0, cf_variant = FromRadio_other_tag 0\<rparr>,
     s_used = 0, s_count = 0, s_ready = False, s_queuestatus_idx = -1, s_own_nodeinfo_idx = -1\<rparr>"

section \<open>Operations\<close>

definition cache_begin :: "cache \<Rightarrow> cache" where
  "cache_begin c = c\<lparr>s_ready := False, s_used := 0, s_count := 0, s_queuestatus_idx := -1,
     s_own_nodeinfo_idx := -1\<rparr>"

definition cache_add_frame :: "u8 list \<Rightarrow> fromradio_tag \<Rightarrow> cache \<Rightarrow> rc \<times> cache" where
  "cache_add_frame raw variant c =
     (if s_count c \<ge> CONFIG_CACHE_MAX_FRAMES then (Err ENOMEM, c)
      else if s_used c + length raw > CONFIG_CACHE_ARENA_BYTES then (Err ENOMEM, c)
      else
        let c = c\<lparr>s_arena := memcpy_at (s_arena c) (s_used c) raw,
                  s_index := (s_index c)[s_count c :=
                    \<lparr>cf_offset = s_used c, cf_len = length raw, cf_variant = variant\<rparr>]\<rparr>;
            c = (if variant = FromRadio_queueStatus_tag
                 then c\<lparr>s_queuestatus_idx := int (s_count c)\<rparr> else c);
            c = (if variant = FromRadio_node_info_tag \<and> s_own_nodeinfo_idx c < 0
                 then c\<lparr>s_own_nodeinfo_idx := int (s_count c)\<rparr> else c)
        in (OK, c\<lparr>s_used := s_used c + length raw, s_count := s_count c + 1\<rparr>))"

definition cache_mark_ready :: "cache \<Rightarrow> cache" where
  "cache_mark_ready c = c\<lparr>s_ready := True\<rparr>"

definition cache_is_ready :: "cache \<Rightarrow> bool" where
  "cache_is_ready c = s_ready c"

definition cache_frame_at :: "nat \<Rightarrow> cache \<Rightarrow> cache_frame_ref option" where
  "cache_frame_at idx c = (if idx \<ge> s_count c then None else Some (s_index c ! idx))"

text \<open>The pointer into the arena: everything from the frame's offset on.\<close>

definition cache_frame_bytes :: "cache_frame_ref option \<Rightarrow> cache \<Rightarrow> u8 list option" where
  "cache_frame_bytes ref c =
     (case ref of None \<Rightarrow> None | Some r \<Rightarrow> Some (drop (cf_offset r) (s_arena c)))"

definition cache_frame_count :: "cache \<Rightarrow> nat" where
  "cache_frame_count c = s_count c"

definition cache_get_queuestatus :: "cache \<Rightarrow> (u8 list \<times> nat) option" where
  "cache_get_queuestatus c =
     (if s_queuestatus_idx c < 0 then None
      else let r = s_index c ! nat (s_queuestatus_idx c)
           in Some (drop (cf_offset r) (s_arena c), cf_len r))"

definition cache_frame_in_segment :: "nat \<Rightarrow> u32 \<Rightarrow> cache \<Rightarrow> bool" where
  "cache_frame_in_segment idx nonce c =
     (if idx \<ge> s_count c then False
      else
        let variant = cf_variant (s_index c ! idx) in
        if variant = FromRadio_config_complete_id_tag then False
        else
          let is_nodeinfo = (variant = FromRadio_node_info_tag) in
          if nonce = MESH_NONCE_ONLY_NODES then is_nodeinfo
          else if nonce = MESH_NONCE_ONLY_CONFIG then
            (if is_nodeinfo \<and> int idx \<noteq> s_own_nodeinfo_idx c then False else True)
          else True)"

section \<open>The abstract view\<close>

type_synonym frame = "fromradio_tag \<times> u8 list"

definition ref_frame :: "u8 list \<Rightarrow> cache_frame_ref \<Rightarrow> frame" where
  "ref_frame arena r = (cf_variant r, bslice (cf_offset r) (cf_len r) arena)"

definition refs :: "cache \<Rightarrow> cache_frame_ref list" where
  "refs c = take (s_count c) (s_index c)"

definition frames :: "cache \<Rightarrow> frame list" where
  "frames c = map (ref_frame (s_arena c)) (refs c)"

definition frames_size :: "frame list \<Rightarrow> nat" where
  "frames_size fs = sum_list (map (length \<circ> snd) fs)"

definition frame_fits :: "frame list \<Rightarrow> frame \<Rightarrow> bool" where
  "frame_fits fs f \<longleftrightarrow> length fs < CONFIG_CACHE_MAX_FRAMES \<and>
     frames_size fs + length (snd f) \<le> CONFIG_CACHE_ARENA_BYTES"

text \<open>Frames lie back to back from offset \<open>o\<close> to offset \<open>e\<close>.\<close>

fun packed :: "nat \<Rightarrow> cache_frame_ref list \<Rightarrow> nat \<Rightarrow> bool" where
  "packed b [] e \<longleftrightarrow> b = e"
| "packed b (r # rs) e \<longleftrightarrow> cf_offset r = b \<and> packed (b + cf_len r) rs e"

text \<open>The first index of a variant, and the last one, \<open>-1\<close> if there is none.\<close>

fun first_idx :: "fromradio_tag \<Rightarrow> nat \<Rightarrow> fromradio_tag list \<Rightarrow> int" where
  "first_idx v n [] = -1"
| "first_idx v n (t # ts) = (if t = v then int n else first_idx v (Suc n) ts)"

fun last_idx :: "fromradio_tag \<Rightarrow> nat \<Rightarrow> int \<Rightarrow> fromradio_tag list \<Rightarrow> int" where
  "last_idx v n a [] = a"
| "last_idx v n a (t # ts) = last_idx v (Suc n) (if t = v then int n else a) ts"

definition cache_inv :: "cache \<Rightarrow> bool" where
  "cache_inv c \<longleftrightarrow>
     length (s_arena c) = CONFIG_CACHE_ARENA_BYTES \<and>
     length (s_index c) = CONFIG_CACHE_MAX_FRAMES \<and>
     s_count c \<le> CONFIG_CACHE_MAX_FRAMES \<and> s_used c \<le> CONFIG_CACHE_ARENA_BYTES \<and>
     packed 0 (refs c) (s_used c) \<and>
     s_own_nodeinfo_idx c = first_idx FromRadio_node_info_tag 0 (map cf_variant (refs c)) \<and>
     s_queuestatus_idx c = last_idx FromRadio_queueStatus_tag 0 (-1) (map cf_variant (refs c))"

section \<open>Packing\<close>

lemma packed_snoc:
  "packed b (rs @ [r]) e \<longleftrightarrow> packed b rs (cf_offset r) \<and> e = cf_offset r + cf_len r"
  by (induction rs arbitrary: b) auto

lemma packed_end: "packed b rs e \<Longrightarrow> e = b + sum_list (map cf_len rs)"
proof (induction rs arbitrary: b)
  case Nil
  then show ?case by simp
next
  case (Cons r rs)
  then have "packed (b + cf_len r) rs e" by simp
  from Cons.IH [OF this] show ?case by simp
qed

lemma packed_bounds:
  "packed b rs e \<Longrightarrow> r \<in> set rs \<Longrightarrow> b \<le> cf_offset r \<and> cf_offset r + cf_len r \<le> e"
proof (induction rs arbitrary: b)
  case Nil
  then show ?case by simp
next
  case (Cons q rs)
  then show ?case using packed_end [of "b + cf_len q" rs e] by fastforce
qed

lemma first_idx_snoc:
  "first_idx v n (ts @ [t]) =
     (if 0 \<le> first_idx v n ts then first_idx v n ts
      else if t = v then int (n + length ts) else -1)"
  by (induction ts arbitrary: n) auto

lemma first_idx_range: "first_idx v n ts = -1 \<or> int n \<le> first_idx v n ts"
  by (induction v n ts rule: first_idx.induct) auto

lemma last_idx_snoc:
  "last_idx v n a (ts @ [t]) = (if t = v then int (n + length ts) else last_idx v n a ts)"
  by (induction ts arbitrary: n a) auto

lemma length_refs [simp]: "cache_inv c \<Longrightarrow> length (refs c) = s_count c"
  by (simp add: refs_def cache_inv_def)

lemma length_frames [simp]: "cache_inv c \<Longrightarrow> length (frames c) = s_count c"
  by (simp add: frames_def)

lemma refs_in_arena:
  assumes "cache_inv c" and "r \<in> set (refs c)"
  shows "cf_offset r + cf_len r \<le> s_used c \<and> s_used c \<le> length (s_arena c)"
  using assms packed_bounds [of 0 "refs c" "s_used c" r] by (auto simp: cache_inv_def)

lemma frames_size_used:
  assumes "cache_inv c"
  shows "frames_size (frames c) = s_used c"
proof -
  have "map (length \<circ> snd) (frames c) = map cf_len (refs c)"
  proof (simp add: frames_def ref_frame_def, intro ballI)
    fix r
    assume "r \<in> set (refs c)"
    then have "cf_offset r + cf_len r \<le> length (s_arena c)"
      using refs_in_arena [OF assms] by fastforce
    then show "length (bslice (cf_offset r) (cf_len r) (s_arena c)) = cf_len r" by simp
  qed
  moreover have "packed 0 (refs c) (s_used c)" using assms by (simp add: cache_inv_def)
  ultimately show ?thesis using packed_end [of 0 "refs c" "s_used c"] by (simp add: frames_size_def)
qed

section \<open>Appending a frame\<close>

lemma cache_add_refused:
  assumes "cache_inv c" and "\<not> frame_fits (frames c) (v, raw)"
  shows "cache_add_frame raw v c = (Err ENOMEM, c)"
  using assms by (auto simp: cache_add_frame_def frame_fits_def frames_size_used)

lemma cache_add_stored:
  assumes inv: "cache_inv c" and fits: "frame_fits (frames c) (v, raw)"
    and add: "cache_add_frame raw v c = (r, c')"
  shows "r = OK" and "s_used c' = s_used c + length raw" and "s_count c' = Suc (s_count c)"
    and "s_ready c' = s_ready c"
    and "s_arena c' = memcpy_at (s_arena c) (s_used c) raw"
    and "s_index c' = (s_index c)[s_count c := \<lparr>cf_offset = s_used c, cf_len = length raw, cf_variant = v\<rparr>]"
    and "s_queuestatus_idx c' = (if v = FromRadio_queueStatus_tag then int (s_count c) else s_queuestatus_idx c)"
    and "s_own_nodeinfo_idx c' =
      (if v = FromRadio_node_info_tag \<and> s_own_nodeinfo_idx c < 0 then int (s_count c) else s_own_nodeinfo_idx c)"
  using add fits inv
  by (auto simp: cache_add_frame_def frame_fits_def frames_size_used Let_def split: if_splits)

lemma refs_add:
  assumes "cache_inv c" and "frame_fits (frames c) (v, raw)"
    and "cache_add_frame raw v c = (r, c')"
  shows "refs c' = refs c @ [\<lparr>cf_offset = s_used c, cf_len = length raw, cf_variant = v\<rparr>]"
  using cache_add_stored [OF assms] assms by (simp add: refs_def cache_inv_def frame_fits_def)

lemma cache_add_frames:
  assumes "cache_inv c" and "frame_fits (frames c) (v, raw)"
    and "cache_add_frame raw v c = (r, c')"
  shows "frames c' = frames c @ [(v, raw)]"
proof -
  note st = cache_add_stored [OF assms]
  have room: "s_used c + length raw \<le> length (s_arena c)"
    using assms(1,2) frames_size_used [OF assms(1)] by (simp add: frame_fits_def cache_inv_def)
  have "ref_frame (s_arena c') q = ref_frame (s_arena c) q" if "q \<in> set (refs c)" for q
    using refs_in_arena [OF assms(1) that] room
    by (simp add: st(5) ref_frame_def bslice_memcpy_before)
  moreover have "ref_frame (s_arena c') \<lparr>cf_offset = s_used c, cf_len = length raw, cf_variant = v\<rparr> = (v, raw)"
    using room by (simp add: st(5) ref_frame_def bslice_memcpy_same)
  ultimately show ?thesis by (simp add: frames_def refs_add [OF assms])
qed

lemma cache_add_inv:
  assumes "cache_inv c"
  shows "cache_inv (snd (cache_add_frame raw v c))"
proof (cases "frame_fits (frames c) (v, raw)")
  case False
  then show ?thesis using cache_add_refused [OF assms] assms by simp
next
  case True
  obtain r c' where add: "cache_add_frame raw v c = (r, c')" by (cases "cache_add_frame raw v c")
  note st = cache_add_stored [OF assms True add]
  have "s_used c' \<le> CONFIG_CACHE_ARENA_BYTES" "s_count c' \<le> CONFIG_CACHE_MAX_FRAMES"
    using True assms frames_size_used [OF assms] by (simp_all add: st frame_fits_def)
  moreover have "length (s_arena c') = CONFIG_CACHE_ARENA_BYTES"
    using True assms frames_size_used [OF assms] by (simp add: st frame_fits_def cache_inv_def)
  moreover have "first_idx FromRadio_node_info_tag 0 (map cf_variant (refs c)) = -1 \<or>
      0 \<le> first_idx FromRadio_node_info_tag 0 (map cf_variant (refs c))"
    using first_idx_range [of FromRadio_node_info_tag 0] by auto
  ultimately have "cache_inv c'"
    using assms st refs_add [OF assms True add]
    by (auto simp: cache_inv_def packed_snoc first_idx_snoc last_idx_snoc refs_def)
  then show ?thesis by (simp add: add)
qed

text \<open>The cache is a bounded log of frames.\<close>

definition cache_add :: "frame \<Rightarrow> cache \<Rightarrow> rc \<times> cache" where
  "cache_add f c = cache_add_frame (snd f) (fst f) c"

interpretation cache_log: bounded_log cache_add frames cache_inv frame_fits
proof
  fix c :: cache and f :: frame
  assume inv: "cache_inv c"
  obtain v raw where f: "f = (v, raw)" by (cases f)
  obtain r c' where add: "cache_add_frame raw v c = (r, c')" by (cases "cache_add_frame raw v c")
  show "cache_inv (snd (cache_add f c))" using cache_add_inv [OF inv] by (simp add: cache_add_def)
  show "fst (cache_add f c) = OK \<and> frames (snd (cache_add f c)) = frames c @ [f]"
    if "frame_fits (frames c) f"
    using that cache_add_stored(1) [OF inv _ add] cache_add_frames [OF inv _ add]
    by (simp add: cache_add_def add f)
  show "fst (cache_add f c) \<noteq> OK \<and> frames (snd (cache_add f c)) = frames c"
    if "\<not> frame_fits (frames c) f"
    using that cache_add_refused [OF inv, of v raw] by (simp add: cache_add_def f)
qed

lemma cache_begin_inv:
  assumes "length (s_arena c) = CONFIG_CACHE_ARENA_BYTES" and "length (s_index c) = CONFIG_CACHE_MAX_FRAMES"
  shows "cache_inv (cache_begin c)" and "frames (cache_begin c) = []"
  using assms by (simp_all add: cache_inv_def cache_begin_def refs_def frames_def)

lemma cache_inv_sizes:
  "cache_inv c \<Longrightarrow> length (s_arena c) = CONFIG_CACHE_ARENA_BYTES \<and> length (s_index c) = CONFIG_CACHE_MAX_FRAMES"
  by (simp add: cache_inv_def)

lemma cache_static_inv: "cache_inv cache_static"
  by (simp add: cache_inv_def cache_static_def refs_def)

lemma cache_mark_ready_simps [simp]:
  "cache_inv (cache_mark_ready c) = cache_inv c" "frames (cache_mark_ready c) = frames c"
  "refs (cache_mark_ready c) = refs c"
  by (simp_all add: cache_mark_ready_def cache_inv_def frames_def refs_def)

text \<open>
  C25: appending refines the abstract log: a frame is stored at the end exactly when fewer than
  128 frames are stored and its bytes fit in the 4096-byte arena, otherwise the call reports
  \<open>-ENOMEM\<close> and changes nothing; the packing invariant, with every 16-bit cursor in range, is kept.
\<close>

theorem cache_add_frame_refines:
  assumes "cache_inv c" and "cache_add_frame raw v c = (r, c')"
  shows "cache_inv c' \<and>
    (if length (frames c) < 128 \<and> frames_size (frames c) + length raw \<le> 4096
     then r = OK \<and> frames c' = frames c @ [(v, raw)]
     else r = Err ENOMEM \<and> c' = c)"
proof -
  have "cache_inv c'" using cache_add_inv [OF assms(1), of raw v] assms(2) by simp
  moreover have "frame_fits (frames c) (v, raw) \<longleftrightarrow>
      length (frames c) < 128 \<and> frames_size (frames c) + length raw \<le> 4096"
    by (simp add: frame_fits_def layout_consts)
  ultimately show ?thesis
    using cache_add_refused [OF assms(1), of v raw] cache_add_stored(1) [OF assms(1) _ assms(2)]
      cache_add_frames [OF assms(1) _ assms(2)] assms(2) by (simp split: if_splits)
qed

lemma frames_static: "frames cache_static = []"
  by (simp add: frames_def refs_def cache_static_def)

theorem cache_add_frame_refines_witness:
  "frames (snd (cache_add_frame [1, 2, 3] FromRadio_config_tag cache_static)) =
     [(FromRadio_config_tag, [1, 2, 3])]"
proof -
  obtain r c' where add: "cache_add_frame [1, 2, 3] FromRadio_config_tag cache_static = (r, c')"
    by (cases "cache_add_frame [1, 2, 3] FromRadio_config_tag cache_static")
  show ?thesis
    using cache_add_frame_refines [OF cache_static_inv add] add
    by (simp add: frames_static frames_size_def)
qed

text \<open>A cache holding two frames, for the witnesses.\<close>

definition sample_cache :: cache where
  "sample_cache = offer_all cache_add
     [(FromRadio_my_info_tag, [3, 1]), (FromRadio_node_info_tag, [4])] cache_static"

lemma sample_cache_inv: "cache_inv sample_cache"
  unfolding sample_cache_def by (rule cache_log.offer_all_invar [OF cache_static_inv])

lemma frames_sample_cache:
  "frames sample_cache = [(FromRadio_my_info_tag, [3, 1]), (FromRadio_node_info_tag, [4])]"
  unfolding sample_cache_def
  by (simp only: cache_log.offer_all_contents [OF cache_static_inv] frames_static)
    (simp add: frame_fits_def frames_size_def layout_consts)

section \<open>Reading back\<close>

lemma nth_frames:
  assumes "cache_inv c" and "i < s_count c"
  shows "frames c ! i = ref_frame (s_arena c) (s_index c ! i)" and "s_index c ! i \<in> set (refs c)"
proof -
  have i: "i < length (refs c)" using assms by simp
  have "refs c ! i = s_index c ! i" using assms by (simp add: refs_def)
  then show "frames c ! i = ref_frame (s_arena c) (s_index c ! i)" using i by (simp add: frames_def)
  show "s_index c ! i \<in> set (refs c)" using nth_mem [OF i] \<open>refs c ! i = s_index c ! i\<close> by simp
qed

lemma variant_frames:
  "cache_inv c \<Longrightarrow> i < s_count c \<Longrightarrow> cf_variant (s_index c ! i) = fst (frames c ! i)"
  by (simp add: nth_frames ref_frame_def)

lemma frame_lookup:
  assumes "cache_inv c" and "i < s_count c"
  shows "cache_frame_at i c = Some (s_index c ! i)"
    and "take (cf_len (s_index c ! i)) (drop (cf_offset (s_index c ! i)) (s_arena c)) = snd (frames c ! i)"
    and "cf_len (s_index c ! i) = length (snd (frames c ! i))"
    and "cf_offset (s_index c ! i) + cf_len (s_index c ! i) \<le> length (s_arena c)"
proof -
  let ?r = "s_index c ! i"
  have room: "cf_offset ?r + cf_len ?r \<le> length (s_arena c)"
    using refs_in_arena [OF assms(1) nth_frames(2) [OF assms]] by linarith
  then show "cf_offset ?r + cf_len ?r \<le> length (s_arena c)" .
  show "cache_frame_at i c = Some ?r" using assms by (simp add: cache_frame_at_def)
  show "take (cf_len ?r) (drop (cf_offset ?r) (s_arena c)) = snd (frames c ! i)"
    using nth_frames(1) [OF assms] by (simp add: ref_frame_def bslice_def)
  then show "cf_len ?r = length (snd (frames c ! i))"
    using room by (metis length_bslice bslice_def)
qed

text \<open>
  a reader that resolves frame \<open>i\<close> through the index gets a reference inside the arena and
  exactly the bytes and the variant that were stored as the \<open>i\<close>-th frame; beyond the last frame
  it gets NULL.
\<close>

theorem cache_frame_read_back:
  assumes "cache_inv c"
  shows "(i < length (frames c) \<longrightarrow>
      (\<exists>ref p. cache_frame_at i c = Some ref \<and> cache_frame_bytes (Some ref) c = Some p \<and>
        cf_len ref \<le> length p \<and> (cf_variant ref, take (cf_len ref) p) = frames c ! i)) \<and>
    (length (frames c) \<le> i \<longrightarrow> cache_frame_at i c = None)"
proof (cases "i < s_count c")
  case True
  note lk = frame_lookup [OF assms True]
  have "cf_len (s_index c ! i) \<le> length (drop (cf_offset (s_index c ! i)) (s_arena c))"
    using lk(4) by simp
  moreover have "(cf_variant (s_index c ! i),
      take (cf_len (s_index c ! i)) (drop (cf_offset (s_index c ! i)) (s_arena c))) = frames c ! i"
    using lk(2) variant_frames [OF assms True] by (simp add: prod_eq_iff)
  ultimately show ?thesis using lk(1) True assms by (simp add: cache_frame_bytes_def)
next
  case False
  then show ?thesis using assms by (simp add: cache_frame_at_def)
qed

theorem cache_frame_read_back_witness:
  "\<exists>ref p. cache_frame_at 1 sample_cache = Some ref \<and> cache_frame_bytes (Some ref) sample_cache = Some p \<and>
     cf_variant ref = FromRadio_node_info_tag \<and> take (cf_len ref) p = [4]"
  using cache_frame_read_back [OF sample_cache_inv, of 1] by (auto simp: frames_sample_cache)

section \<open>Segments\<close>

definition in_segment_spec :: "frame list \<Rightarrow> u32 \<Rightarrow> nat \<Rightarrow> bool" where
  "in_segment_spec fs nonce i \<longleftrightarrow> i < length fs \<and> fst (fs ! i) \<noteq> FromRadio_config_complete_id_tag \<and>
     (nonce = 69421 \<longrightarrow> fst (fs ! i) = FromRadio_node_info_tag) \<and>
     (nonce = 69420 \<longrightarrow> fst (fs ! i) = FromRadio_node_info_tag \<longrightarrow>
        (\<forall>j < i. fst (fs ! j) \<noteq> FromRadio_node_info_tag))"

lemma first_idx_nth:
  assumes "i < length ts" and "ts ! i = v"
  shows "first_idx v n ts = int (n + i) \<longleftrightarrow> (\<forall>j < i. ts ! j \<noteq> v)"
  using assms
proof (induction ts arbitrary: n i)
  case Nil
  then show ?case by simp
next
  case (Cons t ts)
  show ?case
  proof (cases i)
    case 0
    with Cons.prems show ?thesis by simp
  next
    case (Suc k)
    with Cons.prems have "k < length ts" "ts ! k = v" by auto
    from Cons.IH [OF this, of "Suc n"] Suc show ?thesis by (auto simp: All_less_Suc2)
  qed
qed

lemma tags_of_refs: "map cf_variant (refs c) = map fst (frames c)"
  by (simp add: frames_def ref_frame_def)

lemma segment_iff:
  assumes "cache_inv c"
  shows "cache_frame_in_segment i nonce c \<longleftrightarrow> in_segment_spec (frames c) nonce i"
proof (cases "i < s_count c")
  case True
  have own: "s_own_nodeinfo_idx c = int i \<longleftrightarrow> (\<forall>j < i. fst (frames c ! j) \<noteq> FromRadio_node_info_tag)"
    if "fst (frames c ! i) = FromRadio_node_info_tag"
  proof -
    have "s_own_nodeinfo_idx c = first_idx FromRadio_node_info_tag 0 (map fst (frames c))"
      using assms by (simp add: cache_inv_def tags_of_refs)
    then show ?thesis
      using first_idx_nth [of i "map fst (frames c)" FromRadio_node_info_tag 0] that True assms by simp
  qed
  show ?thesis
    using True own assms
    by (auto simp: cache_frame_in_segment_def in_segment_spec_def variant_frames Let_def
        MESH_NONCE_ONLY_CONFIG_def MESH_NONCE_ONLY_NODES_def)
next
  case False
  then show ?thesis using assms by (simp add: cache_frame_in_segment_def in_segment_spec_def)
qed

text \<open>
  the segment test the replay asks for each cached frame is the documented one: never the
  closing frame; for nonce 69421 the node_info frames only; for nonce 69420 every frame but the
  node_info frames after the first; for any other nonce every frame.
\<close>

theorem cache_frame_in_segment_spec:
  assumes "cache_inv c"
  shows "cache_frame_in_segment i nonce c \<longleftrightarrow> in_segment_spec (frames c) nonce i"
  by (rule segment_iff [OF assms])

theorem cache_frame_in_segment_spec_witness:
  "cache_frame_in_segment 1 69421 sample_cache \<and> \<not> cache_frame_in_segment 0 69421 sample_cache"
  using cache_frame_in_segment_spec [OF sample_cache_inv, of 1 69421]
    cache_frame_in_segment_spec [OF sample_cache_inv, of 0 69421]
  by (simp add: in_segment_spec_def frames_sample_cache)

section \<open>The queueStatus shortcut\<close>

lemma last_idx_absent: "v \<notin> set ts \<Longrightarrow> last_idx v n a ts = a"
  by (induction ts arbitrary: n a) auto

lemma last_idx_last: "v \<notin> set ys \<Longrightarrow> last_idx v n a (xs @ v # ys) = int (n + length xs)"
  by (induction xs arbitrary: n a) (auto simp: last_idx_absent)

text \<open>
  the queueStatus shortcut returns the last queueStatus frame of the burst, and nothing
  when the burst had none.
\<close>

theorem cache_get_queuestatus_last:
  assumes "cache_inv c"
  shows "(FromRadio_queueStatus_tag \<notin> fst ` set (frames c) \<longrightarrow> cache_get_queuestatus c = None) \<and>
    (\<forall>xs b ys. frames c = xs @ (FromRadio_queueStatus_tag, b) # ys \<longrightarrow>
       FromRadio_queueStatus_tag \<notin> fst ` set ys \<longrightarrow>
       (\<exists>p. cache_get_queuestatus c = Some (p, length b) \<and> take (length b) p = b))"
proof (intro conjI impI allI)
  have idx: "s_queuestatus_idx c = last_idx FromRadio_queueStatus_tag 0 (-1) (map fst (frames c))"
    using assms by (simp add: cache_inv_def tags_of_refs)
  show "cache_get_queuestatus c = None" if "FromRadio_queueStatus_tag \<notin> fst ` set (frames c)"
    using that by (simp add: cache_get_queuestatus_def idx last_idx_absent)
  fix xs b ys
  assume fs: "frames c = xs @ (FromRadio_queueStatus_tag, b) # ys"
    and last: "FromRadio_queueStatus_tag \<notin> fst ` set ys"
  have i: "s_queuestatus_idx c = int (length xs)"
    using last last_idx_last [of FromRadio_queueStatus_tag "map fst ys" 0 "-1" "map fst xs"]
    by (simp add: idx fs)
  have "length (frames c) = s_count c" using assms by simp
  then have n: "length xs < s_count c" by (simp add: fs)
  have "frames c ! length xs = (FromRadio_queueStatus_tag, b)" by (simp add: fs)
  then show "\<exists>p. cache_get_queuestatus c = Some (p, length b) \<and> take (length b) p = b"
    using frame_lookup(2,3) [OF assms n] by (simp add: cache_get_queuestatus_def i Let_def)
qed

theorem cache_get_queuestatus_last_witness: "cache_get_queuestatus sample_cache = None"
  using cache_get_queuestatus_last [OF sample_cache_inv] by (simp add: frames_sample_cache)

section \<open>A whole burst\<close>

text \<open>
  caching a burst from a fresh start keeps the frames in burst order: the frames stored are
  those that still fitted when they arrived, and a burst of at most 128 frames and 4096 bytes is
  stored completely.
\<close>

theorem cache_stores_burst:
  assumes "cache_inv c"
  shows "frames (offer_all cache_add fs (cache_begin c)) = accepted frame_fits [] fs \<and>
    (length fs \<le> 128 \<and> frames_size fs \<le> 4096 \<longrightarrow>
      frames (offer_all cache_add fs (cache_begin c)) = fs)"
proof -
  have inv: "cache_inv (cache_begin c)" and none: "frames (cache_begin c) = []"
    using cache_begin_inv cache_inv_sizes [OF assms] by auto
  have "frames (offer_all cache_add fs (cache_begin c)) = fs" if "length fs \<le> 128" "frames_size fs \<le> 4096"
  proof -
    have "frame_fits (frames (cache_begin c) @ ys) f" if "fs = ys @ f # zs" for ys f zs
      using that \<open>length fs \<le> 128\<close> \<open>frames_size fs \<le> 4096\<close>
      by (simp add: none frame_fits_def frames_size_def layout_consts)
    from cache_log.offer_all_ok [OF inv this] show ?thesis by (simp add: none)
  qed
  then show ?thesis using cache_log.offer_all_contents [OF inv] by (simp add: none)
qed

theorem cache_stores_burst_witness:
  "frames (offer_all cache_add [(FromRadio_my_info_tag, [1]), (FromRadio_config_tag, [2, 3])]
     (cache_begin cache_static)) = [(FromRadio_my_info_tag, [1]), (FromRadio_config_tag, [2, 3])]"
  using cache_stores_burst [OF cache_static_inv,
      of "[(FromRadio_my_info_tag, [1]), (FromRadio_config_tag, [2, 3])]", THEN conjunct2]
  by (simp add: frames_size_def del: offer_all.simps accepted.simps)

end
