(* ===== verification/Uart_Meshtastic.thy ===== *)
theory Uart_Meshtastic
  imports Interfaces
begin

text \<open>
  The UART driver of \<^verbatim>\<open>src/src/uart_meshtastic.c\<close>: the framing state machine of the
  receive path with its ring and its stall watchdog, the transmit queue, and the driver events.

  Zephyr objects are state: the k_msgq is the list of queued payloads (a queue entry is its
  first \<open>len\<close> bytes), the ring buffer the bytes stored, a submitted work item a flag, a
  delayable work item its scheduled delay in milliseconds. What the hardware answers
  (\<open>uart_tx\<close>, \<open>uart_rx_enable\<close>, device readiness) is an argument. \<open>tx_wire\<close> records the
  buffers handed to \<open>uart_tx\<close>, in order.
\<close>

section \<open>State\<close>

definition MESHTASTIC_MAX_PAYLOAD :: nat where "MESHTASTIC_MAX_PAYLOAD = 512"
definition MESHTASTIC_MAGIC1 :: u8 where "MESHTASTIC_MAGIC1 = 0x94"
definition MESHTASTIC_MAGIC2 :: u8 where "MESHTASTIC_MAGIC2 = 0xC3"
definition RING_BUF_SIZE :: nat where "RING_BUF_SIZE = 2048"
definition TX_QUEUE_DEPTH :: nat where "TX_QUEUE_DEPTH = 4"
definition RX_RESYNC_TIMEOUT_MS :: nat where "RX_RESYNC_TIMEOUT_MS = 250"
definition LED_BLINK_PERIOD_MS :: nat where "LED_BLINK_PERIOD_MS = 120"
definition UART_BITS_PER_BYTE :: nat where "UART_BITS_PER_BYTE = 10"
definition UART_BAUD :: nat where "UART_BAUD = 115200"
definition UART_US_PER_BYTE :: nat where "UART_US_PER_BYTE = UART_BITS_PER_BYTE * 1000000 div UART_BAUD"
definition TX_TIMEOUT_US :: nat where "TX_TIMEOUT_US = (MESHTASTIC_MAX_PAYLOAD + 4) * UART_US_PER_BYTE * 2"

lemmas uart_layout [layout_consts] = MESHTASTIC_MAX_PAYLOAD_def RING_BUF_SIZE_def TX_QUEUE_DEPTH_def

datatype rx_state = RX_WAIT_MAGIC1 | RX_WAIT_MAGIC2 | RX_WAIT_LEN_HI | RX_WAIT_LEN_LO | RX_WAIT_PAYLOAD

record rx_machine =
  rx_st :: rx_state
  expected_len :: u16
  received_len :: u16
  rx_payload :: "u8 list"

record uart =
  tx_msgq :: "u8 list list"
  tx_frame_buf :: "u8 list"
  tx_in_progress :: bool
  tx_work_pending :: bool
  tx_wire :: "u8 list list"
  active_buf :: u8
  rx_ring_buf :: "u8 list"
  rx_overrun_bytes :: u32
  rx_work_pending :: bool
  rx_sm :: rx_machine
  rx_resync_dwork :: "nat option"
  rx_enabled :: bool
  uart_rx_active :: bool
  uart_tx_active :: bool
  led_uart_rx :: bool
  led_uart_tx :: bool
  uart_led_dwork :: "nat option"

definition uart_static :: uart where
  "uart_static = \<lparr>tx_msgq = [], tx_frame_buf = replicate (MESHTASTIC_MAX_PAYLOAD + 4) 0,
     tx_in_progress = False, tx_work_pending = False, tx_wire = [], active_buf = 0,
     rx_ring_buf = [], rx_overrun_bytes = 0, rx_work_pending = False,
     rx_sm = \<lparr>rx_st = RX_WAIT_MAGIC1, expected_len = 0, received_len = 0,
              rx_payload = replicate MESHTASTIC_MAX_PAYLOAD 0\<rparr>,
     rx_resync_dwork = None, rx_enabled = False, uart_rx_active = False, uart_tx_active = False,
     led_uart_rx = False, led_uart_tx = False, uart_led_dwork = None\<rparr>"

section \<open>Receive path\<close>

text \<open>
  One byte through the framing machine. The first component is the payload handed to the
  callback, if the byte completes a frame.
\<close>

definition rx_process_byte :: "u8 \<Rightarrow> rx_machine \<Rightarrow> u8 list option \<times> rx_machine" where
  "rx_process_byte byte sm =
     (case rx_st sm of
        RX_WAIT_MAGIC1 \<Rightarrow>
          if byte = MESHTASTIC_MAGIC1 then (None, sm\<lparr>rx_st := RX_WAIT_MAGIC2\<rparr>) else (None, sm)
      | RX_WAIT_MAGIC2 \<Rightarrow>
          if byte = MESHTASTIC_MAGIC2 then (None, sm\<lparr>rx_st := RX_WAIT_LEN_HI\<rparr>)
          else (None, sm\<lparr>rx_st := (if byte = MESHTASTIC_MAGIC1 then RX_WAIT_MAGIC2 else RX_WAIT_MAGIC1)\<rparr>)
      | RX_WAIT_LEN_HI \<Rightarrow>
          (None, sm\<lparr>expected_len := push_bit 8 (ucast byte), rx_st := RX_WAIT_LEN_LO\<rparr>)
      | RX_WAIT_LEN_LO \<Rightarrow>
          let sm = sm\<lparr>expected_len := or (expected_len sm) (ucast byte)\<rparr> in
          if expected_len sm = 0 \<or> unat (expected_len sm) > MESHTASTIC_MAX_PAYLOAD
          then (None, sm\<lparr>rx_st := RX_WAIT_MAGIC1\<rparr>)
          else (None, sm\<lparr>received_len := 0, rx_st := RX_WAIT_PAYLOAD\<rparr>)
      | RX_WAIT_PAYLOAD \<Rightarrow>
          let sm = sm\<lparr>rx_payload := (rx_payload sm)[unat (received_len sm) := byte],
                      received_len := received_len sm + 1\<rparr> in
          if received_len sm = expected_len sm
          then (Some (take (unat (received_len sm)) (rx_payload sm)), sm\<lparr>rx_st := RX_WAIT_MAGIC1\<rparr>)
          else (None, sm))"

definition rx_resync_handler :: "uart \<Rightarrow> uart" where
  "rx_resync_handler u =
     (if rx_st (rx_sm u) \<noteq> RX_WAIT_MAGIC1
      then u\<lparr>rx_sm := (rx_sm u)\<lparr>rx_st := RX_WAIT_MAGIC1, received_len := 0, expected_len := 0\<rparr>\<rparr>
      else u)"

text \<open>
  The drain loop of the receive work item over the bytes in the ring: take one byte, feed it to
  the machine, call the registered callback on a completed frame. The callback acts on the
  driver and on the rest of the firmware, \<open>'w\<close>.
\<close>

fun rx_drain :: "(u8 list \<Rightarrow> uart \<times> 'w \<Rightarrow> uart \<times> 'w) option \<Rightarrow> u8 list \<Rightarrow> uart \<times> 'w \<Rightarrow> uart \<times> 'w" where
  "rx_drain cb [] s = s"
| "rx_drain cb (byte # bs) (u, w) =
     (let (frame, sm) = rx_process_byte byte (rx_sm u);
          u = u\<lparr>rx_ring_buf := tl (rx_ring_buf u), rx_sm := sm\<rparr>
      in rx_drain cb bs
           (case frame of
              None \<Rightarrow> (u, w)
            | Some p \<Rightarrow> (case cb of None \<Rightarrow> (u, w) | Some f \<Rightarrow> f p (u, w))))"

definition rx_work_handler ::
  "(u8 list \<Rightarrow> uart \<times> 'w \<Rightarrow> uart \<times> 'w) option \<Rightarrow> uart \<times> 'w \<Rightarrow> uart \<times> 'w" where
  "rx_work_handler cb s =
     (let (u, w) = rx_drain cb (rx_ring_buf (fst s)) s;
          u = (if rx_st (rx_sm u) \<noteq> RX_WAIT_MAGIC1
               then u\<lparr>rx_resync_dwork := Some RX_RESYNC_TIMEOUT_MS\<rparr>
               else u\<lparr>rx_resync_dwork := None\<rparr>)
      in (u\<lparr>rx_overrun_bytes := 0\<rparr>, w))"

section \<open>Transmit path\<close>

definition uart_meshtastic_tx :: "u8 list \<Rightarrow> uart \<Rightarrow> rc \<times> uart" where
  "uart_meshtastic_tx payload u =
     (if length payload > MESHTASTIC_MAX_PAYLOAD then (Err EMSGSIZE, u)
      else if length (tx_msgq u) \<ge> TX_QUEUE_DEPTH then (Err ENOMEM, u)
      else (OK, u\<lparr>tx_msgq := tx_msgq u @ [payload], tx_work_pending := True\<rparr>))"

text \<open>The non-blocking \<open>k_msgq_get\<close>.\<close>

definition tx_dequeue :: "uart \<Rightarrow> (u8 list \<times> uart) option" where
  "tx_dequeue u = (case tx_msgq u of [] \<Rightarrow> None | e # q \<Rightarrow> Some (e, u\<lparr>tx_msgq := q\<rparr>))"

definition build_tx_frame :: "u8 list \<Rightarrow> u8 list \<Rightarrow> u8 list" where
  "build_tx_frame buf entry =
     (let len = (of_nat (length entry) :: u16);
          buf = buf[0 := MESHTASTIC_MAGIC1];
          buf = buf[1 := MESHTASTIC_MAGIC2];
          buf = buf[2 := ucast (drop_bit 8 len)];
          buf = buf[3 := ucast (and len 0xFF)]
      in memcpy_at buf 4 entry)"

text \<open>\<open>err\<close> is what \<open>uart_tx\<close> returns.\<close>

definition tx_work_handler :: "rc \<Rightarrow> uart \<Rightarrow> uart" where
  "tx_work_handler err u =
     (if tx_in_progress u then u
      else case tx_dequeue u of
          None \<Rightarrow> u
        | Some (entry, u) \<Rightarrow>
            let u = u\<lparr>tx_frame_buf := build_tx_frame (tx_frame_buf u) entry, tx_in_progress := True\<rparr> in
            if err \<noteq> OK then u\<lparr>tx_in_progress := False, tx_work_pending := True\<rparr>
            else u\<lparr>tx_wire := tx_wire u @ [take (length entry + 4) (tx_frame_buf u)]\<rparr>)"

section \<open>Driver events\<close>

datatype uart_event =
    UART_RX_RDY "u8 list"
  | UART_RX_BUF_REQUEST
  | UART_RX_BUF_RELEASED
  | UART_RX_STOPPED
  | UART_RX_DISABLED
  | UART_TX_DONE
  | UART_TX_ABORTED
  | UART_EVENT_OTHER

definition ring_buf_put :: "u8 list \<Rightarrow> u8 list \<Rightarrow> nat \<times> u8 list" where
  "ring_buf_put ring d =
     (let put = min (length d) (RING_BUF_SIZE - length ring) in (put, ring @ take put d))"

text \<open>\<open>rerr\<close> is what \<open>uart_rx_enable\<close> returns when reception is re-armed.\<close>

fun uart_cb :: "rc \<Rightarrow> uart_event \<Rightarrow> uart \<Rightarrow> uart" where
  "uart_cb rerr (UART_RX_RDY d) u =
     (let (put, ring) = ring_buf_put (rx_ring_buf u) d;
          u = u\<lparr>rx_ring_buf := ring\<rparr>;
          u = (if put < length d then u\<lparr>rx_overrun_bytes := rx_overrun_bytes u + of_nat (length d - put)\<rparr> else u)
      in u\<lparr>uart_rx_active := True, rx_work_pending := True\<rparr>)"
| "uart_cb rerr UART_RX_BUF_REQUEST u = u\<lparr>active_buf := xor (active_buf u) 1\<rparr>"
| "uart_cb rerr UART_RX_BUF_RELEASED u = u"
| "uart_cb rerr UART_RX_STOPPED u = u"
| "uart_cb rerr UART_RX_DISABLED u =
     u\<lparr>active_buf := 0, rx_enabled := (rerr = OK), rx_sm := (rx_sm u)\<lparr>rx_st := RX_WAIT_MAGIC1\<rparr>\<rparr>"
| "uart_cb rerr UART_TX_DONE u = u\<lparr>tx_in_progress := False, uart_tx_active := True, tx_work_pending := True\<rparr>"
| "uart_cb rerr UART_TX_ABORTED u = u\<lparr>tx_in_progress := False, tx_work_pending := True\<rparr>"
| "uart_cb rerr UART_EVENT_OTHER u = u"

text \<open>
  Initialisation, with the answers of the platform as arguments: whether both LEDs and the
  device are ready, and the results of setting the callback and of enabling reception.
\<close>

definition uart_meshtastic_init :: "bool \<Rightarrow> bool \<Rightarrow> rc \<Rightarrow> rc \<Rightarrow> uart \<Rightarrow> rc \<times> uart" where
  "uart_meshtastic_init leds_ready dev_ready cb_err rx_err u =
     (let u = u\<lparr>rx_sm := (rx_sm u)\<lparr>rx_st := RX_WAIT_MAGIC1\<rparr>, tx_in_progress := False\<rparr>;
          u = (if leds_ready
               then u\<lparr>led_uart_rx := False, led_uart_tx := False,
                      uart_led_dwork := Some LED_BLINK_PERIOD_MS\<rparr>
               else u)
      in if \<not> dev_ready then (Err ENODEV, u)
         else if cb_err \<noteq> OK then (cb_err, u)
         else let u = u\<lparr>active_buf := 0\<rparr> in
           if rx_err \<noteq> OK then (rx_err, u) else (OK, u\<lparr>rx_enabled := True\<rparr>))"

definition uart_led_blink_work :: "uart \<Rightarrow> uart" where
  "uart_led_blink_work u =
     (let (ra, rp) = led_blink_tick (led_uart_rx u) (uart_rx_active u);
          (ta, tp) = led_blink_tick (led_uart_tx u) (uart_tx_active u)
      in u\<lparr>uart_rx_active := ra, led_uart_rx := rp, uart_tx_active := ta, led_uart_tx := tp,
           uart_led_dwork := Some LED_BLINK_PERIOD_MS\<rparr>)"

section \<open>Framing: what the receive machine accepts\<close>

text \<open>The machine over a sequence of bytes: the frames delivered and the final state.\<close>

fun rx_run :: "u8 list \<Rightarrow> rx_machine \<Rightarrow> u8 list list \<times> rx_machine" where
  "rx_run [] sm = ([], sm)"
| "rx_run (b # bs) sm =
     (let (f, sm1) = rx_process_byte b sm; (fs, sm2) = rx_run bs sm1
      in (case f of None \<Rightarrow> fs | Some p \<Rightarrow> p # fs, sm2))"

definition rx_inv :: "rx_machine \<Rightarrow> bool" where
  "rx_inv sm \<longleftrightarrow> length (rx_payload sm) = MESHTASTIC_MAX_PAYLOAD \<and>
     (rx_st sm = RX_WAIT_PAYLOAD \<longrightarrow>
        unat (received_len sm) < unat (expected_len sm) \<and>
        unat (expected_len sm) \<le> MESHTASTIC_MAX_PAYLOAD)"

definition mesh_frame :: "u8 list \<Rightarrow> u8 list" where
  "mesh_frame p = [MESHTASTIC_MAGIC1, MESHTASTIC_MAGIC2, ucast (drop_bit 8 (of_nat (length p) :: u16)),
     ucast (and (of_nat (length p) :: u16) 0xFF)] @ p"

lemma rx_run_append:
  "rx_run (xs @ ys) sm =
     (let (fs, sm1) = rx_run xs sm; (gs, sm2) = rx_run ys sm1 in (fs @ gs, sm2))"
  by (induction xs arbitrary: sm) (auto simp: Let_def split: prod.splits option.splits)

lemma u16_bytes:
  "or (push_bit 8 (ucast (ucast (drop_bit 8 len) :: u8))) (ucast (ucast (and len 0xFF) :: u8)) = (len :: u16)"
proof -
  have m: "(0xFF :: u16) = mask 8" by (simp add: mask_eq_exp_minus_1)
  show ?thesis unfolding m by (rule bit_word_eqI) (auto simp: bit_simps)
qed

lemma unat_u16_Suc:
  assumes "unat (w :: u16) < 512"
  shows "unat (w + 1) = Suc (unat w)"
  using assms by (simp add: unat_word_ariths)

lemma rx_payload_step:
  assumes "rx_inv sm" and "rx_st sm = RX_WAIT_PAYLOAD"
  shows "unat (received_len sm) < length (rx_payload sm)"
    and "unat (received_len sm + 1) = Suc (unat (received_len sm))"
    and "received_len sm + 1 \<noteq> expected_len sm \<Longrightarrow> Suc (unat (received_len sm)) < unat (expected_len sm)"
proof -
  have r: "unat (received_len sm) < unat (expected_len sm)" "unat (expected_len sm) \<le> 512"
    and l: "length (rx_payload sm) = 512"
    using assms by (auto simp: rx_inv_def layout_consts)
  show "unat (received_len sm) < length (rx_payload sm)" using r l by linarith
  show n: "unat (received_len sm + 1) = Suc (unat (received_len sm))"
    using r by (intro unat_u16_Suc) linarith
  show "received_len sm + 1 \<noteq> expected_len sm \<Longrightarrow> Suc (unat (received_len sm)) < unat (expected_len sm)"
    using r(1) n by (metis Suc_lessI word_unat_eq_iff)
qed

lemma rx_process_byte_inv: "rx_inv sm \<Longrightarrow> rx_inv (snd (rx_process_byte b sm))"
proof (cases "rx_st sm")
  case RX_WAIT_PAYLOAD
  assume inv: "rx_inv sm"
  from rx_payload_step [OF inv RX_WAIT_PAYLOAD] show "rx_inv (snd (rx_process_byte b sm))"
    using inv RX_WAIT_PAYLOAD by (auto simp: rx_process_byte_def rx_inv_def Let_def)
qed (auto simp: rx_process_byte_def rx_inv_def Let_def word_unat_eq_iff)

lemma rx_frame_bounds:
  assumes "rx_inv sm" and "rx_process_byte b sm = (Some p, sm')"
  shows "1 \<le> length p" and "length p \<le> 512"
proof -
  have st: "rx_st sm = RX_WAIT_PAYLOAD"
    using assms(2) by (cases "rx_st sm") (auto simp: rx_process_byte_def Let_def split: if_splits)
  have "length (rx_payload sm) = 512" using assms(1) by (simp add: rx_inv_def layout_consts)
  with rx_payload_step [OF assms(1) st] assms st show "1 \<le> length p" "length p \<le> 512"
    by (auto simp: rx_process_byte_def Let_def split: if_splits)
qed

text \<open>
  no byte sequence can make the receive machine write outside its 512-byte payload buffer:
  from a state that satisfies the invariant every byte leads to one that does, a payload byte is
  stored at an index inside the buffer, and a delivered frame has between 1 and 512 bytes.
\<close>

theorem rx_process_byte_safe:
  assumes "rx_inv sm" and "rx_process_byte b sm = (f, sm')"
  shows "rx_inv sm' \<and>
    (rx_st sm = RX_WAIT_PAYLOAD \<longrightarrow> unat (received_len sm) < length (rx_payload sm)) \<and>
    (case f of None \<Rightarrow> True | Some p \<Rightarrow> 1 \<le> length p \<and> length p \<le> 512 \<and> rx_st sm' = RX_WAIT_MAGIC1)"
proof (cases "rx_st sm")
  case RX_WAIT_PAYLOAD
  note st = rx_payload_step [OF assms(1) RX_WAIT_PAYLOAD]
  have "length (rx_payload sm) = 512" using assms(1) by (simp add: rx_inv_def layout_consts)
  then show ?thesis
    using assms rx_process_byte_inv [of sm b] st RX_WAIT_PAYLOAD
    by (auto simp: rx_process_byte_def Let_def split: if_splits)
qed (use assms rx_process_byte_inv [of sm b] in
    \<open>auto simp: rx_process_byte_def Let_def split: if_splits\<close>)

theorem rx_process_byte_safe_witness:
  "rx_inv (snd (rx_process_byte 0x94 (rx_sm uart_static)))"
proof -
  have inv: "rx_inv (rx_sm uart_static)" by (simp add: rx_inv_def uart_static_def)
  obtain f sm where step: "rx_process_byte 0x94 (rx_sm uart_static) = (f, sm)"
    by (cases "rx_process_byte 0x94 (rx_sm uart_static)")
  show ?thesis using rx_process_byte_safe [OF inv step] step by simp
qed

lemma snd_rx_run_Cons:
  "snd (rx_run (b # bs) sm) = snd (rx_run bs (snd (rx_process_byte b sm)))"
  by (simp add: Let_def split_beta)

lemma rx_run_inv: "rx_inv sm \<Longrightarrow> rx_inv (snd (rx_run bs sm))"
proof (induction bs arbitrary: sm)
  case Nil
  then show ?case by simp
next
  case (Cons b bs)
  show ?case
    using Cons.IH [OF rx_process_byte_inv [OF Cons.prems, of b]]
    by (simp add: snd_rx_run_Cons del: rx_run.simps)
qed

text \<open>From the payload state, the missing bytes complete the frame.\<close>

lemma rx_run_payload:
  assumes "rx_st sm = RX_WAIT_PAYLOAD" and "length (rx_payload sm) = 512"
    and "unat (expected_len sm) \<le> 512" and "bs \<noteq> []"
    and "unat (received_len sm) + length bs = unat (expected_len sm)"
  shows "\<exists>sm'. rx_run bs sm = ([take (unat (received_len sm)) (rx_payload sm) @ bs], sm') \<and>
    rx_st sm' = RX_WAIT_MAGIC1 \<and> length (rx_payload sm') = 512"
  using assms
proof (induction bs arbitrary: sm)
  case Nil
  then show ?case by simp
next
  case (Cons b bs)
  let ?k = "unat (received_len sm)"
  have k: "?k < 512" using Cons.prems by simp
  have Suc: "unat (received_len sm + 1) = Suc ?k" by (rule unat_u16_Suc [OF k])
  let ?sm = "sm\<lparr>rx_payload := (rx_payload sm)[?k := b], received_len := received_len sm + 1\<rparr>"
  have buf: "take (Suc ?k) ((rx_payload sm)[?k := b]) = take ?k (rx_payload sm) @ [b]"
    using k Cons.prems(2) by simp
  show ?case
  proof (cases "bs = []")
    case True
    then have "received_len sm + 1 = expected_len sm"
      using Cons.prems(5) Suc by (simp add: word_unat_eq_iff)
    then show ?thesis
      using Cons.prems(1,2) True Suc buf by (auto simp: rx_process_byte_def Let_def)
  next
    case False
    then have "received_len sm + 1 \<noteq> expected_len sm"
      using Cons.prems(5) Suc by (cases bs) (auto simp: word_unat_eq_iff)
    then have step: "rx_process_byte b sm = (None, ?sm)"
      using Cons.prems(1) by (simp add: rx_process_byte_def Let_def)
    have "\<exists>sm'. rx_run bs ?sm = ([take (unat (received_len ?sm)) (rx_payload ?sm) @ bs], sm') \<and>
        rx_st sm' = RX_WAIT_MAGIC1 \<and> length (rx_payload sm') = 512"
      by (rule Cons.IH) (use Cons.prems False Suc in simp_all)
    then show ?thesis using step Suc buf by auto
  qed
qed

lemma rx_run_frame:
  assumes "rx_st sm = RX_WAIT_MAGIC1" and "length (rx_payload sm) = 512"
    and "0 < length p" and "length p \<le> 512"
  shows "\<exists>sm'. rx_run (mesh_frame p) sm = ([p], sm') \<and> rx_st sm' = RX_WAIT_MAGIC1 \<and>
    length (rx_payload sm') = 512"
proof -
  let ?len = "of_nat (length p) :: u16"
  let ?sm = "sm\<lparr>expected_len := ?len, received_len := 0, rx_st := RX_WAIT_PAYLOAD\<rparr>"
  have len: "unat ?len = length p" using assms(4) by (simp add: unat_of_nat)
  then have nz: "?len \<noteq> 0" using assms(3) by auto
  have hdr: "rx_run (mesh_frame p) sm = rx_run p ?sm"
    using assms(1,4) len nz
    by (simp add: mesh_frame_def rx_process_byte_def MESHTASTIC_MAGIC1_def MESHTASTIC_MAGIC2_def
        layout_consts Let_def u16_bytes split: prod.splits)
  have "\<exists>sm'. rx_run p ?sm = ([take (unat (received_len ?sm)) (rx_payload ?sm) @ p], sm') \<and>
      rx_st sm' = RX_WAIT_MAGIC1 \<and> length (rx_payload sm') = 512"
    by (rule rx_run_payload) (use assms len in simp_all)
  then show ?thesis using hdr by simp
qed

lemma rx_run_noise:
  assumes "rx_st sm = RX_WAIT_MAGIC1" and "MESHTASTIC_MAGIC1 \<notin> set g"
  shows "rx_run g sm = ([], sm)"
  using assms by (induction g) (auto simp: rx_process_byte_def)

lemma rx_run_stream:
  assumes "rx_inv sm" and "rx_st sm = RX_WAIT_MAGIC1"
    and "\<forall>(g, p) \<in> set xs. MESHTASTIC_MAGIC1 \<notin> set g \<and> 1 \<le> length p \<and> length p \<le> 512"
  shows "fst (rx_run (concat (map (\<lambda>(g, p). g @ mesh_frame p) xs)) sm) = map snd xs \<and>
    rx_st (snd (rx_run (concat (map (\<lambda>(g, p). g @ mesh_frame p) xs)) sm)) = RX_WAIT_MAGIC1"
proof -
  have "length (rx_payload sm) = 512" using assms(1) by (simp add: rx_inv_def layout_consts)
  with assms(2,3) show ?thesis
  proof (induction xs arbitrary: sm)
    case Nil
    then show ?case by simp
  next
    case (Cons x xs)
    obtain g p where x: "x = (g, p)" by (cases x)
    have "0 < length p" "length p \<le> 512" and g: "MESHTASTIC_MAGIC1 \<notin> set g"
      using Cons.prems(2) x by auto
    then obtain sm' where fr: "rx_run (mesh_frame p) sm = ([p], sm')"
      and sm': "rx_st sm' = RX_WAIT_MAGIC1" "length (rx_payload sm') = 512"
      using rx_run_frame [OF Cons.prems(1,3)] by blast
    have rest: "\<forall>(g, p) \<in> set xs. MESHTASTIC_MAGIC1 \<notin> set g \<and> 1 \<le> length p \<and> length p \<le> 512"
      using Cons.prems(2) by simp
    have "rx_run (g @ mesh_frame p) sm = ([p], sm')"
      by (simp add: rx_run_append rx_run_noise [OF Cons.prems(1) g] fr)
    then show ?case
      using Cons.IH [OF sm'(1) rest sm'(2)] by (simp add: x rx_run_append split_beta Let_def)
  qed
qed

text \<open>
  a well-framed stream is delivered exactly: from a frame boundary, frames of 1 to 512
  bytes, each preceded by any noise without the first magic byte, produce exactly their payloads,
  in order, and the machine is at a frame boundary again.
\<close>

theorem rx_stream_delivered:
  assumes "rx_inv sm" and "rx_st sm = RX_WAIT_MAGIC1"
    and "\<forall>(g, p) \<in> set xs. MESHTASTIC_MAGIC1 \<notin> set g \<and> 1 \<le> length p \<and> length p \<le> 512"
  shows "fst (rx_run (concat (map (\<lambda>(g, p). g @ mesh_frame p) xs)) sm) = map snd xs \<and>
    rx_st (snd (rx_run (concat (map (\<lambda>(g, p). g @ mesh_frame p) xs)) sm)) = RX_WAIT_MAGIC1"
  by (rule rx_run_stream [OF assms])

theorem rx_stream_delivered_witness:
  "fst (rx_run ([1, 2] @ mesh_frame [7, 8, 9] @ mesh_frame [5]) (rx_sm uart_static)) = [[7, 8, 9], [5]]"
proof -
  have "rx_inv (rx_sm uart_static)" "rx_st (rx_sm uart_static) = RX_WAIT_MAGIC1"
    by (simp_all add: rx_inv_def uart_static_def)
  from rx_stream_delivered [OF this, of "[([1, 2], [7, 8, 9]), ([], [5])]"] show ?thesis
    by (simp add: MESHTASTIC_MAGIC1_def del: rx_run.simps)
qed

section \<open>The stall watchdog\<close>

lemma rx_resync_boundary:
  assumes "rx_inv (rx_sm u)"
  shows "rx_inv (rx_sm (rx_resync_handler u))" and "rx_st (rx_sm (rx_resync_handler u)) = RX_WAIT_MAGIC1"
  using assms by (auto simp: rx_resync_handler_def rx_inv_def)

text \<open>
  recovery after any corruption: whatever bytes the machine has consumed, once the stall
  watchdog has fired the following well-formed frames are all delivered, none is swallowed.
\<close>

theorem rx_recovers_after_stall:
  assumes "rx_inv (rx_sm u)"
    and "\<forall>p \<in> set ps. 1 \<le> length p \<and> length p \<le> 512"
  shows "fst (rx_run (concat (map mesh_frame ps))
      (rx_sm (rx_resync_handler (u\<lparr>rx_sm := snd (rx_run garbage (rx_sm u))\<rparr>)))) = ps"
proof -
  have inv: "rx_inv (rx_sm (u\<lparr>rx_sm := snd (rx_run garbage (rx_sm u))\<rparr>))"
    using rx_run_inv [OF assms(1)] by simp
  have "\<forall>(g, p) \<in> set (map (Pair []) ps). MESHTASTIC_MAGIC1 \<notin> set g \<and> 1 \<le> length p \<and> length p \<le> 512"
    using assms(2) by auto
  from rx_run_stream [OF rx_resync_boundary [OF inv] this] show ?thesis
    by (simp add: comp_def)
qed

theorem rx_recovers_after_stall_witness:
  "fst (rx_run (mesh_frame [42])
     (rx_sm (rx_resync_handler (uart_static\<lparr>rx_sm := snd (rx_run [0x94, 0xC3, 1] (rx_sm uart_static))\<rparr>)))) = [[42]]"
  using rx_recovers_after_stall [of uart_static "[[42]]" "[0x94, 0xC3, 1]"]
  by (simp add: rx_inv_def uart_static_def del: rx_run.simps)

text \<open>
  the watchdog is armed whenever it is needed: after every run of the receive work item,
  whatever the callback does to the rest of the firmware, the resync timer is pending exactly
  when the machine stopped inside a frame, and the overrun counter has been reported and cleared.
\<close>

theorem rx_watchdog_armed_mid_frame:
  "let u = fst (rx_work_handler cb s) in
     (rx_st (rx_sm u) \<noteq> RX_WAIT_MAGIC1 \<longleftrightarrow> rx_resync_dwork u = Some 250) \<and>
     (rx_st (rx_sm u) = RX_WAIT_MAGIC1 \<longleftrightarrow> rx_resync_dwork u = None) \<and> rx_overrun_bytes u = 0"
  by (auto simp: rx_work_handler_def Let_def split_beta RX_RESYNC_TIMEOUT_MS_def)

text \<open>
  no received byte disappears unaccounted: a receive event appends a prefix of the data to
  the ring, which never exceeds 2048 bytes, adds to the overrun counter (32 bits) the number of
  bytes that did not fit, and schedules the receive work.
\<close>

theorem uart_cb_rx_accounting:
  assumes "length (rx_ring_buf u) \<le> 2048" and "uart_cb rerr (UART_RX_RDY d) u = u'"
  shows "\<exists>stored lost. d = stored @ lost \<and> rx_ring_buf u' = rx_ring_buf u @ stored \<and>
    length (rx_ring_buf u') \<le> 2048 \<and> (lost = [] \<or> length (rx_ring_buf u') = 2048) \<and>
    rx_overrun_bytes u' = rx_overrun_bytes u + of_nat (length lost) \<and> rx_work_pending u' \<and> rx_sm u' = rx_sm u"
proof -
  let ?n = "min (length d) (2048 - length (rx_ring_buf u))"
  have "rx_ring_buf u' = rx_ring_buf u @ take ?n d"
    and "rx_overrun_bytes u' = rx_overrun_bytes u + of_nat (length (drop ?n d))"
    and "rx_work_pending u'" and "rx_sm u' = rx_sm u"
    using assms(2) by (auto simp: ring_buf_put_def layout_consts Let_def)
  moreover have "length (rx_ring_buf u) + ?n \<le> 2048" using assms(1) by simp
  moreover have "drop ?n d = [] \<or> length (rx_ring_buf u) + ?n = 2048" using assms(1) by auto
  ultimately show ?thesis by (intro exI [of _ "take ?n d"] exI [of _ "drop ?n d"]) auto
qed

theorem uart_cb_rx_accounting_witness:
  "\<exists>stored lost. [1, 2, 3] = stored @ lost \<and>
     rx_ring_buf (uart_cb OK (UART_RX_RDY [1, 2, 3]) uart_static) = [] @ stored \<and>
     rx_overrun_bytes (uart_cb OK (UART_RX_RDY [1, 2, 3]) uart_static) = of_nat (length lost)"
proof -
  have "length (rx_ring_buf uart_static) \<le> 2048" by (simp add: uart_static_def)
  from uart_cb_rx_accounting [OF this refl, where rerr = OK and d = "[1, 2, 3]"] show ?thesis
    by (auto simp: uart_static_def)
qed

section \<open>Transmission\<close>

definition tx_fits :: "u8 list list \<Rightarrow> u8 list \<Rightarrow> bool" where
  "tx_fits q p \<longleftrightarrow> length p \<le> MESHTASTIC_MAX_PAYLOAD \<and> length q < TX_QUEUE_DEPTH"

definition tx_inv :: "uart \<Rightarrow> bool" where
  "tx_inv u \<longleftrightarrow> length (tx_msgq u) \<le> TX_QUEUE_DEPTH \<and>
     (\<forall>p \<in> set (tx_msgq u). length p \<le> MESHTASTIC_MAX_PAYLOAD) \<and>
     length (tx_frame_buf u) = MESHTASTIC_MAX_PAYLOAD + 4"

text \<open>The transmit queue is a bounded FIFO.\<close>

interpretation tx_queue: bounded_fifo uart_meshtastic_tx tx_msgq tx_inv tx_fits tx_dequeue
proof
  fix u :: uart and p :: "u8 list" and q
  assume inv: "tx_inv u"
  show "tx_inv (snd (uart_meshtastic_tx p u))"
    using inv by (auto simp: uart_meshtastic_tx_def tx_inv_def)
  show "fst (uart_meshtastic_tx p u) = OK \<and> tx_msgq (snd (uart_meshtastic_tx p u)) = tx_msgq u @ [p]"
    if "tx_fits (tx_msgq u) p"
    using that by (simp add: uart_meshtastic_tx_def tx_fits_def)
  show "fst (uart_meshtastic_tx p u) \<noteq> OK \<and> tx_msgq (snd (uart_meshtastic_tx p u)) = tx_msgq u"
    if "\<not> tx_fits (tx_msgq u) p"
    using that by (auto simp: uart_meshtastic_tx_def tx_fits_def)
  show "tx_dequeue u = None" if "tx_msgq u = []" using that by (simp add: tx_dequeue_def)
  show "\<exists>u'. tx_dequeue u = Some (p, u') \<and> tx_msgq u' = q \<and> tx_inv u'" if "tx_msgq u = p # q"
    using that inv by (simp add: tx_dequeue_def tx_inv_def)
qed

lemma tx_static_inv: "tx_inv uart_static"
  by (simp add: tx_inv_def uart_static_def layout_consts)

text \<open>
  the transmit queue accepts a payload exactly when it has at most 512 bytes and fewer than
  four payloads are waiting, with the documented error otherwise and nothing changed; and over
  any sequence of submissions and removals the payloads come out in the order they were accepted.
\<close>

theorem uart_tx_queue_fifo:
  assumes "tx_inv u"
  shows "uart_meshtastic_tx p u =
      (if length p > 512 then (Err EMSGSIZE, u)
       else if length (tx_msgq u) = 4 then (Err ENOMEM, u)
       else (OK, u\<lparr>tx_msgq := tx_msgq u @ [p], tx_work_pending := True\<rparr>)) \<and>
    (\<forall>ops ins outs u'. fifo_run uart_meshtastic_tx tx_dequeue ops u = (ins, outs, u') \<longrightarrow>
       outs @ tx_msgq u' = tx_msgq u @ ins \<and> length (tx_msgq u') \<le> 4)"
proof -
  have "length (tx_msgq u) \<le> 4" using assms by (simp add: tx_inv_def layout_consts)
  moreover have "outs @ tx_msgq u' = tx_msgq u @ ins \<and> length (tx_msgq u') \<le> 4"
    if "fifo_run uart_meshtastic_tx tx_dequeue ops u = (ins, outs, u')" for ops ins outs u'
    using tx_queue.fifo_order [OF assms that] by (simp add: tx_inv_def layout_consts)
  ultimately show ?thesis by (auto simp: uart_meshtastic_tx_def layout_consts)
qed

theorem uart_tx_queue_fifo_witness:
  "uart_meshtastic_tx [1] uart_static =
     (OK, uart_static\<lparr>tx_msgq := [[1]], tx_work_pending := True\<rparr>)"
  using uart_tx_queue_fifo [OF tx_static_inv, of "[1]"] by (simp add: uart_static_def)

lemma build_tx_frame_correct:
  assumes "length buf = 516" and "length p \<le> 512"
  shows "take (length p + 4) (build_tx_frame buf p) = mesh_frame p" and "length (build_tx_frame buf p) = 516"
proof -
  have "Suc (Suc (Suc (Suc 0))) \<le> length buf" using assms(1) by simp
  then obtain a b c d r where buf: "buf = a # b # c # d # r"
    by (auto simp: Suc_le_length_iff)
  have four: "length p + 4 = Suc (Suc (Suc (Suc (length p))))" by simp
  show "take (length p + 4) (build_tx_frame buf p) = mesh_frame p"
    unfolding four by (simp add: build_tx_frame_def mesh_frame_def memcpy_at_def buf Let_def)
  show "length (build_tx_frame buf p) = 516"
    using assms by (simp add: build_tx_frame_def Let_def)
qed

text \<open>One run of the transmit work item from a well-formed state, on every branch.\<close>

lemma tx_work_cases:
  assumes "tx_inv u"
  obtains (busy) "tx_in_progress u" and "tx_work_handler err u = u"
  | (idle) "\<not> tx_in_progress u" and "tx_msgq u = []" and "tx_work_handler err u = u"
  | (sent) p q u' where "\<not> tx_in_progress u" and "tx_msgq u = p # q" and "err = OK"
      and "u' = tx_work_handler err u" and "tx_inv u'" and "tx_msgq u' = q" and "tx_in_progress u'"
      and "tx_wire u' = tx_wire u @ [mesh_frame p]" and "tx_work_pending u' = tx_work_pending u"
  | (dropped) p q u' where "\<not> tx_in_progress u" and "tx_msgq u = p # q" and "err \<noteq> OK"
      and "u' = tx_work_handler err u" and "tx_inv u'" and "tx_msgq u' = q" and "\<not> tx_in_progress u'"
      and "tx_wire u' = tx_wire u" and "tx_work_pending u'"
proof (cases "tx_in_progress u")
  case True
  then show ?thesis by (intro busy) (simp_all add: tx_work_handler_def)
next
  case False
  show ?thesis
  proof (cases "tx_msgq u")
    case Nil
    with False show ?thesis by (intro idle) (simp_all add: tx_work_handler_def tx_dequeue_def)
  next
    case (Cons p q)
    have len: "length (tx_frame_buf u) = 516" "length p \<le> 512"
      using assms Cons by (simp_all add: tx_inv_def layout_consts)
    have inv: "tx_inv (tx_work_handler err u)"
      using assms Cons False build_tx_frame_correct(2) [OF len]
      by (simp add: tx_work_handler_def tx_dequeue_def tx_inv_def layout_consts Let_def)
    show ?thesis
    proof (cases "err = OK")
      case True
      show ?thesis
        by (rule sent [OF False Cons True refl inv])
          (use False Cons True build_tx_frame_correct(1) [OF len] in
            \<open>simp_all add: tx_work_handler_def tx_dequeue_def Let_def\<close>)
    next
      case err: False
      show ?thesis
        by (rule dropped [OF False Cons err refl inv])
          (use False Cons err in \<open>simp_all add: tx_work_handler_def tx_dequeue_def Let_def\<close>)
    qed
  qed
qed

subsection \<open>The transmit side as a transition system\<close>

datatype tx_event = Tx_submit "u8 list" | Tx_work rc | Tx_done | Tx_abort

text \<open>
  Any context may submit a payload; the work item runs when it is pending; the driver completes
  or aborts a transfer that is in progress.
\<close>

inductive tx_step :: "uart \<Rightarrow> tx_event \<Rightarrow> uart \<Rightarrow> bool" where
  submit: "tx_step u (Tx_submit p) (snd (uart_meshtastic_tx p u))"
| work: "tx_work_pending u \<Longrightarrow>
    tx_step u (Tx_work err) (tx_work_handler err (u\<lparr>tx_work_pending := False\<rparr>))"
| tx_done: "tx_in_progress u \<Longrightarrow> tx_step u Tx_done (uart_cb rerr UART_TX_DONE u)"
| tx_abort: "tx_in_progress u \<Longrightarrow> tx_step u Tx_abort (uart_cb rerr UART_TX_ABORTED u)"

inductive_cases tx_step_elims: "tx_step u (Tx_submit p) v" "tx_step u (Tx_work err) v"
  "tx_step u Tx_done v" "tx_step u Tx_abort v"

definition tx_live :: "uart \<Rightarrow> bool" where
  "tx_live u \<longleftrightarrow> tx_inv u \<and> (tx_msgq u \<noteq> [] \<longrightarrow> tx_in_progress u \<or> tx_work_pending u)"

lemma tx_inv_frame [simp]:
  "tx_inv (u\<lparr>tx_work_pending := b\<rparr>) = tx_inv u" "tx_inv (u\<lparr>tx_in_progress := b\<rparr>) = tx_inv u"
  "tx_inv (u\<lparr>uart_tx_active := b\<rparr>) = tx_inv u"
  by (simp_all add: tx_inv_def)

lemma tx_step_live:
  assumes "tx_live u" and "tx_step u e v"
  shows "tx_live v"
  using assms(2)
proof cases
  case (submit p)
  have "tx_inv v" using tx_queue.add_invar assms(1) submit by (simp add: tx_live_def)
  then show ?thesis
    using assms(1) submit by (auto simp: tx_live_def uart_meshtastic_tx_def)
next
  case (work err)
  have inv: "tx_inv (u\<lparr>tx_work_pending := False\<rparr>)" using assms(1) by (simp add: tx_live_def)
  from inv show ?thesis
    by (cases rule: tx_work_cases [where err = err]) (use work assms(1) in \<open>auto simp: tx_live_def\<close>)
qed (use assms(1) in \<open>auto simp: tx_live_def\<close>)

interpretation tx_system: safe_system "\<lambda>u. u = uart_static" tx_step tx_live
proof
  show "tx_live u" if "u = uart_static" for u
    using that tx_static_inv by (simp add: tx_live_def uart_static_def)
  show "tx_live v" if "tx_live u" "tx_step u e v" for u e v
    using tx_step_live [OF that] .
qed

text \<open>
  the transmitter never stalls: in every state the driver can reach, with submissions, work
  runs, hardware errors, completions and aborts in any order, a waiting payload has either a
  transfer in progress or the work item scheduled, so there is always a next event that moves it.
\<close>

theorem uart_tx_never_stalls:
  assumes "reachable (\<lambda>u. u = uart_static) tx_step u" and "tx_msgq u \<noteq> []"
  shows "tx_in_progress u \<or> tx_work_pending u"
  using tx_system.reachable_inv [OF assms(1)] assms(2) by (simp add: tx_live_def)

theorem uart_tx_never_stalls_witness:
  "\<exists>u. reachable (\<lambda>u. u = uart_static) tx_step u \<and> tx_msgq u = [[1]] \<and>
     (tx_in_progress u \<or> tx_work_pending u)"
proof -
  let ?u = "snd (uart_meshtastic_tx [1] uart_static)"
  have "reachable (\<lambda>u. u = uart_static) tx_step uart_static" by (rule reach_start) simp
  then have r: "reachable (\<lambda>u. u = uart_static) tx_step ?u" by (rule reach_step) (rule tx_step.submit)
  have q: "tx_msgq ?u = [[1]]" by (simp add: uart_meshtastic_tx_def uart_static_def layout_consts)
  then show ?thesis using uart_tx_never_stalls [OF r] r by auto
qed

text \<open>The payloads an event adds to the queue, and runs in which the hardware takes every buffer.\<close>

fun accepted_by :: "tx_event \<Rightarrow> uart \<Rightarrow> u8 list list" where
  "accepted_by (Tx_submit p) u = (if fst (uart_meshtastic_tx p u) = OK then [p] else [])"
| "accepted_by _ u = []"

inductive tx_path :: "uart \<Rightarrow> u8 list list \<Rightarrow> uart \<Rightarrow> bool" for u where
  path_nil: "tx_path u [] u"
| path_step: "tx_path u acc v \<Longrightarrow> tx_step v e w \<Longrightarrow> e \<in> insert (Tx_work OK) (- range Tx_work) \<Longrightarrow>
    tx_path u (acc @ accepted_by e v) w"

lemma tx_step_wire:
  assumes "tx_live v" and "tx_step v e w" and "e \<in> insert (Tx_work OK) (- range Tx_work)"
  shows "tx_wire w @ map mesh_frame (tx_msgq w) =
    tx_wire v @ map mesh_frame (tx_msgq v @ accepted_by e v)"
  using assms(2)
proof cases
  case (submit p)
  then show ?thesis by (auto simp: uart_meshtastic_tx_def)
next
  case (work err)
  have "err = OK" using assms(3) work by auto
  have inv: "tx_inv (v\<lparr>tx_work_pending := False\<rparr>)" using assms(1) by (simp add: tx_live_def)
  from inv show ?thesis
    by (cases rule: tx_work_cases [where err = err]) (use work \<open>err = OK\<close> in auto)
qed auto

lemma tx_path_wire:
  assumes "tx_path u acc v" and "tx_live u"
  shows "tx_live v \<and> tx_wire v @ map mesh_frame (tx_msgq v) = tx_wire u @ map mesh_frame (tx_msgq u @ acc)"
  using assms(1)
proof (induction rule: tx_path.induct)
  case path_nil
  then show ?case using assms(2) by simp
next
  case (path_step acc v e w)
  then show ?case using tx_step_live tx_step_wire [of v e w] by auto
qed

text \<open>
  what reaches the wire is exactly what was accepted, framed and in order: along any run in
  which the hardware takes every buffer, the buffers transmitted so far followed by the frames of
  the payloads still queued are the frames of the payloads accepted, in acceptance order.
\<close>

theorem uart_tx_wire_order:
  assumes "tx_path uart_static acc u"
  shows "tx_wire u @ map mesh_frame (tx_msgq u) = map mesh_frame acc"
proof -
  have "tx_live uart_static" using tx_static_inv by (simp add: tx_live_def uart_static_def)
  from tx_path_wire [OF assms this] show ?thesis by (simp add: uart_static_def)
qed

theorem uart_tx_wire_order_witness:
  "\<exists>u. tx_path uart_static [[1]] u \<and> tx_wire u @ map mesh_frame (tx_msgq u) = [mesh_frame [1]]"
proof -
  let ?u = "snd (uart_meshtastic_tx [1] uart_static)"
  have "tx_path uart_static ([] @ accepted_by (Tx_submit [1]) uart_static) ?u"
    by (rule path_step [OF path_nil tx_step.submit]) auto
  then have p: "tx_path uart_static [[1]] ?u"
    by (simp add: uart_meshtastic_tx_def uart_static_def layout_consts)
  then show ?thesis using uart_tx_wire_order [OF p] by auto
qed

text \<open>One full cycle of the transmitter: the work item runs and the hardware completes.\<close>

definition tx_cycle :: "uart \<Rightarrow> uart" where
  "tx_cycle u = uart_cb OK UART_TX_DONE (tx_work_handler OK (u\<lparr>tx_work_pending := False\<rparr>))"

lemma tx_cycle_sends:
  assumes "tx_inv u" and "\<not> tx_in_progress u"
  shows "tx_inv (tx_cycle u) \<and> \<not> tx_in_progress (tx_cycle u) \<and>
    tx_msgq (tx_cycle u) = tl (tx_msgq u) \<and>
    tx_wire (tx_cycle u) = tx_wire u @ map mesh_frame (take 1 (tx_msgq u))"
proof -
  have inv: "tx_inv (u\<lparr>tx_work_pending := False\<rparr>)" using assms(1) by simp
  from inv show ?thesis
    by (cases rule: tx_work_cases [where err = OK]) (use assms in \<open>auto simp: tx_cycle_def\<close>)
qed

lemma tx_cycles_send:
  assumes "tx_inv u" and "\<not> tx_in_progress u"
  shows "tx_msgq ((tx_cycle ^^ n) u) = drop n (tx_msgq u) \<and>
    tx_wire ((tx_cycle ^^ n) u) = tx_wire u @ map mesh_frame (take n (tx_msgq u))"
  using assms
proof (induction n arbitrary: u)
  case 0
  then show ?case by simp
next
  case (Suc n)
  note c = tx_cycle_sends [OF Suc.prems]
  have "tx_msgq ((tx_cycle ^^ n) (tx_cycle u)) = drop n (tx_msgq (tx_cycle u)) \<and>
      tx_wire ((tx_cycle ^^ n) (tx_cycle u)) = tx_wire (tx_cycle u) @ map mesh_frame (take n (tx_msgq (tx_cycle u)))"
    by (rule Suc.IH) (use c in auto)
  then show ?case using c by (cases "tx_msgq u") (simp_all add: funpow_swap1 [symmetric] funpow_Suc_right del: funpow.simps)
qed

text \<open>An empty payload is framed too; a receiver of this framing skips it.\<close>

lemma rx_run_frame_any:
  assumes "rx_st sm = RX_WAIT_MAGIC1" and "length (rx_payload sm) = 512" and "length p \<le> 512"
  shows "\<exists>sm'. rx_run (mesh_frame p) sm = (filter (\<lambda>p. p \<noteq> []) [p], sm') \<and> rx_st sm' = RX_WAIT_MAGIC1 \<and>
    length (rx_payload sm') = 512"
proof (cases "p = []")
  case True
  then show ?thesis
    using assms(1,2)
    by (simp add: mesh_frame_def rx_process_byte_def MESHTASTIC_MAGIC1_def MESHTASTIC_MAGIC2_def Let_def)
qed (use rx_run_frame [OF assms(1,2) _ assms(3)] in simp)

lemma rx_run_frames:
  assumes "rx_st sm = RX_WAIT_MAGIC1" and "length (rx_payload sm) = 512" and "\<forall>p \<in> set ps. length p \<le> 512"
  shows "fst (rx_run (concat (map mesh_frame ps)) sm) = filter (\<lambda>p. p \<noteq> []) ps \<and>
    rx_st (snd (rx_run (concat (map mesh_frame ps)) sm)) = RX_WAIT_MAGIC1"
  using assms
proof (induction ps arbitrary: sm)
  case (Cons p ps)
  obtain sm' where p: "rx_run (mesh_frame p) sm = (filter (\<lambda>p. p \<noteq> []) [p], sm')" "rx_st sm' = RX_WAIT_MAGIC1"
    "length (rx_payload sm') = 512"
    using rx_run_frame_any [OF Cons.prems(1,2), of p] Cons.prems(3) by auto
  with Cons.IH [OF p(2,3)] Cons.prems(3) show ?case by (simp add: rx_run_append split_beta Let_def)
qed simp

text \<open>
  C37: the transmitter and the receive machine are inverse over a wire: from an idle transmitter,
  as many cycles of the work item and the hardware as payloads are waiting empty the queue, and
  when the bytes put on the wire meanwhile are fed to the receive machine of another such driver
  that is between two frames, it delivers those payloads, whole and in order, and is between two
  frames again. Only an empty payload, which is framed and sent, is not delivered.
\<close>

theorem uart_link_roundtrip:
  assumes "tx_inv u" and "\<not> tx_in_progress u" and "rx_inv sm" and "rx_st sm = RX_WAIT_MAGIC1"
    and "v = (tx_cycle ^^ length (tx_msgq u)) u"
  shows "tx_msgq v = [] \<and> (\<exists>sent. tx_wire v = tx_wire u @ sent \<and> length sent = length (tx_msgq u) \<and>
    fst (rx_run (concat sent) sm) = filter (\<lambda>p. p \<noteq> []) (tx_msgq u) \<and>
    rx_st (snd (rx_run (concat sent) sm)) = RX_WAIT_MAGIC1)"
proof -
  have wire: "tx_msgq v = []" "tx_wire v = tx_wire u @ map mesh_frame (tx_msgq u)"
    using tx_cycles_send [OF assms(1,2), of "length (tx_msgq u)"] assms(5) by simp_all
  have "length (rx_payload sm) = 512" "\<forall>p \<in> set (tx_msgq u). length p \<le> 512"
    using assms(1,3) by (simp_all add: rx_inv_def tx_inv_def layout_consts)
  from rx_run_frames [OF assms(4) this] wire show ?thesis by auto
qed

theorem uart_link_roundtrip_witness:
  "\<exists>sent. tx_wire ((tx_cycle ^^ 3) (uart_static\<lparr>tx_msgq := [[1], [], [2, 3]]\<rparr>)) = sent \<and>
     fst (rx_run (concat sent) (rx_sm uart_static)) = [[1], [2, 3]]"
proof -
  let ?u = "uart_static\<lparr>tx_msgq := [[1], [], [2, 3]]\<rparr>"
  have u: "tx_inv ?u" "\<not> tx_in_progress ?u" "rx_inv (rx_sm uart_static)" "rx_st (rx_sm uart_static) = RX_WAIT_MAGIC1"
    by (simp_all add: uart_static_def tx_inv_def rx_inv_def layout_consts)
  have three: "length (tx_msgq ?u) = 3" by simp
  from uart_link_roundtrip [OF u refl, unfolded three] show ?thesis by (auto simp: uart_static_def)
qed

end
