(* ===== verification/Upstream_Session.thy ===== *)
theory Upstream_Session
  imports Config_Cache Uart_Meshtastic
begin

text \<open>
  The proxy's own config session with the node, \<^verbatim>\<open>src/src/upstream_session.c\<close>: the
  session state machine, the phones parked until the cache is ready, the keepalive and the two
  watchdogs, and the byte accounting of the boot burst.

  The module calls the cache, the UART driver and, through a registered function pointer, the
  replay of a phone; its operations therefore act on a record of its own static variables, the
  cache, the driver, and the state \<open>'g\<close> behind the callback, which the module knows nothing
  about. A delayable work item is its scheduled delay in milliseconds, \<open>None\<close> when it is not
  pending. The random number generator's answer is an argument.
\<close>

section \<open>State\<close>

definition CONFIG_BT_MAX_CONN :: nat where "CONFIG_BT_MAX_CONN = 6"
definition UPSTREAM_KEEPALIVE_MS :: nat where "UPSTREAM_KEEPALIVE_MS = 5 * 60 * 1000"
definition UPSTREAM_KEEPALIVE_RETRY_MS :: nat where "UPSTREAM_KEEPALIVE_RETRY_MS = 20 * 1000"
definition UPSTREAM_FETCH_RETRY_MS :: nat where "UPSTREAM_FETCH_RETRY_MS = 2000"
definition UPSTREAM_LIVENESS_TIMEOUT_MS :: nat where "UPSTREAM_LIVENESS_TIMEOUT_MS = 30 * 60 * 1000"

lemmas upstream_layout [layout_consts] = CONFIG_BT_MAX_CONN_def

datatype upstream_state =
    UPSTREAM_BOOT | UPSTREAM_FETCHING | UPSTREAM_CACHE_READY | UPSTREAM_LIVE | UPSTREAM_REFETCHING

record phase0_stats =
  total_bytes :: u32
  my_info_bytes :: u32
  deviceuiConfig_bytes :: u32
  node_info_bytes :: u32
  node_info_count :: u16
  metadata_bytes :: u32
  channel_bytes :: u32
  channel_count :: u16
  config_bytes :: u32
  config_count :: u16
  moduleConfig_bytes :: u32
  moduleConfig_count :: u16
  fileInfo_bytes :: u32
  fileInfo_count :: u16
  queueStatus_bytes :: u32
  queueStatus_count :: u16
  p0_config_complete_id :: u32
  other_bytes :: u32
  other_count :: u16

record upstream =
  s_state :: upstream_state
  s_nonce :: u32
  s_pending :: "bt_conn list"
  s_pending_count :: nat
  s_keepalive_work :: "nat option"
  s_fetch_retry_work :: "nat option"
  s_liveness_work :: "nat option"
  s_keepalive_armed :: bool
  s_keepalive_nonce :: u32
  s_keepalive_pending :: bool
  s_tx_fail_cnt :: u32
  s_p0 :: phase0_stats

record 'g session =
  up :: upstream
  cch :: cache
  uar :: uart
  client :: 'g
  s_serve_cb :: "(bt_conn \<Rightarrow> u32 \<Rightarrow> 'g \<Rightarrow> 'g) option"

definition phase0_zero :: phase0_stats where
  "phase0_zero = \<lparr>total_bytes = 0, my_info_bytes = 0, deviceuiConfig_bytes = 0, node_info_bytes = 0,
     node_info_count = 0, metadata_bytes = 0, channel_bytes = 0, channel_count = 0, config_bytes = 0,
     config_count = 0, moduleConfig_bytes = 0, moduleConfig_count = 0, fileInfo_bytes = 0,
     fileInfo_count = 0, queueStatus_bytes = 0, queueStatus_count = 0, p0_config_complete_id = 0,
     other_bytes = 0, other_count = 0\<rparr>"

definition upstream_static :: upstream where
  "upstream_static = \<lparr>s_state = UPSTREAM_BOOT, s_nonce = 0,
     s_pending = replicate CONFIG_BT_MAX_CONN None, s_pending_count = 0,
     s_keepalive_work = None, s_fetch_retry_work = None, s_liveness_work = None,
     s_keepalive_armed = False, s_keepalive_nonce = 2, s_keepalive_pending = False,
     s_tx_fail_cnt = 0, s_p0 = phase0_zero\<rparr>"

section \<open>Burst accounting\<close>

definition phase0_reset :: "phase0_stats \<Rightarrow> phase0_stats" where
  "phase0_reset p0 = phase0_zero"

definition phase0_account :: "fromradio_tag \<Rightarrow> nat \<Rightarrow> phase0_stats \<Rightarrow> phase0_stats" where
  "phase0_account variant len p0 =
     (let n = (of_nat len :: u32);
          p0 = p0\<lparr>total_bytes := total_bytes p0 + n\<rparr>
      in case variant of
           FromRadio_my_info_tag \<Rightarrow> p0\<lparr>my_info_bytes := my_info_bytes p0 + n\<rparr>
         | FromRadio_deviceuiConfig_tag \<Rightarrow> p0\<lparr>deviceuiConfig_bytes := deviceuiConfig_bytes p0 + n\<rparr>
         | FromRadio_node_info_tag \<Rightarrow>
             p0\<lparr>node_info_bytes := node_info_bytes p0 + n, node_info_count := node_info_count p0 + 1\<rparr>
         | FromRadio_metadata_tag \<Rightarrow> p0\<lparr>metadata_bytes := metadata_bytes p0 + n\<rparr>
         | FromRadio_channel_tag \<Rightarrow>
             p0\<lparr>channel_bytes := channel_bytes p0 + n, channel_count := channel_count p0 + 1\<rparr>
         | FromRadio_config_tag \<Rightarrow>
             p0\<lparr>config_bytes := config_bytes p0 + n, config_count := config_count p0 + 1\<rparr>
         | FromRadio_moduleConfig_tag \<Rightarrow>
             p0\<lparr>moduleConfig_bytes := moduleConfig_bytes p0 + n, moduleConfig_count := moduleConfig_count p0 + 1\<rparr>
         | FromRadio_fileInfo_tag \<Rightarrow>
             p0\<lparr>fileInfo_bytes := fileInfo_bytes p0 + n, fileInfo_count := fileInfo_count p0 + 1\<rparr>
         | FromRadio_queueStatus_tag \<Rightarrow>
             p0\<lparr>queueStatus_bytes := queueStatus_bytes p0 + n, queueStatus_count := queueStatus_count p0 + 1\<rparr>
         | _ \<Rightarrow> p0\<lparr>other_bytes := other_bytes p0 + n, other_count := other_count p0 + 1\<rparr>)"

definition account :: "fromradio_tag \<Rightarrow> nat \<Rightarrow> 'g session \<Rightarrow> 'g session" where
  "account variant len w = w\<lparr>up := (up w)\<lparr>s_p0 := phase0_account variant len (s_p0 (up w))\<rparr>\<rparr>"

section \<open>Pending phones\<close>

definition serve_one_pending :: "bt_conn \<Rightarrow> 'g session \<Rightarrow> 'g session" where
  "serve_one_pending conn w =
     (case s_serve_cb w of
        None \<Rightarrow> w
      | Some cb \<Rightarrow> w\<lparr>client := cb conn 0 (client w)\<rparr>)"

text \<open>The loop over the first \<open>s_pending_count\<close> entries, from index \<open>i\<close>.\<close>

function serve_pending_from :: "nat \<Rightarrow> nat \<Rightarrow> 'g session \<Rightarrow> 'g session" where
  "serve_pending_from i n w =
     (if i < n then
        let w = serve_one_pending (s_pending (up w) ! i) w;
            w = w\<lparr>up := (up w)\<lparr>s_pending := (s_pending (up w))[i := None]\<rparr>\<rparr>
        in serve_pending_from (Suc i) n w
      else w)"
  by pat_completeness auto
termination by (relation "measure (\<lambda>(i, n, _). n - i)") auto

declare serve_pending_from.simps [simp del]

definition serve_pending_phones :: "'g session \<Rightarrow> 'g session" where
  "serve_pending_phones w =
     (if s_pending_count (up w) = 0 then w
      else let w = serve_pending_from 0 (s_pending_count (up w)) w
           in w\<lparr>up := (up w)\<lparr>s_pending_count := 0\<rparr>\<rparr>)"

section \<open>Timers\<close>

definition upstream_keepalive_reschedule :: "'g session \<Rightarrow> 'g session" where
  "upstream_keepalive_reschedule w =
     (if \<not> s_keepalive_armed (up w) then w
      else w\<lparr>up := (up w)\<lparr>s_keepalive_work := Some UPSTREAM_KEEPALIVE_MS\<rparr>\<rparr>)"

definition upstream_liveness_kick :: "'g session \<Rightarrow> 'g session" where
  "upstream_liveness_kick w =
     (if s_state (up w) \<noteq> UPSTREAM_LIVE then w
      else w\<lparr>up := (up w)\<lparr>s_liveness_work := Some UPSTREAM_LIVENESS_TIMEOUT_MS\<rparr>\<rparr>)"

definition fetch_retry_arm :: "'g session \<Rightarrow> 'g session" where
  "fetch_retry_arm w = w\<lparr>up := (up w)\<lparr>s_fetch_retry_work := Some UPSTREAM_FETCH_RETRY_MS\<rparr>\<rparr>"

section \<open>Requests to the node\<close>

definition session_tx :: "u8 list \<Rightarrow> 'g session \<Rightarrow> rc \<times> 'g session" where
  "session_tx payload w = (let (r, u) = uart_meshtastic_tx payload (uar w) in (r, w\<lparr>uar := u\<rparr>))"

definition want_config_msg :: "u32 \<Rightarrow> toradio_msg" where
  "want_config_msg nonce = toradio_zero\<lparr>tr_which := ToRadio_want_config_id_tag, tr_want_config_id := nonce\<rparr>"

definition send_want_config :: "nanopb \<Rightarrow> u32 \<Rightarrow> 'g session \<Rightarrow> rc \<times> 'g session" where
  "send_want_config pb nonce w =
     (let (ok, bytes) = pb_encode_toradio pb (want_config_msg nonce) (pb_toradio_size pb) in
      if \<not> ok then (Err EINVAL, w)
      else let (rc, w) = session_tx (take (length bytes mod 2 ^ 16) bytes) w in
        if rc \<noteq> OK then (rc, w) else (OK, w))"

definition keepalive_work_handler :: "nanopb \<Rightarrow> 'g session \<Rightarrow> 'g session" where
  "keepalive_work_handler pb w =
     (let nonce = s_keepalive_nonce (up w);
          w = w\<lparr>up := (up w)\<lparr>s_keepalive_nonce := nonce + 1\<rparr>\<rparr>;
          w = (if s_keepalive_nonce (up w) = 0 \<or> s_keepalive_nonce (up w) = 1
               then w\<lparr>up := (up w)\<lparr>s_keepalive_nonce := 2\<rparr>\<rparr> else w);
          (rc, buf, len) = proto_encode_heartbeat pb nonce (replicate 16 0) 16 0
      in if rc = OK then
           let w = w\<lparr>up := (up w)\<lparr>s_keepalive_pending := True\<rparr>\<rparr>;
               (err, w) = session_tx (take len buf) w
           in if err \<noteq> OK
              then w\<lparr>up := (up w)\<lparr>s_keepalive_pending := False, s_tx_fail_cnt := s_tx_fail_cnt (up w) + 1,
                                  s_keepalive_work := Some UPSTREAM_KEEPALIVE_RETRY_MS\<rparr>\<rparr>
              else w\<lparr>up := (up w)\<lparr>s_tx_fail_cnt := 0, s_keepalive_work := Some UPSTREAM_KEEPALIVE_MS\<rparr>\<rparr>
         else w\<lparr>up := (up w)\<lparr>s_keepalive_work := Some UPSTREAM_KEEPALIVE_MS\<rparr>\<rparr>)"

definition fetch_retry_handler :: "nanopb \<Rightarrow> 'g session \<Rightarrow> 'g session" where
  "fetch_retry_handler pb w =
     (let st = s_state (up w) in
      if st \<noteq> UPSTREAM_FETCHING \<and> st \<noteq> UPSTREAM_REFETCHING then w
      else
        let w = (if st = UPSTREAM_FETCHING
                 then w\<lparr>cch := cache_begin (cch w), up := (up w)\<lparr>s_p0 := phase0_reset (s_p0 (up w))\<rparr>\<rparr>
                 else w);
            (_, w) = send_want_config pb (s_nonce (up w)) w
        in fetch_retry_arm w)"

text \<open>The nonce for a new fetch: the random value, with 0 and 1 replaced by 2.\<close>

definition fetch_nonce :: "u32 \<Rightarrow> u32" where
  "fetch_nonce rnd = (if rnd = 0 \<or> rnd = 1 then 2 else rnd)"

definition upstream_refetch :: "nanopb \<Rightarrow> u32 \<Rightarrow> 'g session \<Rightarrow> 'g session" where
  "upstream_refetch pb rnd w =
     (let st = s_state (up w) in
      if st = UPSTREAM_BOOT \<or> st = UPSTREAM_FETCHING \<or> st = UPSTREAM_REFETCHING then w
      else
        let w = w\<lparr>up := (up w)\<lparr>s_nonce := fetch_nonce rnd\<rparr>\<rparr>;
            (rc, w) = send_want_config pb (s_nonce (up w)) w
        in if rc \<noteq> OK then w
           else
             let w = w\<lparr>up := (up w)\<lparr>s_state := UPSTREAM_REFETCHING\<rparr>\<rparr>;
                 w = fetch_retry_arm w
             in upstream_keepalive_reschedule w)"

definition liveness_handler :: "nanopb \<Rightarrow> u32 \<Rightarrow> 'g session \<Rightarrow> 'g session" where
  "liveness_handler pb rnd w =
     (if s_state (up w) \<noteq> UPSTREAM_LIVE then w else upstream_refetch pb rnd w)"

definition upstream_session_start :: "nanopb \<Rightarrow> u32 \<Rightarrow> 'g session \<Rightarrow> 'g session" where
  "upstream_session_start pb rnd w =
     (let w = w\<lparr>up := (up w)\<lparr>s_keepalive_work := None, s_fetch_retry_work := None, s_liveness_work := None\<rparr>\<rparr>;
          w = w\<lparr>up := (up w)\<lparr>s_keepalive_armed := True, s_keepalive_work := Some UPSTREAM_KEEPALIVE_MS\<rparr>\<rparr>;
          w = w\<lparr>up := (up w)\<lparr>s_nonce := fetch_nonce rnd\<rparr>\<rparr>;
          (ok, bytes) = pb_encode_toradio pb (want_config_msg (s_nonce (up w))) (pb_toradio_size pb)
      in if \<not> ok then w
         else
           let w = w\<lparr>cch := cache_begin (cch w),
                     up := (up w)\<lparr>s_p0 := phase0_reset (s_p0 (up w)), s_pending_count := 0\<rparr>\<rparr>;
               (rc, w) = session_tx (take (length bytes mod 2 ^ 16) bytes) w
           in if rc \<noteq> OK
              then fetch_retry_arm (w\<lparr>up := (up w)\<lparr>s_state := UPSTREAM_FETCHING\<rparr>\<rparr>)
              else fetch_retry_arm (w\<lparr>up := (up w)\<lparr>s_state := UPSTREAM_FETCHING\<rparr>\<rparr>))"

definition upstream_get_state :: "'g session \<Rightarrow> upstream_state" where
  "upstream_get_state w = s_state (up w)"

definition upstream_set_serve_cb :: "(bt_conn \<Rightarrow> u32 \<Rightarrow> 'g \<Rightarrow> 'g) option \<Rightarrow> 'g session \<Rightarrow> 'g session" where
  "upstream_set_serve_cb cb w = w\<lparr>s_serve_cb := cb\<rparr>"

section \<open>Frames from the node\<close>

definition session_cache_add :: "u8 list \<Rightarrow> fromradio_tag \<Rightarrow> 'g session \<Rightarrow> 'g session" where
  "session_cache_add payload v w = w\<lparr>cch := snd (cache_add_frame payload v (cch w))\<rparr>"

definition upstream_on_fromradio ::
  "nanopb \<Rightarrow> u8 list \<Rightarrow> fromradio_info \<Rightarrow> 'g session \<Rightarrow> bool \<times> 'g session" where
  "upstream_on_fromradio pb payload info w =
     (if s_state (up w) \<noteq> UPSTREAM_FETCHING \<and> s_state (up w) \<noteq> UPSTREAM_REFETCHING then (False, w)
      else if which_variant info = FromRadio_packet_tag then (False, w)
      else
        let w = fetch_retry_arm w;
            v = which_variant info
        in
        if v = FromRadio_config_complete_id_tag then
          (case decode_config_complete_nonce pb payload of
             None \<Rightarrow> (True, session_cache_add payload v (account v (length payload) w))
           | Some got_nonce \<Rightarrow>
               if got_nonce \<noteq> s_nonce (up w)
               then (True, session_cache_add payload v (account v (length payload) w))
               else
                 let w = w\<lparr>up := (up w)\<lparr>s_p0 := (s_p0 (up w))\<lparr>p0_config_complete_id := got_nonce\<rparr>\<rparr>\<rparr>;
                     w = (if s_state (up w) = UPSTREAM_FETCHING then
                            let w = account v (length payload) w;
                                w = w\<lparr>cch := cache_mark_ready (cch w)\<rparr>;
                                w = w\<lparr>up := (up w)\<lparr>s_state := UPSTREAM_CACHE_READY\<rparr>\<rparr>;
                                w = serve_pending_phones w;
                                w = w\<lparr>up := (up w)\<lparr>s_state := UPSTREAM_LIVE\<rparr>\<rparr>
                            in upstream_liveness_kick w
                          else if s_state (up w) = UPSTREAM_REFETCHING then
                            upstream_liveness_kick (w\<lparr>up := (up w)\<lparr>s_state := UPSTREAM_LIVE\<rparr>\<rparr>)
                          else w);
                     w = w\<lparr>up := (up w)\<lparr>s_fetch_retry_work := None\<rparr>\<rparr>
                 in (True, w))
        else if s_state (up w) = UPSTREAM_FETCHING
        then (True, session_cache_add payload v (account v (length payload) w))
        else (True, w))"

text \<open>The deduplication loop, then the bounds check, then the store.\<close>

definition upstream_on_pending_phone :: "bt_conn \<Rightarrow> 'g session \<Rightarrow> 'g session" where
  "upstream_on_pending_phone conn w =
     (if conn = None then w
      else if cache_is_ready (cch w) then serve_one_pending conn w
      else if conn \<in> set (take (s_pending_count (up w)) (s_pending (up w))) then w
      else if s_pending_count (up w) \<ge> length (s_pending (up w)) then w
      else w\<lparr>up := (up w)\<lparr>s_pending := (s_pending (up w))[s_pending_count (up w) := conn],
                          s_pending_count := s_pending_count (up w) + 1\<rparr>\<rparr>)"

definition upstream_swallow_live_queuestatus :: "'g session \<Rightarrow> bool \<times> 'g session" where
  "upstream_swallow_live_queuestatus w =
     (if s_keepalive_pending (up w) then (True, w\<lparr>up := (up w)\<lparr>s_keepalive_pending := False\<rparr>\<rparr>)
      else (False, w))"

section \<open>What each operation leaves alone\<close>

lemma session_tx_frame [simp]:
  "up (snd (session_tx p w)) = up w" "cch (snd (session_tx p w)) = cch w"
  "client (snd (session_tx p w)) = client w" "s_serve_cb (snd (session_tx p w)) = s_serve_cb w"
  "fst (session_tx p w) = fst (uart_meshtastic_tx p (uar w))"
  "uar (snd (session_tx p w)) = snd (uart_meshtastic_tx p (uar w))"
  by (simp_all add: session_tx_def split_beta)

lemma send_want_config_frame [simp]:
  "up (snd (send_want_config pb n w)) = up w" "cch (snd (send_want_config pb n w)) = cch w"
  "client (snd (send_want_config pb n w)) = client w"
  "s_serve_cb (snd (send_want_config pb n w)) = s_serve_cb w"
  by (simp_all add: send_want_config_def Let_def split_beta)

lemma session_cache_add_frame [simp]:
  "up (session_cache_add p v w) = up w" "uar (session_cache_add p v w) = uar w"
  "client (session_cache_add p v w) = client w" "s_serve_cb (session_cache_add p v w) = s_serve_cb w"
  "cch (session_cache_add p v w) = snd (cache_add (v, p) (cch w))"
  by (simp_all add: session_cache_add_def cache_add_def)

lemma account_frame [simp]:
  "up (account v n w) = (up w)\<lparr>s_p0 := phase0_account v n (s_p0 (up w))\<rparr>"
  "cch (account v n w) = cch w" "uar (account v n w) = uar w" "client (account v n w) = client w"
  "s_serve_cb (account v n w) = s_serve_cb w"
  by (simp_all add: account_def)

text \<open>The loop over the pending phones calls the callback once per entry, in order.\<close>

definition serve_all :: "(bt_conn \<Rightarrow> u32 \<Rightarrow> 'g \<Rightarrow> 'g) option \<Rightarrow> bt_conn list \<Rightarrow> 'g \<Rightarrow> 'g" where
  "serve_all cb cs g = (case cb of None \<Rightarrow> g | Some f \<Rightarrow> fold (\<lambda>c. f c 0) cs g)"

lemma serve_one_pending_eq: "serve_one_pending c w = w\<lparr>client := serve_all (s_serve_cb w) [c] (client w)\<rparr>"
  by (simp add: serve_one_pending_def serve_all_def split: option.split)

lemma serve_all_Cons: "serve_all cb cs (serve_all cb [c] g) = serve_all cb (c # cs) g"
  by (simp add: serve_all_def split: option.split)

lemma serve_pending_from_eq:
  "n \<le> length (s_pending (up w)) \<Longrightarrow> i \<le> n \<Longrightarrow>
     serve_pending_from i n w =
       w\<lparr>client := serve_all (s_serve_cb w) (drop i (take n (s_pending (up w)))) (client w),
         up := (up w)\<lparr>s_pending := take i (s_pending (up w)) @ replicate (n - i) None @ drop n (s_pending (up w))\<rparr>\<rparr>"
proof (induction i n w rule: serve_pending_from.induct)
  case (1 i n w)
  let ?p = "s_pending (up w)"
  show ?case
  proof (cases "i < n")
    case True
    let ?w = "serve_one_pending (?p ! i) w"
    let ?v = "?w\<lparr>up := (up ?w)\<lparr>s_pending := (s_pending (up ?w))[i := None]\<rparr>\<rparr>"
    have i: "i < length ?p" using True "1.prems" by simp
    have "serve_pending_from i n w = serve_pending_from (Suc i) n ?v"
      using True by (simp add: serve_pending_from.simps [of i] Let_def)
    also have "\<dots> = ?v\<lparr>client := serve_all (s_serve_cb ?v) (drop (Suc i) (take n (s_pending (up ?v)))) (client ?v),
         up := (up ?v)\<lparr>s_pending := take (Suc i) (s_pending (up ?v)) @ replicate (n - Suc i) None @
           drop n (s_pending (up ?v))\<rparr>\<rparr>"
      using "1.IH" [OF True refl refl] True "1.prems" by (simp add: serve_one_pending_eq)
    also have "drop (Suc i) (take n (s_pending (up ?v))) = drop (Suc i) (take n ?p)"
      using True by (simp add: serve_one_pending_eq drop_take)
    also have "take (Suc i) (s_pending (up ?v)) = take i ?p @ [None]"
      using i by (simp add: serve_one_pending_eq)
    also have "drop n (s_pending (up ?v)) = drop n ?p" using True by (simp add: serve_one_pending_eq)
    also have "drop i (take n ?p) = ?p ! i # drop (Suc i) (take n ?p)"
      using True i by (metis Cons_nth_drop_Suc length_take min_less_iff_conj nth_take)
    then have "serve_all (s_serve_cb ?v) (drop (Suc i) (take n ?p)) (client ?v) =
        serve_all (s_serve_cb w) (drop i (take n ?p)) (client w)"
      by (simp add: serve_one_pending_eq serve_all_Cons)
    finally show ?thesis
      using True by (simp add: serve_one_pending_eq Suc_diff_Suc flip: replicate_Suc)
  next
    case False
    with "1.prems" show ?thesis
      by (subst serve_pending_from.simps) (simp add: serve_all_def split: option.split)
  qed
qed

definition pending_phones :: "upstream \<Rightarrow> bt_conn list" where
  "pending_phones u = take (s_pending_count u) (s_pending u)"

lemma serve_pending_phones_eq:
  assumes "s_pending_count (up w) \<le> length (s_pending (up w))"
  shows "serve_pending_phones w =
    w\<lparr>client := serve_all (s_serve_cb w) (pending_phones (up w)) (client w),
      up := (up w)\<lparr>s_pending := replicate (s_pending_count (up w)) None @
                     drop (s_pending_count (up w)) (s_pending (up w)),
                   s_pending_count := 0\<rparr>\<rparr>"
  using assms
  by (simp add: serve_pending_phones_def serve_pending_from_eq pending_phones_def Let_def serve_all_def
      split: option.split)

section \<open>Invariant\<close>

definition phase0_sum :: "phase0_stats \<Rightarrow> u32" where
  "phase0_sum p = my_info_bytes p + deviceuiConfig_bytes p + node_info_bytes p + metadata_bytes p +
     channel_bytes p + config_bytes p + moduleConfig_bytes p + fileInfo_bytes p + queueStatus_bytes p +
     other_bytes p"

definition pending_inv :: "upstream \<Rightarrow> bool" where
  "pending_inv u \<longleftrightarrow> length (s_pending u) = CONFIG_BT_MAX_CONN \<and> s_pending_count u \<le> CONFIG_BT_MAX_CONN \<and>
     distinct (pending_phones u) \<and> None \<notin> set (pending_phones u)"

definition fetching :: "upstream \<Rightarrow> bool" where
  "fetching u \<longleftrightarrow> s_state u = UPSTREAM_FETCHING \<or> s_state u = UPSTREAM_REFETCHING"

definition timers_inv :: "upstream \<Rightarrow> bool" where
  "timers_inv u \<longleftrightarrow> (fetching u \<longleftrightarrow> s_fetch_retry_work u \<noteq> None) \<and>
     (s_keepalive_armed u \<longleftrightarrow> s_keepalive_work u \<noteq> None) \<and>
     (s_state u \<noteq> UPSTREAM_BOOT \<longrightarrow> s_keepalive_armed u)"

definition nonces_inv :: "upstream \<Rightarrow> bool" where
  "nonces_inv u \<longleftrightarrow> s_keepalive_nonce u \<notin> {0, 1} \<and> (s_keepalive_armed u \<longrightarrow> s_nonce u \<notin> {0, 1})"

definition upstream_inv :: "upstream \<Rightarrow> bool" where
  "upstream_inv u \<longleftrightarrow> pending_inv u \<and> timers_inv u \<and> nonces_inv u \<and>
     total_bytes (s_p0 u) = phase0_sum (s_p0 u)"

text \<open>
  The cache is published exactly from the end of the boot fetch on, and no phone is left waiting
  once it is.
\<close>

definition session_inv :: "'g session \<Rightarrow> bool" where
  "session_inv w \<longleftrightarrow> upstream_inv (up w) \<and> cache_inv (cch w) \<and>
     (cache_is_ready (cch w) \<longleftrightarrow> s_state (up w) \<notin> {UPSTREAM_BOOT, UPSTREAM_FETCHING}) \<and>
     (cache_is_ready (cch w) \<longrightarrow> s_pending_count (up w) = 0)"

lemmas session_inv_defs = session_inv_def upstream_inv_def timers_inv_def nonces_inv_def fetching_def

lemma phase0_account_sum:
  "total_bytes p = phase0_sum p \<Longrightarrow> total_bytes (phase0_account v n p) = phase0_sum (phase0_account v n p)"
  by (cases v) (simp_all add: phase0_account_def phase0_sum_def Let_def)

lemma pending_inv_frame [simp]:
  "pending_inv (u\<lparr>s_state := a\<rparr>) = pending_inv u" "pending_inv (u\<lparr>s_nonce := b\<rparr>) = pending_inv u"
  "pending_inv (u\<lparr>s_keepalive_work := c\<rparr>) = pending_inv u"
  "pending_inv (u\<lparr>s_fetch_retry_work := c\<rparr>) = pending_inv u"
  "pending_inv (u\<lparr>s_liveness_work := c\<rparr>) = pending_inv u"
  "pending_inv (u\<lparr>s_keepalive_armed := d\<rparr>) = pending_inv u"
  "pending_inv (u\<lparr>s_keepalive_nonce := b\<rparr>) = pending_inv u"
  "pending_inv (u\<lparr>s_keepalive_pending := d\<rparr>) = pending_inv u"
  "pending_inv (u\<lparr>s_tx_fail_cnt := b\<rparr>) = pending_inv u" "pending_inv (u\<lparr>s_p0 := e\<rparr>) = pending_inv u"
  by (simp_all add: pending_inv_def pending_phones_def)

lemma pending_inv_empty:
  "length (s_pending u) = CONFIG_BT_MAX_CONN \<Longrightarrow> s_pending_count u = 0 \<Longrightarrow> pending_inv u"
  by (simp add: pending_inv_def pending_phones_def)

lemma phase0_reset_sum [simp]:
  "total_bytes (phase0_reset p) = phase0_sum (phase0_reset p)"
  by (simp add: phase0_reset_def phase0_zero_def phase0_sum_def)

lemma phase0_sum_close [simp]: "phase0_sum (p\<lparr>p0_config_complete_id := n\<rparr>) = phase0_sum p"
  by (simp add: phase0_sum_def)

lemma cache_ready_simps [simp]:
  "\<not> cache_is_ready (cache_begin c)" "cache_is_ready (cache_mark_ready c)"
  by (simp_all add: cache_is_ready_def cache_begin_def cache_mark_ready_def)

lemma cache_add_ready [simp]: "cache_is_ready (snd (cache_add f c)) = cache_is_ready c"
  by (simp add: cache_add_def cache_add_frame_def cache_is_ready_def Let_def)

lemma cache_begin_inv' [simp]: "cache_inv c \<Longrightarrow> cache_inv (cache_begin c)"
  using cache_begin_inv(1) cache_inv_sizes by blast

lemma fetch_nonce_ok [simp]: "fetch_nonce r \<noteq> 0" "fetch_nonce r \<noteq> 1"
  by (simp_all add: fetch_nonce_def)

lemma session_static_inv:
  "up w = upstream_static \<Longrightarrow> cch w = cache_static \<Longrightarrow> session_inv w"
proof -
  have "pending_inv upstream_static" by (rule pending_inv_empty) (simp_all add: upstream_static_def)
  moreover have "total_bytes (s_p0 upstream_static) = phase0_sum (s_p0 upstream_static)"
    by (simp add: upstream_static_def phase0_sum_def phase0_zero_def)
  moreover have "\<not> cache_is_ready cache_static" by (simp add: cache_is_ready_def cache_static_def)
  moreover assume "up w = upstream_static" "cch w = cache_static"
  ultimately show ?thesis
    by (simp add: session_inv_def upstream_inv_def cache_static_inv)
      (simp add: upstream_static_def timers_inv_def nonces_inv_def fetching_def)
qed

section \<open>Every operation keeps the invariant\<close>

lemma keepalive_reschedule_inv: "session_inv w \<Longrightarrow> session_inv (upstream_keepalive_reschedule w)"
  by (auto simp: upstream_keepalive_reschedule_def session_inv_defs)

lemma liveness_kick_inv: "session_inv w \<Longrightarrow> session_inv (upstream_liveness_kick w)"
  by (auto simp: upstream_liveness_kick_def session_inv_defs)

lemma swallow_inv: "session_inv w \<Longrightarrow> session_inv (snd (upstream_swallow_live_queuestatus w))"
  by (auto simp: upstream_swallow_live_queuestatus_def session_inv_defs)

lemma keepalive_inv:
  assumes "session_inv w" and "s_keepalive_work (up w) \<noteq> None"
  shows "session_inv (keepalive_work_handler pb (w\<lparr>up := (up w)\<lparr>s_keepalive_work := None\<rparr>\<rparr>))"
  using assms by (auto simp: keepalive_work_handler_def session_inv_defs Let_def split_beta)

lemma fetch_retry_inv:
  assumes "session_inv w" and "s_fetch_retry_work (up w) \<noteq> None"
  shows "session_inv (fetch_retry_handler pb (w\<lparr>up := (up w)\<lparr>s_fetch_retry_work := None\<rparr>\<rparr>))"
  using assms
  by (auto simp: fetch_retry_handler_def fetch_retry_arm_def session_inv_defs Let_def split_beta)

lemma refetch_inv: "session_inv w \<Longrightarrow> session_inv (upstream_refetch pb rnd w)"
  by (auto simp: upstream_refetch_def upstream_keepalive_reschedule_def fetch_retry_arm_def
      session_inv_defs Let_def split_beta)

lemma liveness_inv:
  assumes "session_inv w"
  shows "session_inv (liveness_handler pb rnd (w\<lparr>up := (up w)\<lparr>s_liveness_work := None\<rparr>\<rparr>))"
proof -
  have "session_inv (w\<lparr>up := (up w)\<lparr>s_liveness_work := None\<rparr>\<rparr>)"
    using assms by (auto simp: session_inv_defs)
  then show ?thesis using refetch_inv by (auto simp: liveness_handler_def)
qed

lemma start_session_inv:
  assumes "session_inv w" and "s_state (up w) = UPSTREAM_BOOT"
  shows "session_inv (upstream_session_start pb rnd w)"
  using assms
  by (auto simp: upstream_session_start_def fetch_retry_arm_def session_inv_defs Let_def split_beta
      intro!: pending_inv_empty) (auto simp: pending_inv_def)

lemma pending_inv_park:
  assumes "pending_inv u" and "conn \<noteq> None" and "conn \<notin> set (pending_phones u)"
    and "s_pending_count u < length (s_pending u)"
  shows "pending_inv (u\<lparr>s_pending := (s_pending u)[s_pending_count u := conn],
    s_pending_count := s_pending_count u + 1\<rparr>)"
  using assms by (auto simp: pending_inv_def pending_phones_def)

lemma pending_phone_inv:
  assumes "session_inv w"
  shows "session_inv (upstream_on_pending_phone conn w)"
proof -
  let ?v = "w\<lparr>up := (up w)\<lparr>s_pending := (s_pending (up w))[s_pending_count (up w) := conn],
    s_pending_count := s_pending_count (up w) + 1\<rparr>\<rparr>"
  consider "upstream_on_pending_phone conn w = w"
    | "upstream_on_pending_phone conn w = serve_one_pending conn w"
    | "\<not> cache_is_ready (cch w)" "conn \<noteq> None" "conn \<notin> set (pending_phones (up w))"
      "s_pending_count (up w) < length (s_pending (up w))" "upstream_on_pending_phone conn w = ?v"
    unfolding upstream_on_pending_phone_def pending_phones_def by (meson linorder_not_le)
  then show ?thesis
  proof cases
    case 3
    then have "upstream_inv (up ?v)"
      using assms pending_inv_park [of "up w" conn]
      by (auto simp: session_inv_def upstream_inv_def timers_inv_def nonces_inv_def fetching_def)
    then show ?thesis using assms 3 by (simp add: session_inv_def)
  qed (use assms in \<open>simp_all add: serve_one_pending_eq session_inv_def\<close>)
qed

section \<open>The cases of the receive handler\<close>

definition stored_frame :: "u8 list \<Rightarrow> fromradio_tag \<Rightarrow> 'g session \<Rightarrow> 'g session" where
  "stored_frame payload v w = session_cache_add payload v (account v (length payload) (fetch_retry_arm w))"

definition boot_closed :: "u8 list \<Rightarrow> 'g session \<Rightarrow> 'g session" where
  "boot_closed payload w =
     w\<lparr>cch := cache_mark_ready (cch w),
       client := serve_all (s_serve_cb w) (pending_phones (up w)) (client w),
       up := (up w)\<lparr>s_state := UPSTREAM_LIVE,
         s_pending := replicate (s_pending_count (up w)) None @ drop (s_pending_count (up w)) (s_pending (up w)),
         s_pending_count := 0, s_fetch_retry_work := None,
         s_liveness_work := Some UPSTREAM_LIVENESS_TIMEOUT_MS,
         s_p0 := phase0_account FromRadio_config_complete_id_tag (length payload)
           ((s_p0 (up w))\<lparr>p0_config_complete_id := s_nonce (up w)\<rparr>)\<rparr>\<rparr>"

definition refetch_closed :: "'g session \<Rightarrow> 'g session" where
  "refetch_closed w =
     w\<lparr>up := (up w)\<lparr>s_state := UPSTREAM_LIVE, s_fetch_retry_work := None,
         s_liveness_work := Some UPSTREAM_LIVENESS_TIMEOUT_MS,
         s_p0 := (s_p0 (up w))\<lparr>p0_config_complete_id := s_nonce (up w)\<rparr>\<rparr>\<rparr>"

lemma on_fromradio_not_consumed:
  assumes "\<not> fetching (up w) \<or> which_variant info = FromRadio_packet_tag"
  shows "upstream_on_fromradio pb payload info w = (False, w)"
  using assms by (auto simp: upstream_on_fromradio_def fetching_def)

lemma on_fromradio_stray_close:
  assumes "fetching (up w)" and "which_variant info = FromRadio_config_complete_id_tag"
    and "decode_config_complete_nonce pb payload \<noteq> Some (s_nonce (up w))"
  shows "upstream_on_fromradio pb payload info w =
    (True, stored_frame payload FromRadio_config_complete_id_tag w)"
  using assms
  by (auto simp: upstream_on_fromradio_def fetching_def stored_frame_def fetch_retry_arm_def Let_def
      split: option.split)

lemma on_fromradio_boot_close:
  assumes "s_state (up w) = UPSTREAM_FETCHING" and "which_variant info = FromRadio_config_complete_id_tag"
    and "decode_config_complete_nonce pb payload = Some (s_nonce (up w))" and "pending_inv (up w)"
  shows "upstream_on_fromradio pb payload info w = (True, boot_closed payload w)"
  using assms
  by (simp add: upstream_on_fromradio_def boot_closed_def fetch_retry_arm_def serve_pending_phones_eq
      upstream_liveness_kick_def pending_inv_def pending_phones_def Let_def)

lemma on_fromradio_refetch_close:
  assumes "s_state (up w) = UPSTREAM_REFETCHING" and "which_variant info = FromRadio_config_complete_id_tag"
    and "decode_config_complete_nonce pb payload = Some (s_nonce (up w))"
  shows "upstream_on_fromradio pb payload info w = (True, refetch_closed w)"
  using assms
  by (simp add: upstream_on_fromradio_def refetch_closed_def fetch_retry_arm_def
      upstream_liveness_kick_def Let_def)

definition burst_tag :: "fromradio_tag \<Rightarrow> bool" where
  "burst_tag v \<longleftrightarrow> v \<noteq> FromRadio_packet_tag \<and> v \<noteq> FromRadio_config_complete_id_tag"

lemma on_fromradio_burst:
  assumes "fetching (up w)" and "burst_tag (which_variant info)"
  shows "upstream_on_fromradio pb payload info w =
    (True, if s_state (up w) = UPSTREAM_FETCHING then stored_frame payload (which_variant info) w
           else fetch_retry_arm w)"
  using assms
  by (auto simp: upstream_on_fromradio_def burst_tag_def stored_frame_def fetching_def
      fetch_retry_arm_def Let_def)

lemma stored_frame_inv: "session_inv w \<Longrightarrow> fetching (up w) \<Longrightarrow> session_inv (stored_frame p v w)"
  using cache_log.add_invar [of "cch w" "(v, p)"]
  by (auto simp: stored_frame_def fetch_retry_arm_def session_inv_defs phase0_account_sum)

lemma boot_closed_inv:
  assumes "session_inv w" and "s_state (up w) = UPSTREAM_FETCHING"
  shows "session_inv (boot_closed p w)"
proof -
  have "pending_inv (up (boot_closed p w))"
    using assms by (intro pending_inv_empty) (simp_all add: boot_closed_def session_inv_def
        upstream_inv_def pending_inv_def)
  then show ?thesis
    using assms by (auto simp: boot_closed_def session_inv_defs phase0_account_sum)
qed

lemma on_fromradio_inv:
  assumes "session_inv w"
  shows "session_inv (snd (upstream_on_fromradio pb payload info w))"
proof -
  let ?v = "which_variant info"
  let ?n = "decode_config_complete_nonce pb payload"
  consider "\<not> fetching (up w) \<or> ?v = FromRadio_packet_tag"
    | "fetching (up w)" "burst_tag ?v"
    | "fetching (up w)" "?v = FromRadio_config_complete_id_tag" "?n \<noteq> Some (s_nonce (up w))"
    | "s_state (up w) = UPSTREAM_FETCHING" "?v = FromRadio_config_complete_id_tag" "?n = Some (s_nonce (up w))"
    | "s_state (up w) = UPSTREAM_REFETCHING" "?v = FromRadio_config_complete_id_tag" "?n = Some (s_nonce (up w))"
    unfolding fetching_def burst_tag_def by blast
  then show ?thesis
  proof cases
    case 1
    with assms show ?thesis by (simp add: on_fromradio_not_consumed)
  next
    case 2
    with assms show ?thesis
      by (auto simp: on_fromradio_burst stored_frame_inv)
        (auto simp: fetch_retry_arm_def session_inv_defs)
  next
    case 3
    with assms show ?thesis by (simp add: on_fromradio_stray_close stored_frame_inv)
  next
    case 4
    moreover have "pending_inv (up w)" using assms by (simp add: session_inv_def upstream_inv_def)
    ultimately show ?thesis using assms by (simp add: on_fromradio_boot_close boot_closed_inv)
  next
    case 5
    with assms show ?thesis
      by (auto simp: on_fromradio_refetch_close) (auto simp: refetch_closed_def session_inv_defs)
  qed
qed

section \<open>The session as a transition system\<close>

datatype session_event =
    Ev_start u32 | Ev_frame "u8 list" fromradio_info | Ev_phone bt_conn | Ev_keepalive | Ev_fetch_retry
  | Ev_liveness u32 | Ev_refetch u32 | Ev_queuestatus | Ev_live_frame | Ev_toradio_sent

text \<open>
  Every entry point of the module, in any order. The session is started once; a timer fires only
  while its work item is scheduled, and a delayable work item is no longer scheduled when its
  handler runs.
\<close>

inductive session_step :: "nanopb \<Rightarrow> 'g session \<Rightarrow> session_event \<Rightarrow> 'g session \<Rightarrow> bool" for pb where
  start: "s_state (up w) = UPSTREAM_BOOT \<Longrightarrow>
    session_step pb w (Ev_start rnd) (upstream_session_start pb rnd w)"
| frame: "session_step pb w (Ev_frame p info) (snd (upstream_on_fromradio pb p info w))"
| phone: "session_step pb w (Ev_phone conn) (upstream_on_pending_phone conn w)"
| keepalive: "s_keepalive_work (up w) \<noteq> None \<Longrightarrow>
    session_step pb w Ev_keepalive (keepalive_work_handler pb (w\<lparr>up := (up w)\<lparr>s_keepalive_work := None\<rparr>\<rparr>))"
| fetch_retry: "s_fetch_retry_work (up w) \<noteq> None \<Longrightarrow>
    session_step pb w Ev_fetch_retry (fetch_retry_handler pb (w\<lparr>up := (up w)\<lparr>s_fetch_retry_work := None\<rparr>\<rparr>))"
| liveness: "s_liveness_work (up w) \<noteq> None \<Longrightarrow>
    session_step pb w (Ev_liveness rnd) (liveness_handler pb rnd (w\<lparr>up := (up w)\<lparr>s_liveness_work := None\<rparr>\<rparr>))"
| refetch: "session_step pb w (Ev_refetch rnd) (upstream_refetch pb rnd w)"
| queuestatus: "session_step pb w Ev_queuestatus (snd (upstream_swallow_live_queuestatus w))"
| live_frame: "session_step pb w Ev_live_frame (upstream_liveness_kick w)"
| toradio_sent: "session_step pb w Ev_toradio_sent (upstream_keepalive_reschedule w)"

definition session_boot :: "'g session \<Rightarrow> bool" where
  "session_boot w \<longleftrightarrow> up w = upstream_static \<and> cch w = cache_static \<and> uar w = uart_static"

interpretation session_system: safe_system session_boot "session_step pb" session_inv
proof
  fix w :: "'g session"
  show "session_inv w" if "session_boot w" using that session_static_inv [of w] by (simp add: session_boot_def)
  fix e v
  assume inv: "session_inv w" and "session_step pb w e v"
  from this(2) show "session_inv v"
    by cases (use inv in \<open>simp_all add: start_session_inv on_fromradio_inv pending_phone_inv keepalive_inv
        fetch_retry_inv liveness_inv refetch_inv swallow_inv liveness_kick_inv keepalive_reschedule_inv\<close>)
qed

definition sample_session :: "'g \<Rightarrow> (bt_conn \<Rightarrow> u32 \<Rightarrow> 'g \<Rightarrow> 'g) option \<Rightarrow> 'g session" where
  "sample_session g cb = \<lparr>up = upstream_static, cch = cache_static, uar = uart_static, client = g, s_serve_cb = cb\<rparr>"

lemma sample_session_boot: "session_boot (sample_session g cb)"
  by (simp add: session_boot_def sample_session_def)

lemma sample_session_inv: "session_inv (sample_session g cb)"
  by (rule session_static_inv) (simp_all add: sample_session_def)

text \<open>
  C16: in every state the session can reach, whatever the order of frames, phones, timer
  expirations and transmit failures: a fetch in progress always has the retry watchdog scheduled
  and no other state has; after the start the keepalive is always scheduled; the fetch nonce and
  the keepalive nonce are never 0 or 1; the cache is published exactly outside BOOT and FETCHING
  and then no phone is left waiting; at most six distinct phones wait; the per-variant byte
  counters add up to the total.
\<close>

theorem session_reachable_safe:
  assumes "reachable session_boot (session_step pb) w"
  shows "(s_state (up w) \<in> {UPSTREAM_FETCHING, UPSTREAM_REFETCHING} \<longleftrightarrow> s_fetch_retry_work (up w) \<noteq> None) \<and>
    (s_state (up w) \<noteq> UPSTREAM_BOOT \<longrightarrow> s_keepalive_work (up w) \<noteq> None \<and> s_nonce (up w) \<notin> {0, 1}) \<and>
    s_keepalive_nonce (up w) \<notin> {0, 1} \<and>
    (cache_is_ready (cch w) \<longleftrightarrow> s_state (up w) \<notin> {UPSTREAM_BOOT, UPSTREAM_FETCHING}) \<and>
    (cache_is_ready (cch w) \<longrightarrow> s_pending_count (up w) = 0) \<and>
    s_pending_count (up w) \<le> 6 \<and> distinct (pending_phones (up w)) \<and> None \<notin> set (pending_phones (up w)) \<and>
    total_bytes (s_p0 (up w)) = phase0_sum (s_p0 (up w))"
  using session_system.reachable_inv [OF assms]
  by (auto simp: session_inv_defs pending_inv_def layout_consts)

theorem session_reachable_safe_witness:
  "\<exists>w :: unit session. reachable session_boot (session_step sample_pb) w \<and>
     s_state (up w) = UPSTREAM_FETCHING \<and> s_fetch_retry_work (up w) \<noteq> None"
proof -
  let ?w = "upstream_session_start sample_pb 5 (sample_session () None)"
  have "session_step sample_pb (sample_session () None) (Ev_start 5) ?w"
    by (rule session_step.start) (simp add: sample_session_def upstream_static_def)
  then have r: "reachable session_boot (session_step sample_pb) ?w"
    using reach_start [of session_boot, OF sample_session_boot] reach_step by metis
  have st: "s_state (up ?w) = UPSTREAM_FETCHING"
    by (simp add: upstream_session_start_def sample_pb_def want_config_msg_def fetch_retry_arm_def
        Let_def split_beta)
  from session_reachable_safe [OF r] st show ?thesis using r by blast
qed

section \<open>The boot fetch\<close>

text \<open>Frames of the burst and phones that ask for the config, interleaved.\<close>

type_synonym boot_event = "(u8 list \<times> fromradio_info) + bt_conn"

fun boot_run :: "nanopb \<Rightarrow> boot_event list \<Rightarrow> 'g session \<Rightarrow> 'g session" where
  "boot_run pb [] w = w"
| "boot_run pb (Inl (p, info) # es) w = boot_run pb es (snd (upstream_on_fromradio pb p info w))"
| "boot_run pb (Inr conn # es) w = boot_run pb es (upstream_on_pending_phone conn w)"

fun boot_frames :: "boot_event list \<Rightarrow> frame list" where
  "boot_frames [] = []"
| "boot_frames (Inl (p, info) # es) = (which_variant info, p) # boot_frames es"
| "boot_frames (Inr conn # es) = boot_frames es"

text \<open>The phones waiting after the events, given those waiting before.\<close>

fun parked :: "bt_conn list \<Rightarrow> boot_event list \<Rightarrow> bt_conn list" where
  "parked ps [] = ps"
| "parked ps (Inl f # es) = parked ps es"
| "parked ps (Inr conn # es) =
     parked (if conn = None \<or> conn \<in> set ps \<or> length ps \<ge> 6 then ps else ps @ [conn]) es"

definition boot_fetching :: "u32 \<Rightarrow> frame list \<Rightarrow> bt_conn list \<Rightarrow> 'g session \<Rightarrow> 'g session \<Rightarrow> bool" where
  "boot_fetching nonce fs ps w0 w \<longleftrightarrow> session_inv w \<and> s_state (up w) = UPSTREAM_FETCHING \<and>
     s_nonce (up w) = nonce \<and> frames (cch w) = fs \<and> pending_phones (up w) = ps \<and>
     client w = client w0 \<and> s_serve_cb w = s_serve_cb w0"

lemma boot_start:
  assumes "session_inv w" and "s_state (up w) = UPSTREAM_BOOT"
    and "fst (pb_encode_toradio pb (want_config_msg (fetch_nonce rnd)) (pb_toradio_size pb))"
  shows "boot_fetching (fetch_nonce rnd) [] [] w (upstream_session_start pb rnd w)"
proof -
  have "frames (cache_begin (cch w)) = []"
    using assms(1) cache_begin_inv(2) cache_inv_sizes by (auto simp: session_inv_def)
  then show ?thesis
    using start_session_inv [OF assms(1,2)] assms(3)
    by (simp add: boot_fetching_def)
      (simp add: upstream_session_start_def fetch_retry_arm_def pending_phones_def Let_def split_beta)
qed

lemma boot_frame_step:
  assumes "boot_fetching nonce fs ps w0 w" and "burst_tag (which_variant info)"
  shows "fst (upstream_on_fromradio pb p info w)"
    and "boot_fetching nonce (if frame_fits fs (which_variant info, p) then fs @ [(which_variant info, p)] else fs)
      ps w0 (snd (upstream_on_fromradio pb p info w))"
proof -
  have st: "fetching (up w)" "s_state (up w) = UPSTREAM_FETCHING" "session_inv w" "frames (cch w) = fs"
    using assms(1) by (simp_all add: boot_fetching_def fetching_def)
  have run: "upstream_on_fromradio pb p info w = (True, stored_frame p (which_variant info) w)"
    using on_fromradio_burst [OF st(1) assms(2)] st(2) by simp
  then show "fst (upstream_on_fromradio pb p info w)" by simp
  have "cache_inv (cch w)" using st(3) by (simp add: session_inv_def)
  then have "frames (cch (stored_frame p (which_variant info) w)) =
      (if frame_fits fs (which_variant info, p) then fs @ [(which_variant info, p)] else fs)"
    using st(4) by (simp add: stored_frame_def fetch_retry_arm_def cache_log.contents_add)
  then show "boot_fetching nonce (if frame_fits fs (which_variant info, p) then fs @ [(which_variant info, p)] else fs)
      ps w0 (snd (upstream_on_fromradio pb p info w))"
    using assms(1) stored_frame_inv [OF st(3,1), of p "which_variant info"] run
    by (simp add: boot_fetching_def) (simp add: stored_frame_def fetch_retry_arm_def pending_phones_def)
qed

lemma boot_phone_step:
  assumes "boot_fetching nonce fs ps w0 w"
  shows "boot_fetching nonce fs (if conn = None \<or> conn \<in> set ps \<or> length ps \<ge> 6 then ps else ps @ [conn]) w0
    (upstream_on_pending_phone conn w)"
proof -
  have "session_inv w" "\<not> cache_is_ready (cch w)" "pending_inv (up w)"
    using assms by (simp_all add: boot_fetching_def session_inv_def upstream_inv_def)
  then show ?thesis
    using assms pending_phone_inv [of w conn]
    by (auto simp: boot_fetching_def upstream_on_pending_phone_def pending_phones_def pending_inv_def
        layout_consts)
qed

lemma boot_run_fetching:
  assumes "boot_fetching nonce fs ps w0 w"
    and "\<forall>p info. Inl (p, info) \<in> set es \<longrightarrow> burst_tag (which_variant info)"
  shows "boot_fetching nonce (fs @ accepted frame_fits fs (boot_frames es)) (parked ps es) w0 (boot_run pb es w)"
  using assms
proof (induction pb es w arbitrary: fs ps rule: boot_run.induct)
  case (2 pb p info es w)
  have t: "burst_tag (which_variant info)" using "2.prems"(2) by auto
  from "2.IH" [OF boot_frame_step(2) [OF "2.prems"(1) t]] "2.prems"(2) show ?case
    by (simp split: if_splits)
next
  case (3 pb conn es w)
  from "3.IH" [OF boot_phone_step [OF "3.prems"(1)]] "3.prems"(2) show ?case by simp
qed simp



section \<open>What the session consumes\<close>

text \<open>
  C29: the session takes a frame exactly when a fetch is in progress and the frame is not live
  mesh traffic; a frame it does not take changes nothing. A closing frame that is malformed or
  carries another nonce never ends the fetch: it is consumed and appended to the cache like any
  other frame (also while REFETCHING, when the cache is already published), and the state, the
  nonce and the publication stay as they were.
\<close>

theorem session_consumes_fetch_frames:
  assumes "session_inv w" and "upstream_on_fromradio pb payload info w = (b, w')"
  shows "(b \<longleftrightarrow> s_state (up w) \<in> {UPSTREAM_FETCHING, UPSTREAM_REFETCHING} \<and>
      which_variant info \<noteq> FromRadio_packet_tag) \<and>
    (\<not> b \<longrightarrow> w' = w) \<and>
    (b \<and> which_variant info = FromRadio_config_complete_id_tag \<and>
       decode_config_complete_nonce pb payload \<noteq> Some (s_nonce (up w)) \<longrightarrow>
     s_state (up w') = s_state (up w) \<and> s_nonce (up w') = s_nonce (up w) \<and>
     cache_is_ready (cch w') = cache_is_ready (cch w) \<and>
     s_fetch_retry_work (up w') = Some 2000 \<and>
     frames (cch w') = (if frame_fits (frames (cch w)) (which_variant info, payload)
       then frames (cch w) @ [(which_variant info, payload)] else frames (cch w)))"
proof (intro conjI impI)
  have pend: "pending_inv (up w)" using assms(1) by (simp add: session_inv_def upstream_inv_def)
  show iff: "b \<longleftrightarrow> s_state (up w) \<in> {UPSTREAM_FETCHING, UPSTREAM_REFETCHING} \<and>
      which_variant info \<noteq> FromRadio_packet_tag"
    using assms(2) by (auto simp: upstream_on_fromradio_def Let_def split: if_splits option.splits)
  show "w' = w" if "\<not> b"
    using that iff assms(2) on_fromradio_not_consumed [of w info pb payload] by (auto simp: fetching_def)
  assume stray: "b \<and> which_variant info = FromRadio_config_complete_id_tag \<and>
       decode_config_complete_nonce pb payload \<noteq> Some (s_nonce (up w))"
  then have w': "w' = stored_frame payload (which_variant info) w"
    using on_fromradio_stray_close [of w info pb payload] iff assms(2) by (auto simp: fetching_def)
  have inv: "cache_inv (cch w)" using assms(1) by (simp add: session_inv_def)
  show "s_state (up w') = s_state (up w)" "s_nonce (up w') = s_nonce (up w)"
    "cache_is_ready (cch w') = cache_is_ready (cch w)" "s_fetch_retry_work (up w') = Some 2000"
    by (simp_all add: w' stored_frame_def fetch_retry_arm_def UPSTREAM_FETCH_RETRY_MS_def)
  show "frames (cch w') = (if frame_fits (frames (cch w)) (which_variant info, payload)
       then frames (cch w) @ [(which_variant info, payload)] else frames (cch w))"
    by (simp add: w' stored_frame_def fetch_retry_arm_def cache_log.contents_add [OF inv])
qed

text \<open>A session whose fetch has been closed, and one that is fetching again.\<close>

definition sample_live :: "unit session" where
  "sample_live = boot_closed [7, 5] (upstream_session_start sample_pb 5 (sample_session () None))"

lemma sample_started:
  "boot_fetching 5 [] [] (sample_session () None) (upstream_session_start sample_pb 5 (sample_session () None))"
  using boot_start [OF sample_session_inv, of "()" None sample_pb 5]
  by (simp add: sample_session_def upstream_static_def sample_pb_def want_config_msg_def fetch_nonce_def)

lemma sample_started_msgq:
  "tx_msgq (uar (upstream_session_start sample_pb 5 (sample_session () None))) = [[3, 5]]"
  by (simp add: upstream_session_start_def sample_pb_def want_config_msg_def fetch_retry_arm_def
      fetch_nonce_def Let_def split_beta uart_meshtastic_tx_def sample_session_def uart_static_def layout_consts)

lemma sample_live_facts:
  "session_inv sample_live" "s_state (up sample_live) = UPSTREAM_LIVE" "frames (cch sample_live) = []"
  "tx_msgq (uar sample_live) = [[3, 5]]"
  "s_liveness_work (up sample_live) = Some UPSTREAM_LIVENESS_TIMEOUT_MS"
  using sample_started boot_closed_inv sample_started_msgq
  by (auto simp: sample_live_def boot_fetching_def) (simp_all add: boot_closed_def)

theorem session_consumes_fetch_frames_witness:
  "\<not> fst (upstream_on_fromradio sample_pb [3] (fromradio_info_zero\<lparr>which_variant := FromRadio_my_info_tag\<rparr>) sample_live)"
proof -
  let ?i = "fromradio_info_zero\<lparr>which_variant := FromRadio_my_info_tag\<rparr>"
  obtain b w where run: "upstream_on_fromradio sample_pb [3] ?i sample_live = (b, w)" by fastforce
  from session_consumes_fetch_frames [OF sample_live_facts(1) run] show ?thesis
    by (simp add: run sample_live_facts)
qed

section \<open>Recovery\<close>

lemma send_want_config_ok:
  assumes "pb_encode_toradio pb (want_config_msg nonce) (pb_toradio_size pb) = (True, bytes)"
    and "tx_fits (tx_msgq (uar w)) bytes"
  shows "fst (send_want_config pb nonce w) = OK"
    and "tx_msgq (uar (snd (send_want_config pb nonce w))) = tx_msgq (uar w) @ [bytes]"
  using assms
  by (simp_all add: send_want_config_def session_tx_def uart_meshtastic_tx_def tx_fits_def layout_consts)

lemma send_want_config_full:
  assumes "TX_QUEUE_DEPTH \<le> length (tx_msgq (uar w))"
  shows "fst (send_want_config pb nonce w) \<noteq> OK"
  using assms by (simp add: send_want_config_def session_tx_def uart_meshtastic_tx_def split_beta Let_def)

fun absorb :: "nanopb \<Rightarrow> (u8 list \<times> fromradio_info) list \<Rightarrow> 'g session \<Rightarrow> bool list \<times> 'g session" where
  "absorb pb [] w = ([], w)"
| "absorb pb ((p, info) # fs) w =
     (let (b, w) = upstream_on_fromradio pb p info w; (bs, w) = absorb pb fs w in (b # bs, w))"

lemma absorb_refetch:
  assumes "s_state (up w) = UPSTREAM_REFETCHING" and "\<forall>(p, info) \<in> set fs. burst_tag (which_variant info)"
    and "s_fetch_retry_work (up w) = Some UPSTREAM_FETCH_RETRY_MS"
  shows "absorb pb fs w = (replicate (length fs) True, w)"
  using assms
proof (induction fs)
  case (Cons f fs)
  obtain p info where f: "f = (p, info)" by (cases f)
  have "upstream_on_fromradio pb p info w = (True, w)"
    using on_fromradio_burst [of w info pb p] Cons.prems f by (simp add: fetching_def fetch_retry_arm_def)
  with Cons f show ?case by simp
qed simp

text \<open>
  C28: a recovery fetch leaves the phones alone: if the request can be queued, the frames of the
  new burst and the closing frame with the new nonce are all consumed, the session is LIVE again
  with the cache byte for byte as it was, nothing of the phones' state is touched, and exactly one
  request, with a nonce that is neither 0 nor 1, has gone to the node.
\<close>

theorem refetch_keeps_cache:
  assumes "s_state (up w) = UPSTREAM_LIVE"
    and "pb_encode_toradio pb (want_config_msg (fetch_nonce rnd)) (pb_toradio_size pb) = (True, bytes)"
    and "tx_fits (tx_msgq (uar w)) bytes"
    and "\<forall>(p, info) \<in> set burst. burst_tag (which_variant info)"
    and "which_variant cinfo = FromRadio_config_complete_id_tag"
    and "decode_config_complete_nonce pb close = Some (fetch_nonce rnd)"
    and "absorb pb burst (upstream_refetch pb rnd w) = (bs, v)"
    and "upstream_on_fromradio pb close cinfo v = (b, w')"
  shows "bs = replicate (length burst) True \<and> b \<and> s_state (up w') = UPSTREAM_LIVE \<and>
    cch w' = cch w \<and> client w' = client w \<and> tx_msgq (uar w') = tx_msgq (uar w) @ [bytes] \<and>
    s_fetch_retry_work (up w') = None \<and> s_liveness_work (up w') = Some 1800000 \<and> fetch_nonce rnd \<notin> {0, 1}"
proof -
  let ?u = "upstream_refetch pb rnd w"
  have u: "s_state (up ?u) = UPSTREAM_REFETCHING \<and> cch ?u = cch w \<and> client ?u = client w \<and>
      tx_msgq (uar ?u) = tx_msgq (uar w) @ [bytes] \<and> s_nonce (up ?u) = fetch_nonce rnd \<and>
      s_fetch_retry_work (up ?u) = Some UPSTREAM_FETCH_RETRY_MS"
    using assms(1) send_want_config_ok [OF assms(2), of "w\<lparr>up := (up w)\<lparr>s_nonce := fetch_nonce rnd\<rparr>\<rparr>"] assms(3)
    by (simp add: upstream_refetch_def fetch_retry_arm_def upstream_keepalive_reschedule_def Let_def split_beta)
  then have "bs = replicate (length burst) True" "v = ?u"
    using absorb_refetch [OF _ assms(4), of ?u pb] assms(7) by auto
  moreover have "(b, w') = (True, refetch_closed ?u)"
    using on_fromradio_refetch_close [of ?u cinfo pb close, OF _ assms(5)] u assms(6,8) \<open>v = ?u\<close> by simp
  ultimately show ?thesis using u by (simp add: refetch_closed_def UPSTREAM_LIVENESS_TIMEOUT_MS_def)
qed

theorem refetch_keeps_cache_witness:
  "\<exists>v w'. absorb sample_pb [([3, 1], fromradio_info_zero\<lparr>which_variant := FromRadio_my_info_tag\<rparr>)]
      (upstream_refetch sample_pb 6 sample_live) = ([True], v) \<and>
    upstream_on_fromradio sample_pb [7, 6] (fromradio_info_zero\<lparr>which_variant := FromRadio_config_complete_id_tag\<rparr>) v
      = (True, w') \<and> cch w' = cch sample_live \<and> tx_msgq (uar w') = [[3, 5], [3, 6]]"
proof -
  let ?b = "[([3, 1], fromradio_info_zero\<lparr>which_variant := FromRadio_my_info_tag\<rparr>)] :: (u8 list \<times> fromradio_info) list"
  let ?i = "fromradio_info_zero\<lparr>which_variant := FromRadio_config_complete_id_tag\<rparr>"
  obtain bs v where a: "absorb sample_pb ?b (upstream_refetch sample_pb 6 sample_live) = (bs, v)" by fastforce
  obtain b w' where c: "upstream_on_fromradio sample_pb [7, 6] ?i v = (b, w')" by fastforce
  have n: "fetch_nonce 6 = 6" by (simp add: fetch_nonce_def)
  have enc: "pb_encode_toradio sample_pb (want_config_msg (fetch_nonce 6)) (pb_toradio_size sample_pb) = (True, [3, 6])"
    by (simp add: sample_pb_def want_config_msg_def n)
  have fits: "tx_fits (tx_msgq (uar sample_live)) [3, 6]"
    by (simp add: sample_live_facts tx_fits_def layout_consts)
  have dec: "decode_config_complete_nonce sample_pb [7, 6] = Some (fetch_nonce 6)"
    by (simp add: sample_pb_def decode_config_complete_nonce_def config_complete_msg_def n)
  have tags: "\<forall>(p, info) \<in> set ?b. burst_tag (which_variant info)" by (simp add: burst_tag_def)
  from refetch_keeps_cache [OF sample_live_facts(2) enc fits tags _ dec a c] a c show ?thesis
    by (simp add: sample_live_facts)
qed

text \<open>
  C32: when the liveness watchdog fires and the request cannot be queued, the session stays LIVE
  with a new nonce and with neither the liveness watchdog nor the retry watchdog scheduled: no
  timer of the module will try again until a frame arrives from the node that was presumed dead.
\<close>

theorem refetch_failure_leaves_no_watchdog:
  assumes "session_inv w" and "s_state (up w) = UPSTREAM_LIVE"
    and "4 \<le> length (tx_msgq (uar w))"
    and "w' = liveness_handler pb rnd (w\<lparr>up := (up w)\<lparr>s_liveness_work := None\<rparr>\<rparr>)"
  shows "s_state (up w') = UPSTREAM_LIVE \<and> s_nonce (up w') = fetch_nonce rnd \<and>
    s_liveness_work (up w') = None \<and> s_fetch_retry_work (up w') = None \<and> cch w' = cch w"
proof -
  let ?v = "w\<lparr>up := (up w)\<lparr>s_liveness_work := None, s_nonce := fetch_nonce rnd\<rparr>\<rparr>"
  have "fst (send_want_config pb (fetch_nonce rnd) ?v) \<noteq> OK"
    by (rule send_want_config_full) (use assms(3) in \<open>simp add: layout_consts\<close>)
  then show ?thesis
    using assms by (simp add: liveness_handler_def upstream_refetch_def Let_def split_beta session_inv_defs)
qed

definition sample_full :: "unit session" where
  "sample_full = sample_live\<lparr>uar := uart_static\<lparr>tx_msgq := [[1], [2], [3], [4]]\<rparr>\<rparr>"

theorem refetch_failure_leaves_no_watchdog_witness:
  "s_state (up (liveness_handler sample_pb 8 (sample_full\<lparr>up := (up sample_full)\<lparr>s_liveness_work := None\<rparr>\<rparr>))) =
     UPSTREAM_LIVE \<and>
   s_liveness_work (up (liveness_handler sample_pb 8 (sample_full\<lparr>up := (up sample_full)\<lparr>s_liveness_work := None\<rparr>\<rparr>))) = None"
proof -
  have inv: "session_inv sample_full" and st: "s_state (up sample_full) = UPSTREAM_LIVE"
    and q: "4 \<le> length (tx_msgq (uar sample_full))"
    using sample_live_facts(1,2) by (simp_all add: sample_full_def session_inv_def)
  from refetch_failure_leaves_no_watchdog [OF inv st q refl] show ?thesis by blast
qed

text \<open>
  C30: a stalled fetch is retried for as long as it takes: each expiry of the watchdog schedules
  the next, keeps the state and the nonce, and, when the request fits in the queue, sends the same
  request again; the boot fetch restarts from an empty cache, the recovery fetch keeps the
  published one.
\<close>

theorem fetch_retry_resends:
  assumes "session_inv w" and "s_state (up w) \<in> {UPSTREAM_FETCHING, UPSTREAM_REFETCHING}"
    and "pb_encode_toradio pb (want_config_msg (s_nonce (up w))) (pb_toradio_size pb) = (True, bytes)"
    and "w' = fetch_retry_handler pb (w\<lparr>up := (up w)\<lparr>s_fetch_retry_work := None\<rparr>\<rparr>)"
  shows "s_state (up w') = s_state (up w) \<and> s_nonce (up w') = s_nonce (up w) \<and>
    s_fetch_retry_work (up w') = Some 2000 \<and>
    (tx_fits (tx_msgq (uar w)) bytes \<longrightarrow> tx_msgq (uar w') = tx_msgq (uar w) @ [bytes]) \<and>
    (if s_state (up w) = UPSTREAM_FETCHING then frames (cch w') = [] else cch w' = cch w)"
proof -
  let ?v = "w\<lparr>up := (up w)\<lparr>s_fetch_retry_work := None\<rparr>\<rparr>"
  let ?r = "if s_state (up w) = UPSTREAM_FETCHING
    then ?v\<lparr>cch := cache_begin (cch w), up := (up ?v)\<lparr>s_p0 := phase0_reset (s_p0 (up w))\<rparr>\<rparr> else ?v"
  have w': "w' = fetch_retry_arm (snd (send_want_config pb (s_nonce (up w)) ?r))"
    using assms(2) by (auto simp: assms(4) fetch_retry_handler_def Let_def split_beta)
  have "frames (cache_begin (cch w)) = []"
    using assms(1) cache_begin_inv(2) cache_inv_sizes by (auto simp: session_inv_def)
  moreover have "tx_fits (tx_msgq (uar w)) bytes \<longrightarrow> tx_msgq (uar w') = tx_msgq (uar w) @ [bytes]"
    using send_want_config_ok(2) [OF assms(3), of ?r] by (simp add: w' fetch_retry_arm_def)
  ultimately show ?thesis
    by (simp add: w' fetch_retry_arm_def UPSTREAM_FETCH_RETRY_MS_def)
qed

theorem fetch_retry_resends_witness:
  "tx_msgq (uar (fetch_retry_handler sample_pb
     ((upstream_session_start sample_pb 5 (sample_session () None))\<lparr>up :=
        (up (upstream_session_start sample_pb 5 (sample_session () None)))\<lparr>s_fetch_retry_work := None\<rparr>\<rparr>)))
   = [[3, 5], [3, 5]]"
proof -
  let ?w = "upstream_session_start sample_pb 5 (sample_session () None)"
  have w: "session_inv ?w" "s_state (up ?w) \<in> {UPSTREAM_FETCHING, UPSTREAM_REFETCHING}" "s_nonce (up ?w) = 5"
    using sample_started by (simp_all add: boot_fetching_def)
  have enc: "pb_encode_toradio sample_pb (want_config_msg (s_nonce (up ?w))) (pb_toradio_size sample_pb) = (True, [3, 5])"
    unfolding w(3) by (simp add: sample_pb_def want_config_msg_def)
  from fetch_retry_resends [OF w(1,2) enc refl] show ?thesis
    unfolding sample_started_msgq by (simp add: tx_fits_def layout_consts)
qed

section \<open>Keepalive\<close>

text \<open>
  C31: when the keepalive fires, the heartbeat is queued for the node if the queue has room, the
  next one is five minutes away, and exactly the first queueStatus that follows is kept from the
  phones; if the queue is full nothing is sent, no queueStatus will be swallowed, the failure is
  counted and the retry is twenty seconds away.
\<close>

theorem keepalive_heartbeat:
  assumes "pb_encode_toradio pb (heartbeat_msg (s_keepalive_nonce (up w))) 16 = (True, bytes)"
    and "length bytes \<le> 16"
    and "w' = keepalive_work_handler pb (w\<lparr>up := (up w)\<lparr>s_keepalive_work := None\<rparr>\<rparr>)"
  shows "if length (tx_msgq (uar w)) < 4
    then tx_msgq (uar w') = tx_msgq (uar w) @ [bytes] \<and> s_keepalive_work (up w') = Some 300000 \<and>
      s_tx_fail_cnt (up w') = 0 \<and> fst (upstream_swallow_live_queuestatus w') \<and>
      \<not> fst (upstream_swallow_live_queuestatus (snd (upstream_swallow_live_queuestatus w')))
    else uar w' = uar w \<and> s_keepalive_work (up w') = Some 20000 \<and>
      s_tx_fail_cnt (up w') = s_tx_fail_cnt (up w) + 1 \<and> \<not> fst (upstream_swallow_live_queuestatus w')"
proof -
  have enc: "proto_encode_heartbeat pb (s_keepalive_nonce (up w)) (replicate 16 0) 16 0 =
      (OK, memcpy_at (replicate 16 0) 0 bytes, length bytes)"
    using assms(1,2) by (simp add: proto_encode_heartbeat_def encode_result_def)
  have bytes: "take (length bytes) (memcpy_at (replicate 16 0) 0 bytes) = bytes" by simp
  show ?thesis
    using assms(2)
    by (simp add: assms(3) keepalive_work_handler_def enc bytes Let_def split_beta uart_meshtastic_tx_def
        layout_consts upstream_swallow_live_queuestatus_def UPSTREAM_KEEPALIVE_MS_def
        UPSTREAM_KEEPALIVE_RETRY_MS_def)
qed

theorem keepalive_heartbeat_witness:
  "tx_msgq (uar (keepalive_work_handler sample_pb
     (sample_live\<lparr>up := (up sample_live)\<lparr>s_keepalive_work := None\<rparr>\<rparr>))) = [[3, 5], [7, 2]]"
proof -
  have "s_keepalive_nonce (up sample_live) = 2"
    by (simp add: sample_live_def boot_closed_def upstream_session_start_def Let_def split_beta
        fetch_retry_arm_def sample_session_def upstream_static_def)
  then have enc: "pb_encode_toradio sample_pb (heartbeat_msg (s_keepalive_nonce (up sample_live))) 16 = (True, [7, 2])"
    by (simp add: sample_pb_def heartbeat_msg_def)
  from keepalive_heartbeat [OF enc _ refl] show ?thesis by (simp add: sample_live_facts)
qed

section \<open>The replay callback\<close>

text \<open>
  What the session relies on when it serves the waiting phones through the registered function:
  serving a connected phone arms its replay and leaves every other phone's replay and the set of
  connected phones alone.
\<close>

locale serve_callback =
  fixes cb :: "bt_conn \<Rightarrow> u32 \<Rightarrow> 'g \<Rightarrow> 'g"
    and ginv :: "'g \<Rightarrow> bool"
    and tracked :: "'g \<Rightarrow> bt_conn \<Rightarrow> bool"
    and served :: "'g \<Rightarrow> bt_conn \<Rightarrow> bool"
  assumes cb_ginv: "ginv g \<Longrightarrow> ginv (cb c n g)"
    and cb_tracked: "ginv g \<Longrightarrow> tracked (cb c n g) d = tracked g d"
    and cb_serves: "ginv g \<Longrightarrow> tracked g c \<Longrightarrow> served (cb c n g) c"
    and cb_others: "ginv g \<Longrightarrow> d \<noteq> c \<Longrightarrow> served (cb c n g) d = served g d"
begin

lemma served_stays: "ginv g \<Longrightarrow> tracked g d \<Longrightarrow> served g d \<Longrightarrow> served (cb c n g) d"
  using cb_serves cb_others by (cases "d = c") blast+

lemma serve_all_serves:
  assumes "ginv g" and "tracked g c"
  shows "ginv (serve_all (Some cb) cs g) \<and> tracked (serve_all (Some cb) cs g) c \<and>
    (c \<in> set cs \<or> served g c \<longrightarrow> served (serve_all (Some cb) cs g) c)"
  using assms
proof (induction cs arbitrary: g)
  case (Cons d cs)
  let ?h = "cb d 0 g"
  have h: "ginv ?h" "tracked ?h c" using Cons.prems cb_ginv cb_tracked by blast+
  have "served ?h c" if "c = d \<or> served g c" using that Cons.prems cb_serves served_stays by blast
  with Cons.IH [OF h] show ?case by (auto simp: serve_all_def)
qed (simp add: serve_all_def)

lemma serve_all_others:
  assumes "ginv g" and "d \<notin> set cs"
  shows "served (serve_all (Some cb) cs g) d = served g d"
  using assms by (induction cs arbitrary: g) (auto simp: serve_all_def cb_ginv cb_others)

end

section \<open>The session as a config service\<close>

text \<open>
  What the session promises to the rest of the firmware, without nonces, timers and buffers: it
  fills the config once, publishes it, and from then on only recovers the link; what it has
  published never changes.
\<close>

datatype service_phase = Starting | Filling | Serving | Recovering

type_synonym config_service = "service_phase \<times> frame list option"

inductive service_step :: "config_service \<Rightarrow> config_service \<Rightarrow> bool" where
  svc_begin: "service_step (Starting, None) (Filling, None)"
| svc_publish: "service_step (Filling, None) (Serving, Some fs)"
| svc_recover: "service_step (Serving, Some fs) (Recovering, Some fs)"
| svc_recovered: "service_step (Recovering, Some fs) (Serving, Some fs)"

inductive_cases service_step_published: "service_step (ph, Some fs) s"

lemma service_published_stable:
  assumes "service_step\<^sup>*\<^sup>* s t" and "snd s = Some fs"
  shows "snd t = Some fs"
  using assms
proof (induction rule: rtranclp_induct)
  case (step t u)
  obtain ph where "t = (ph, Some fs)" using step.IH [OF step.prems] by (cases t) auto
  with step.hyps(2) show ?case by (auto elim: service_step_published)
qed simp

fun phase_of :: "upstream_state \<Rightarrow> service_phase" where
  "phase_of UPSTREAM_BOOT = Starting"
| "phase_of UPSTREAM_FETCHING = Filling"
| "phase_of UPSTREAM_CACHE_READY = Serving"
| "phase_of UPSTREAM_LIVE = Serving"
| "phase_of UPSTREAM_REFETCHING = Recovering"

text \<open>The frames that can be replayed: everything cached but closing frames.\<close>

definition config_of :: "cache \<Rightarrow> frame list" where
  "config_of c = filter (\<lambda>f. fst f \<noteq> FromRadio_config_complete_id_tag) (frames c)"

definition service_of :: "'g session \<Rightarrow> config_service" where
  "service_of w = (phase_of (s_state (up w)), if cache_is_ready (cch w) then Some (config_of (cch w)) else None)"

lemma config_of_stray:
  "cache_inv c \<Longrightarrow> config_of (snd (cache_add (FromRadio_config_complete_id_tag, p) c)) = config_of c"
  by (simp add: config_of_def cache_log.contents_add)

lemma service_stored:
  assumes "session_inv w" and "s_state (up w) = UPSTREAM_FETCHING \<or> v = FromRadio_config_complete_id_tag"
  shows "service_of (stored_frame p v w) = service_of w"
  using assms by (auto simp: service_of_def stored_frame_def fetch_retry_arm_def session_inv_def config_of_stray)

lemma service_frame:
  assumes "session_inv w"
  shows "service_of (snd (upstream_on_fromradio pb p info w)) = service_of w \<or>
    service_step (service_of w) (service_of (snd (upstream_on_fromradio pb p info w)))"
proof -
  let ?v = "which_variant info"
  let ?n = "decode_config_complete_nonce pb p"
  have ready: "cache_is_ready (cch w) \<longleftrightarrow> s_state (up w) \<notin> {UPSTREAM_BOOT, UPSTREAM_FETCHING}"
    and pend: "pending_inv (up w)" using assms by (simp_all add: session_inv_def upstream_inv_def)
  consider "\<not> fetching (up w) \<or> ?v = FromRadio_packet_tag"
    | "fetching (up w)" "burst_tag ?v"
    | "fetching (up w)" "?v = FromRadio_config_complete_id_tag" "?n \<noteq> Some (s_nonce (up w))"
    | "s_state (up w) = UPSTREAM_FETCHING" "?v = FromRadio_config_complete_id_tag" "?n = Some (s_nonce (up w))"
    | "s_state (up w) = UPSTREAM_REFETCHING" "?v = FromRadio_config_complete_id_tag" "?n = Some (s_nonce (up w))"
    unfolding fetching_def burst_tag_def by blast
  then show ?thesis
  proof cases
    case 1
    then show ?thesis by (simp add: on_fromradio_not_consumed)
  next
    case 2
    then show ?thesis
      using service_stored [OF assms, of ?v p]
      by (auto simp: on_fromradio_burst) (simp add: service_of_def fetch_retry_arm_def)
  next
    case 3
    then show ?thesis using service_stored [OF assms] by (simp add: on_fromradio_stray_close)
  next
    case 4
    then show ?thesis
      using ready by (simp add: on_fromradio_boot_close [OF 4 pend]) (simp add: service_of_def boot_closed_def svc_publish)
  next
    case 5
    then show ?thesis
      using ready by (simp add: on_fromradio_refetch_close) (simp add: service_of_def refetch_closed_def svc_recovered)
  qed
qed

lemma service_refetch:
  assumes "session_inv w"
  shows "service_of (upstream_refetch pb rnd w) = service_of w \<or>
    service_step (service_of w) (service_of (upstream_refetch pb rnd w))"
proof (cases "s_state (up w) \<in> {UPSTREAM_CACHE_READY, UPSTREAM_LIVE}")
  case True
  then have "cache_is_ready (cch w)" using assms by (auto simp: session_inv_def)
  with True show ?thesis
    by (auto simp: upstream_refetch_def service_of_def fetch_retry_arm_def upstream_keepalive_reschedule_def
        Let_def split_beta svc_recover)
next
  case False
  then show ?thesis by (cases "s_state (up w)") (simp_all add: upstream_refetch_def)
qed

lemma session_step_service:
  assumes "session_inv w" and "session_step pb w e v"
  shows "service_of v = service_of w \<or> service_step (service_of w) (service_of v)"
  using assms(2)
proof cases
  case (start rnd)
  then have "\<not> cache_is_ready (cch w)" using assms(1) by (simp add: session_inv_def)
  with start show ?thesis
    by (simp add: upstream_session_start_def service_of_def fetch_retry_arm_def Let_def split_beta svc_begin)
next
  case (frame p info)
  then show ?thesis using service_frame [OF assms(1)] by simp
next
  case (phone conn)
  then show ?thesis by (simp add: upstream_on_pending_phone_def serve_one_pending_eq service_of_def)
next
  case keepalive
  then show ?thesis by (simp add: keepalive_work_handler_def service_of_def Let_def split_beta)
next
  case fetch_retry
  have "s_state (up w) = UPSTREAM_FETCHING \<Longrightarrow> \<not> cache_is_ready (cch w)"
    using assms(1) by (simp add: session_inv_def)
  with fetch_retry show ?thesis
    by (auto simp: fetch_retry_handler_def service_of_def fetch_retry_arm_def Let_def split_beta)
next
  case (liveness rnd)
  let ?w = "w\<lparr>up := (up w)\<lparr>s_liveness_work := None\<rparr>\<rparr>"
  have "session_inv ?w" using assms(1) by (auto simp: session_inv_defs)
  from service_refetch [OF this, of pb rnd] liveness show ?thesis
    by (auto simp: liveness_handler_def service_of_def)
next
  case (refetch rnd)
  then show ?thesis using service_refetch [OF assms(1)] by simp
next
  case queuestatus
  then show ?thesis by (simp add: upstream_swallow_live_queuestatus_def service_of_def)
next
  case live_frame
  then show ?thesis by (simp add: upstream_liveness_kick_def service_of_def)
next
  case toradio_sent
  then show ?thesis by (simp add: upstream_keepalive_reschedule_def service_of_def)
qed

interpretation session_service: simulation session_boot "session_step pb" session_inv service_of service_step
proof
  show "service_of t = service_of s \<or> service_step (service_of s) (service_of t)"
    if "session_inv s" "session_step pb s e t" for s e t
    using that by (rule session_step_service)
qed

text \<open>
  C17: the session implements the config service. Between any two states of a run, whatever the
  frames, timers, phones, reboots and transmit failures in between, the abstract service can make
  the same progress; in particular, once the config is published it stays published, and the
  frames a replay can draw on never change again, across any number of recovery fetches.
\<close>

theorem session_refines_service:
  assumes "reachable session_boot (session_step pb) w" and "reachable (\<lambda>v. v = w) (session_step pb) w'"
  shows "service_step\<^sup>*\<^sup>* (Starting, None) (service_of w) \<and> service_step\<^sup>*\<^sup>* (service_of w) (service_of w') \<and>
    (cache_is_ready (cch w) \<longrightarrow> cache_is_ready (cch w') \<and> config_of (cch w') = config_of (cch w))"
proof -
  have inv: "session_inv w" by (rule session_system.reachable_inv [OF assms(1)])
  have path: "service_step\<^sup>*\<^sup>* (service_of w) (service_of w')"
    using session_service.sim_path [OF inv assms(2)] by simp
  have "service_step\<^sup>*\<^sup>* (Starting, None) (service_of w)"
    using assms(1)
  proof (induction rule: reachable.induct)
    case (reach_start s)
    then show ?case
      by (simp add: session_boot_def service_of_def upstream_static_def cache_is_ready_def cache_static_def)
  next
    case (reach_step s e t)
    then show ?case
      using session_step_service [OF session_system.reachable_inv [OF reach_step.hyps(1)] reach_step.hyps(2)]
      by (auto intro: rtranclp.rtrancl_into_rtrancl)
  qed
  moreover have "cache_is_ready (cch w') \<and> config_of (cch w') = config_of (cch w)" if "cache_is_ready (cch w)"
    using service_published_stable [OF path] that by (auto simp: service_of_def split: if_splits)
  ultimately show ?thesis using path by blast
qed

theorem session_refines_service_witness:
  "\<exists>w :: unit session. reachable session_boot (session_step sample_pb) w \<and>
     service_step\<^sup>*\<^sup>* (Starting, None) (service_of w) \<and> service_of w = (Filling, None)"
proof -
  let ?s = "sample_session () None"
  let ?w = "upstream_session_start sample_pb 5 ?s"
  have "session_step sample_pb ?s (Ev_start 5) ?w"
    by (rule session_step.start) (simp add: sample_session_def upstream_static_def)
  then have r: "reachable session_boot (session_step sample_pb) ?w"
    using reach_start [of session_boot, OF sample_session_boot] reach_step by metis
  have st: "s_state (up ?w) = UPSTREAM_FETCHING" "session_inv ?w"
    using sample_started by (simp_all add: boot_fetching_def)
  then have "\<not> cache_is_ready (cch ?w)" by (simp add: session_inv_def)
  moreover have self: "reachable (\<lambda>v. v = ?w) (session_step sample_pb) ?w" by (rule reach_start) simp
  ultimately show ?thesis using session_refines_service [OF r self] r st(1)
    by (intro exI [of _ ?w]) (auto simp: service_of_def)
qed

end
