(* ===== verification/Ble_Gatt.thy ===== *)
theory Ble_Gatt
  imports Proxy_Protocol Upstream_Session "HOL-Library.Multiset"
begin

text \<open>
  The GATT server, \<^verbatim>\<open>src/src/ble_gatt.c\<close>: one slot per connected phone with its packet ring,
  its replay cursor and its staging buffer; the attribute callbacks; connection tracking; and the
  entry points the router and main call.

  The Bluetooth stack is not part of the sources. What the module asks of it is recorded in the
  state (notifications, disconnect requests, advertising starts, connection references); what it
  answers (\<open>bt_gatt_attr_read\<close>, \<open>bt_le_adv_start\<close>, the gpio results) is an argument. The
  handler registered for ToRadio writes acts on the whole firmware state and is an argument of
  \<open>toradio_write\<close>. Handlers run one after the other: the mutex of a slot makes its critical
  sections atomic.
\<close>

section \<open>State\<close>

definition MAX_BLE_CONNECTIONS :: nat where "MAX_BLE_CONNECTIONS = CONFIG_BT_MAX_CONN"
definition FROMRADIO_QUEUE_DEPTH :: nat where "FROMRADIO_QUEUE_DEPTH = 16"
definition FROMRADIO_MAX_PKT_SIZE :: nat where "FROMRADIO_MAX_PKT_SIZE = 512"
definition FROMNUM_ATTR_IDX :: nat where "FROMNUM_ATTR_IDX = 2"
definition TEARDOWN_DELAY_MS :: nat where "TEARDOWN_DELAY_MS = 250"
definition BT_HCI_ERR_REMOTE_USER_TERM_CONN :: u8 where "BT_HCI_ERR_REMOTE_USER_TERM_CONN = 0x13"
definition BT_HCI_ERR_CONN_LIMIT_EXCEEDED :: u8 where "BT_HCI_ERR_CONN_LIMIT_EXCEEDED = 0x09"

lemmas gatt_layout [layout_consts] =
  MAX_BLE_CONNECTIONS_def FROMRADIO_QUEUE_DEPTH_def FROMRADIO_MAX_PKT_SIZE_def

datatype phone_state =
  PHONE_CONNECTED | PHONE_AWAIT_WANT_CONFIG | PHONE_PENDING | PHONE_REPLAYING | PHONE_ACTIVE

record pkt_entry =
  pkt_data :: "u8 list"
  pkt_len :: nat

record proxy_conn =
  pc_conn :: bt_conn
  pc_proxy_id :: proxy_id_t
  pc_fromnum :: u32
  pc_state :: phone_state
  pc_leaving :: bool
  pc_nonce :: u32
  pc_replay_cursor :: nat
  pc_cc_frame :: "u8 list"
  pc_cc_len :: nat
  pc_queue :: "pkt_entry list"
  pc_head :: nat
  pc_tail :: nat
  pc_count :: nat
  pc_staged :: "u8 list"
  pc_staged_len :: nat
  pc_teardown_work :: "nat option"

record gatt =
  conns :: "proxy_conn list"
  active_conn_count :: nat
  s_qs :: "u8 list"
  s_qs_len :: nat
  led_fromradio_active :: bool
  led_toradio_active :: bool
  led_ble_fromradio :: bool
  led_ble_toradio :: bool
  led_blink_dwork :: "nat option"
  notified :: "(bt_conn \<times> nat \<times> u32) list"
  disconnects :: "(bt_conn \<times> u8) list"
  adv_starts :: nat
  conn_refs :: "bt_conn \<Rightarrow> int"

definition zero_id :: proxy_id_t where
  "zero_id = \<lparr>id_bytes = replicate PROXY_ID_SIZE 0\<rparr>"

definition slot_static :: proxy_conn where
  "slot_static = \<lparr>pc_conn = None, pc_proxy_id = zero_id, pc_fromnum = 0, pc_state = PHONE_CONNECTED,
     pc_leaving = False, pc_nonce = 0, pc_replay_cursor = 0, pc_cc_frame = replicate 16 0, pc_cc_len = 0,
     pc_queue = replicate FROMRADIO_QUEUE_DEPTH \<lparr>pkt_data = replicate FROMRADIO_MAX_PKT_SIZE 0, pkt_len = 0\<rparr>,
     pc_head = 0, pc_tail = 0, pc_count = 0, pc_staged = replicate FROMRADIO_MAX_PKT_SIZE 0,
     pc_staged_len = 0, pc_teardown_work = None\<rparr>"

definition gatt_static :: gatt where
  "gatt_static = \<lparr>conns = replicate MAX_BLE_CONNECTIONS slot_static, active_conn_count = 0,
     s_qs = replicate 16 0, s_qs_len = 0, led_fromradio_active = False, led_toradio_active = False,
     led_ble_fromradio = False, led_ble_toradio = False, led_blink_dwork = None,
     notified = [], disconnects = [], adv_starts = 0, conn_refs = (\<lambda>_. 0)\<rparr>"

section \<open>Activity LEDs\<close>

definition led_blink_work :: "gatt \<Rightarrow> gatt" where
  "led_blink_work g =
     (let (fa, fp) = led_blink_tick (led_ble_fromradio g) (led_fromradio_active g);
          (ta, tp) = led_blink_tick (led_ble_toradio g) (led_toradio_active g)
      in g\<lparr>led_fromradio_active := fa, led_ble_fromradio := fp, led_toradio_active := ta,
           led_ble_toradio := tp, led_blink_dwork := Some LED_BLINK_PERIOD_MS\<rparr>)"

section \<open>Slots\<close>

text \<open>The search loops over the slot table: the index of the first slot that satisfies the test.\<close>

fun slot_index :: "(proxy_conn \<Rightarrow> bool) \<Rightarrow> proxy_conn list \<Rightarrow> nat option" where
  "slot_index P [] = None"
| "slot_index P (pc # pcs) = (if P pc then Some 0 else map_option Suc (slot_index P pcs))"

definition find_slot :: "bt_conn \<Rightarrow> gatt \<Rightarrow> nat option" where
  "find_slot conn g = slot_index (\<lambda>pc. pc_conn pc = conn) (conns g)"

definition put_slot :: "nat \<Rightarrow> proxy_conn \<Rightarrow> gatt \<Rightarrow> gatt" where
  "put_slot i pc g = g\<lparr>conns := (conns g)[i := pc]\<rparr>"

definition bt_conn_ref :: "bt_conn \<Rightarrow> gatt \<Rightarrow> gatt" where
  "bt_conn_ref conn g = g\<lparr>conn_refs := (conn_refs g)(conn := conn_refs g conn + 1)\<rparr>"

definition bt_conn_unref :: "bt_conn \<Rightarrow> gatt \<Rightarrow> gatt" where
  "bt_conn_unref conn g = g\<lparr>conn_refs := (conn_refs g)(conn := conn_refs g conn - 1)\<rparr>"

definition alloc_slot :: "bt_conn \<Rightarrow> gatt \<Rightarrow> nat option \<times> gatt" where
  "alloc_slot conn g =
     (case slot_index (\<lambda>pc. pc_conn pc = None) (conns g) of
        None \<Rightarrow> (None, g)
      | Some i \<Rightarrow>
          let g = bt_conn_ref conn g;
              pc = (conns g ! i)\<lparr>pc_conn := conn, pc_proxy_id := zero_id, pc_fromnum := 0, pc_head := 0,
                     pc_tail := 0, pc_count := 0, pc_staged_len := 0, pc_state := PHONE_CONNECTED,
                     pc_leaving := False, pc_nonce := 0, pc_replay_cursor := 0\<rparr>
          in (Some i, put_slot i pc g))"

definition free_slot :: "nat \<Rightarrow> gatt \<Rightarrow> gatt" where
  "free_slot i g =
     (let pc = (conns g ! i)\<lparr>pc_teardown_work := None\<rparr>;
          (pc, g) = (if pc_conn pc \<noteq> None then (pc\<lparr>pc_conn := None\<rparr>, bt_conn_unref (pc_conn pc) g) else (pc, g));
          pc = pc\<lparr>pc_proxy_id := zero_id, pc_fromnum := 0, pc_head := 0, pc_tail := 0, pc_count := 0,
                  pc_staged_len := 0, pc_state := PHONE_CONNECTED, pc_leaving := False, pc_nonce := 0,
                  pc_replay_cursor := 0\<rparr>
      in put_slot i pc g)"

section \<open>The packet ring of a slot\<close>

definition ring_put :: "u8 list \<Rightarrow> proxy_conn \<Rightarrow> proxy_conn" where
  "ring_put data pc =
     (let e = pc_queue pc ! pc_tail pc;
          e = e\<lparr>pkt_data := memcpy_at (pkt_data e) 0 data, pkt_len := length data\<rparr>
      in pc\<lparr>pc_queue := (pc_queue pc)[pc_tail pc := e],
            pc_tail := (pc_tail pc + 1) mod FROMRADIO_QUEUE_DEPTH, pc_count := pc_count pc + 1\<rparr>)"

definition ring_get :: "proxy_conn \<Rightarrow> (u8 list \<times> proxy_conn) option" where
  "ring_get pc =
     (if pc_count pc > 0 then
        let e = pc_queue pc ! pc_head pc
        in Some (take (pkt_len e) (pkt_data e),
                 pc\<lparr>pc_head := (pc_head pc + 1) mod FROMRADIO_QUEUE_DEPTH, pc_count := pc_count pc - 1\<rparr>)
      else None)"

section \<open>Attribute callbacks\<close>

datatype att_err = BT_ATT_ERR_UNLIKELY | BT_ATT_ERR_INVALID_OFFSET | BT_ATT_ERR_INVALID_ATTRIBUTE_LEN

text \<open>What a read callback returns: an ATT error, or the bytes it placed in the response.\<close>

datatype att_read = Att_error att_err | Att_data "u8 list"

datatype att_write = Att_write_error att_err | Att_written nat

text \<open>\<open>bt_gatt_attr_read\<close>: the length of the response buffer, the offset and the value.\<close>

type_synonym attr_read = "nat \<Rightarrow> nat \<Rightarrow> u8 list \<Rightarrow> att_read"

definition u32_bytes :: "u32 \<Rightarrow> u8 list" where
  "u32_bytes v = [ucast v, ucast (drop_bit 8 v), ucast (drop_bit 16 v), ucast (drop_bit 24 v)]"

definition fromnum_read :: "attr_read \<Rightarrow> bt_conn \<Rightarrow> nat \<Rightarrow> nat \<Rightarrow> gatt \<Rightarrow> att_read \<times> gatt" where
  "fromnum_read attr_rd conn len off g =
     (case find_slot conn g of
        None \<Rightarrow> (Att_error BT_ATT_ERR_UNLIKELY, g)
      | Some i \<Rightarrow> (attr_rd len off (u32_bytes (pc_fromnum (conns g ! i))), g\<lparr>led_fromradio_active := True\<rparr>))"

text \<open>The loop that skips the cached frames outside the phone's segment.\<close>

function skip_frames :: "cache \<Rightarrow> u32 \<Rightarrow> nat \<Rightarrow> nat \<Rightarrow> nat" where
  "skip_frames c nonce n cur =
     (if cur < n \<and> \<not> cache_frame_in_segment cur nonce c then skip_frames c nonce n (cur + 1) else cur)"
  by pat_completeness auto
termination by (relation "measure (\<lambda>(_, _, n, cur). n - cur)") auto

declare skip_frames.simps [simp del]

definition stage_bytes :: "u8 list \<Rightarrow> proxy_conn \<Rightarrow> proxy_conn" where
  "stage_bytes bs pc = pc\<lparr>pc_staged := memcpy_at (pc_staged pc) 0 bs, pc_staged_len := length bs\<rparr>"

definition stage_next :: "cache \<Rightarrow> proxy_conn \<Rightarrow> proxy_conn" where
  "stage_next c pc =
     (if pc_state pc = PHONE_REPLAYING then
        let n = cache_frame_count c;
            pc = pc\<lparr>pc_replay_cursor := skip_frames c (pc_nonce pc) n (pc_replay_cursor pc)\<rparr>
        in if pc_replay_cursor pc < n then
             let pc = (case cache_frame_at (pc_replay_cursor pc) c of
                         Some ref \<Rightarrow>
                           (case cache_frame_bytes (Some ref) c of
                              Some p \<Rightarrow> stage_bytes (take (cf_len ref) p) pc
                            | None \<Rightarrow> pc)
                       | None \<Rightarrow> pc\<lparr>pc_staged_len := 0\<rparr>)
             in pc\<lparr>pc_replay_cursor := pc_replay_cursor pc + 1\<rparr>
           else if pc_replay_cursor pc = n then
             let pc = stage_bytes (take (pc_cc_len pc) (pc_cc_frame pc)) pc
             in pc\<lparr>pc_replay_cursor := pc_replay_cursor pc + 1\<rparr>
           else pc\<lparr>pc_state := PHONE_ACTIVE, pc_staged_len := 0\<rparr>
      else case ring_get pc of
             Some (pkt, pc) \<Rightarrow> stage_bytes pkt pc
           | None \<Rightarrow> pc\<lparr>pc_staged_len := 0\<rparr>)"

definition fromradio_read :: "attr_read \<Rightarrow> cache \<Rightarrow> bt_conn \<Rightarrow> nat \<Rightarrow> nat \<Rightarrow> gatt \<Rightarrow> att_read \<times> gatt" where
  "fromradio_read attr_rd c conn len off g =
     (case find_slot conn g of
        None \<Rightarrow> (Att_error BT_ATT_ERR_UNLIKELY, g)
      | Some i \<Rightarrow>
          let pc = (if off = 0 then stage_next c (conns g ! i) else conns g ! i);
              result = (if pc_staged_len pc > 0
                        then attr_rd len off (take (pc_staged_len pc) (pc_staged pc)) else Att_data [])
          in (result, put_slot i pc g))"

definition logradio_read :: "bt_conn \<Rightarrow> nat \<Rightarrow> nat \<Rightarrow> gatt \<Rightarrow> att_read \<times> gatt" where
  "logradio_read conn len off g = (Att_data [], g)"

definition toradio_write ::
  "(bt_conn \<Rightarrow> u8 list \<Rightarrow> gatt session \<Rightarrow> gatt session) option \<Rightarrow> bt_conn \<Rightarrow> u8 list \<Rightarrow> nat
    \<Rightarrow> gatt session \<Rightarrow> att_write \<times> gatt session" where
  "toradio_write handler conn buf off w =
     (if off \<noteq> 0 then (Att_write_error BT_ATT_ERR_INVALID_OFFSET, w)
      else
        let w = w\<lparr>client := (client w)\<lparr>led_toradio_active := True\<rparr>\<rparr>;
            w = (case handler of None \<Rightarrow> w | Some h \<Rightarrow> h conn buf w)
        in (Att_written (length buf), w))"

section \<open>Registration and lookup\<close>

definition ble_gatt_register_proxy_id :: "bt_conn \<Rightarrow> proxy_id_t \<Rightarrow> gatt \<Rightarrow> rc \<times> gatt" where
  "ble_gatt_register_proxy_id conn pid g =
     (case find_slot conn g of
        None \<Rightarrow> (Err ENOENT, g)
      | Some i \<Rightarrow> (OK, put_slot i ((conns g ! i)\<lparr>pc_proxy_id := pid\<rparr>) g))"

definition node_reg_write :: "bt_conn \<Rightarrow> u8 list \<Rightarrow> nat \<Rightarrow> gatt \<Rightarrow> att_write \<times> gatt" where
  "node_reg_write conn buf off g =
     (if off \<noteq> 0 \<or> length buf \<noteq> PROXY_ID_SIZE
      then (Att_write_error BT_ATT_ERR_INVALID_ATTRIBUTE_LEN, g)
      else
        let pid = \<lparr>id_bytes = take PROXY_ID_SIZE buf\<rparr>;
            (_, g) = ble_gatt_register_proxy_id conn pid g
        in (Att_written (length buf), g))"

definition ble_gatt_get_conn_by_proxy_id :: "proxy_id_t \<Rightarrow> gatt \<Rightarrow> bt_conn" where
  "ble_gatt_get_conn_by_proxy_id pid g =
     (if proxy_id_is_zero pid then None
      else case slot_index (\<lambda>pc. pc_conn pc \<noteq> None \<and> proxy_id_equal (pc_proxy_id pc) pid) (conns g) of
             Some i \<Rightarrow> pc_conn (conns g ! i)
           | None \<Rightarrow> None)"

section \<open>Connections\<close>

definition bt_conn_disconnect :: "bt_conn \<Rightarrow> u8 \<Rightarrow> gatt \<Rightarrow> gatt" where
  "bt_conn_disconnect conn reason g = g\<lparr>disconnects := disconnects g @ [(conn, reason)]\<rparr>"

definition teardown_work_handler :: "nat \<Rightarrow> gatt \<Rightarrow> gatt" where
  "teardown_work_handler i g =
     (let pc = conns g ! i in
      if pc_conn pc \<noteq> None \<and> pc_leaving pc then
        let conn = pc_conn pc;
            g = bt_conn_ref conn g;
            g = bt_conn_disconnect conn BT_HCI_ERR_REMOTE_USER_TERM_CONN g
        in bt_conn_unref conn g
      else g)"

text \<open>\<open>adv\<close> is what \<open>bt_le_adv_start\<close> returns.\<close>

definition ble_gatt_start_advertising :: "rc \<Rightarrow> gatt \<Rightarrow> rc \<times> gatt" where
  "ble_gatt_start_advertising adv g =
     (let g = g\<lparr>adv_starts := adv_starts g + 1\<rparr> in
      if adv \<noteq> OK \<and> adv \<noteq> Err EALREADY then (adv, g) else (OK, g))"

definition on_connected :: "rc \<Rightarrow> bt_conn \<Rightarrow> u8 \<Rightarrow> gatt \<Rightarrow> gatt" where
  "on_connected adv conn err g =
     (if err \<noteq> 0 then g
      else case alloc_slot conn g of
          (None, g) \<Rightarrow> bt_conn_disconnect conn BT_HCI_ERR_CONN_LIMIT_EXCEEDED g
        | (Some i, g) \<Rightarrow>
            let g = g\<lparr>active_conn_count := active_conn_count g + 1\<rparr> in
            if active_conn_count g < MAX_BLE_CONNECTIONS then snd (ble_gatt_start_advertising adv g) else g)"

definition on_disconnected :: "rc \<Rightarrow> bt_conn \<Rightarrow> u8 \<Rightarrow> gatt \<Rightarrow> gatt" where
  "on_disconnected adv conn reason g =
     (let g = (case find_slot conn g of
                 None \<Rightarrow> g
               | Some i \<Rightarrow> (free_slot i g)\<lparr>active_conn_count := active_conn_count g - 1\<rparr>)
      in snd (ble_gatt_start_advertising adv g))"

text \<open>
  Initialisation: \<open>leds_ready\<close> is the answer of the gpio driver. The mutexes carry no state
  here; a freshly initialised work item is not scheduled.
\<close>

definition ble_gatt_init :: "bool \<Rightarrow> gatt \<Rightarrow> rc \<times> gatt" where
  "ble_gatt_init leds_ready g =
     (let g = (if leds_ready
               then g\<lparr>led_ble_fromradio := False, led_ble_toradio := False,
                      led_blink_dwork := Some LED_BLINK_PERIOD_MS\<rparr>
               else g)
      in (OK, g\<lparr>conns := map (\<lambda>pc. pc\<lparr>pc_teardown_work := None\<rparr>) (conns g)\<rparr>))"

section \<open>Delivery\<close>

text \<open>
  The doorbell: what is recorded of \<open>bt_gatt_notify\<close> is the connection, the index of the attribute
  in the service's table and the value. Its result is only logged.
\<close>

definition notify_fromnum :: "bt_conn \<Rightarrow> u32 \<Rightarrow> gatt \<Rightarrow> gatt" where
  "notify_fromnum conn fromnum_val g = g\<lparr>notified := notified g @ [(conn, FROMNUM_ATTR_IDX, fromnum_val)]\<rparr>"

definition ble_gatt_enqueue_fromradio :: "bt_conn \<Rightarrow> u8 list \<Rightarrow> gatt \<Rightarrow> rc \<times> gatt" where
  "ble_gatt_enqueue_fromradio conn data g =
     (if length data > FROMRADIO_MAX_PKT_SIZE then (Err EMSGSIZE, g)
      else case find_slot conn g of
          None \<Rightarrow> (Err ENOENT, g)
        | Some i \<Rightarrow>
            let pc = conns g ! i in
            if pc_leaving pc then (Err ESHUTDOWN, g)
            else if pc_count pc \<ge> FROMRADIO_QUEUE_DEPTH then
              (Err ENOMEM, notify_fromnum conn (pc_fromnum pc) g)
            else
              let pc = ring_put data pc;
                  pc = pc\<lparr>pc_fromnum := pc_fromnum pc + 1\<rparr>;
                  g = put_slot i pc g
              in (OK, notify_fromnum conn (pc_fromnum pc) g))"

definition broadcast_one :: "u8 list \<Rightarrow> nat \<Rightarrow> nat \<times> gatt \<Rightarrow> nat \<times> gatt" where
  "broadcast_one data i sg =
     (let (sent, g) = sg in
      if pc_conn (conns g ! i) \<noteq> None then
        let (err, g) = ble_gatt_enqueue_fromradio (pc_conn (conns g ! i)) data g
        in if err = Err ESHUTDOWN then (sent, g)
           else if err \<noteq> OK then (sent, g)
           else (sent + 1, g)
      else (sent, g))"

definition ble_gatt_broadcast_fromradio :: "u8 list \<Rightarrow> gatt \<Rightarrow> nat \<times> gatt" where
  "ble_gatt_broadcast_fromradio data g = fold (broadcast_one data) [0..<MAX_BLE_CONNECTIONS] (0, g)"

section \<open>Config replay, liveness and departure of a phone\<close>

definition ble_gatt_replay_cached_burst :: "nanopb \<Rightarrow> bt_conn \<Rightarrow> u32 \<Rightarrow> gatt \<Rightarrow> gatt" where
  "ble_gatt_replay_cached_burst pb conn nonce g =
     (case find_slot conn g of
        None \<Rightarrow> g
      | Some i \<Rightarrow>
          let pc = conns g ! i;
              pc = (if nonce \<noteq> 0 then pc\<lparr>pc_nonce := nonce\<rparr> else pc);
              nonce = pc_nonce pc;
              (enc, buf, cc_len) = proto_encode_config_complete pb nonce (pc_cc_frame pc) 16 0;
              pc = pc\<lparr>pc_cc_frame := buf\<rparr>
          in if enc \<noteq> OK then put_slot i pc g
             else
               let pc = pc\<lparr>pc_cc_len := cc_len mod 2 ^ 8, pc_replay_cursor := 0, pc_state := PHONE_REPLAYING,
                           pc_fromnum := pc_fromnum pc + 1\<rparr>
               in notify_fromnum conn (pc_fromnum pc) (put_slot i pc g))"

definition ble_gatt_park_pending :: "bt_conn \<Rightarrow> u32 \<Rightarrow> gatt session \<Rightarrow> gatt session" where
  "ble_gatt_park_pending conn nonce w =
     (case find_slot conn (client w) of
        None \<Rightarrow> w
      | Some i \<Rightarrow>
          let pc = (conns (client w) ! i)\<lparr>pc_state := PHONE_PENDING, pc_nonce := nonce\<rparr>;
              w = w\<lparr>client := put_slot i pc (client w)\<rparr>
          in upstream_on_pending_phone conn w)"

definition ble_gatt_reply_queuestatus :: "nanopb \<Rightarrow> bt_conn \<Rightarrow> gatt \<Rightarrow> gatt" where
  "ble_gatt_reply_queuestatus pb conn g =
     (let (rc, g) =
        (if s_qs_len g = 0 then
           let (rc, buf, len) = proto_encode_queue_status pb (s_qs g) 16 (s_qs_len g)
           in (rc, g\<lparr>s_qs := buf, s_qs_len := (if rc \<noteq> OK then 0 else len)\<rparr>)
         else (OK, g))
      in if rc \<noteq> OK then g
         else snd (ble_gatt_enqueue_fromradio conn (take (s_qs_len g) (s_qs g)) g))"

definition ble_gatt_request_teardown :: "bt_conn \<Rightarrow> gatt \<Rightarrow> rc \<times> gatt" where
  "ble_gatt_request_teardown conn g =
     (case find_slot conn g of
        None \<Rightarrow> (Err ENOENT, g)
      | Some i \<Rightarrow>
          (OK, put_slot i ((conns g ! i)\<lparr>pc_leaving := True, pc_teardown_work := Some TEARDOWN_DELAY_MS\<rparr>) g))"

section \<open>Slot search\<close>

lemma slot_index_SomeD:
  "slot_index P pcs = Some i \<Longrightarrow> i < length pcs \<and> P (pcs ! i) \<and> (\<forall>j < i. \<not> P (pcs ! j))"
proof (induction pcs arbitrary: i)
  case (Cons pc pcs)
  show ?case
  proof (cases "P pc")
    case False
    with Cons.prems obtain k where "slot_index P pcs = Some k" "i = Suc k" by auto
    with Cons.IH [of k] False show ?thesis by (auto simp: less_Suc_eq_0_disj)
  qed (use Cons.prems in auto)
qed simp

lemma slot_index_None_iff: "slot_index P pcs = None \<longleftrightarrow> (\<forall>pc \<in> set pcs. \<not> P pc)"
  by (induction pcs) auto

lemma slot_index_cong: "map P pcs = map P pcs' \<Longrightarrow> slot_index P pcs = slot_index P pcs'"
proof (induction pcs arbitrary: pcs')
  case (Cons pc pcs)
  then show ?case by (cases pcs') auto
qed auto

lemma find_slot_SomeD:
  assumes "find_slot conn g = Some i"
  shows "i < length (conns g)" and "pc_conn (conns g ! i) = conn"
  using slot_index_SomeD [of _ "conns g" i] assms by (auto simp: find_slot_def)

text \<open>Operations that write a slot back without changing its connection do not move any phone.\<close>

lemma map_conn_put [simp]:
  "pc_conn pc = pc_conn (conns g ! i) \<Longrightarrow> map pc_conn (conns (put_slot i pc g)) = map pc_conn (conns g)"
proof (rule nth_equalityI)
  fix j
  assume "pc_conn pc = pc_conn (conns g ! i)" "j < length (map pc_conn (conns (put_slot i pc g)))"
  then show "map pc_conn (conns (put_slot i pc g)) ! j = map pc_conn (conns g) ! j"
    by (cases "j = i") (simp_all add: put_slot_def)
qed (simp add: put_slot_def)

lemma find_slot_cong: "map pc_conn (conns g) = map pc_conn (conns h) \<Longrightarrow> find_slot conn g = find_slot conn h"
proof -
  assume "map pc_conn (conns g) = map pc_conn (conns h)"
  then have "map (\<lambda>x. x = conn) (map pc_conn (conns g)) = map (\<lambda>x. x = conn) (map pc_conn (conns h))"
    by (rule arg_cong)
  then show ?thesis
    unfolding find_slot_def map_map comp_def by (rule slot_index_cong)
qed

lemma put_slot_simps [simp]:
  "length (conns (put_slot i pc g)) = length (conns g)"
  "i < length (conns g) \<Longrightarrow> conns (put_slot i pc g) ! i = pc"
  "j \<noteq> i \<Longrightarrow> conns (put_slot i pc g) ! j = conns g ! j"
  "active_conn_count (put_slot i pc g) = active_conn_count g" "conn_refs (put_slot i pc g) = conn_refs g"
  "notified (put_slot i pc g) = notified g" "disconnects (put_slot i pc g) = disconnects g"
  "s_qs (put_slot i pc g) = s_qs g" "s_qs_len (put_slot i pc g) = s_qs_len g"
  by (simp_all add: put_slot_def)

lemma notify_simps [simp]:
  "conns (notify_fromnum c n g) = conns g" "active_conn_count (notify_fromnum c n g) = active_conn_count g"
  "conn_refs (notify_fromnum c n g) = conn_refs g" "disconnects (notify_fromnum c n g) = disconnects g"
  "s_qs (notify_fromnum c n g) = s_qs g" "s_qs_len (notify_fromnum c n g) = s_qs_len g"
  "notified (notify_fromnum c n g) = notified g @ [(c, FROMNUM_ATTR_IDX, n)]"
  by (simp_all add: notify_fromnum_def)

section \<open>The packet ring is a queue\<close>

definition pkts :: "proxy_conn \<Rightarrow> u8 list list" where
  "pkts pc = map (\<lambda>k. let e = pc_queue pc ! ((pc_head pc + k) mod FROMRADIO_QUEUE_DEPTH)
                      in take (pkt_len e) (pkt_data e)) [0..<pc_count pc]"

definition ring_inv :: "proxy_conn \<Rightarrow> bool" where
  "ring_inv pc \<longleftrightarrow> length (pc_queue pc) = FROMRADIO_QUEUE_DEPTH \<and>
     (\<forall>e \<in> set (pc_queue pc). length (pkt_data e) = FROMRADIO_MAX_PKT_SIZE \<and> pkt_len e \<le> FROMRADIO_MAX_PKT_SIZE) \<and>
     pc_head pc < FROMRADIO_QUEUE_DEPTH \<and> pc_count pc \<le> FROMRADIO_QUEUE_DEPTH \<and>
     pc_tail pc = (pc_head pc + pc_count pc) mod FROMRADIO_QUEUE_DEPTH"

definition pkt_fits :: "u8 list list \<Rightarrow> u8 list \<Rightarrow> bool" where
  "pkt_fits q p \<longleftrightarrow> length p \<le> FROMRADIO_MAX_PKT_SIZE \<and> length q < FROMRADIO_QUEUE_DEPTH"

lemma length_pkts [simp]: "length (pkts pc) = pc_count pc"
  by (simp add: pkts_def)

lemma mod16_neq: "k < n \<Longrightarrow> n < 16 \<Longrightarrow> (h + k) mod 16 \<noteq> (h + n) mod (16 :: nat)"
  using mod_eq_dvd_iff_nat [of "h + k" "h + n" 16] dvd_imp_le [of 16 "n - k"] by auto

lemma ring_put_correct:
  assumes "ring_inv pc" and "length data \<le> FROMRADIO_MAX_PKT_SIZE" and "pc_count pc < FROMRADIO_QUEUE_DEPTH"
  shows "ring_inv (ring_put data pc)" and "pkts (ring_put data pc) = pkts pc @ [data]"
proof -
  let ?t = "pc_tail pc"
  let ?e = "(pc_queue pc ! ?t)\<lparr>pkt_data := memcpy_at (pkt_data (pc_queue pc ! ?t)) 0 data, pkt_len := length data\<rparr>"
  have t: "?t = (pc_head pc + pc_count pc) mod 16" "?t < length (pc_queue pc)" "length (pc_queue pc) = 16"
    using assms(1) by (simp_all add: ring_inv_def layout_consts)
  have old: "pc_queue pc ! ?t \<in> set (pc_queue pc)" using t(2) by simp
  then have e: "length (pkt_data ?e) = 512" "pkt_len ?e \<le> 512"
    using assms(1,2) by (auto simp: ring_inv_def layout_consts)
  have "set ((pc_queue pc)[?t := ?e]) \<subseteq> insert ?e (set (pc_queue pc))" by (rule set_update_subset_insert)
  then show "ring_inv (ring_put data pc)"
    using assms e by (auto simp: ring_inv_def ring_put_def layout_consts Let_def mod_simps)
  have "(pc_queue pc)[?t := ?e] ! ((pc_head pc + k) mod 16) = pc_queue pc ! ((pc_head pc + k) mod 16)"
    if "k < pc_count pc" for k
    using mod16_neq [OF that, of "pc_head pc"] assms(3) t(1) by (simp add: layout_consts)
  then show "pkts (ring_put data pc) = pkts pc @ [data]"
    using t by (simp add: pkts_def ring_put_def layout_consts Let_def)
qed

lemma ring_get_empty: "pkts pc = [] \<Longrightarrow> ring_get pc = None"
  by (simp add: ring_get_def pkts_def)

lemma ring_get_front:
  assumes "ring_inv pc" and "pkts pc = p # ps"
  shows "\<exists>h n. ring_get pc = Some (p, pc\<lparr>pc_head := h, pc_count := n\<rparr>) \<and>
    pkts (pc\<lparr>pc_head := h, pc_count := n\<rparr>) = ps \<and> ring_inv (pc\<lparr>pc_head := h, pc_count := n\<rparr>) \<and>
    length p \<le> FROMRADIO_MAX_PKT_SIZE"
proof -
  obtain m where n: "pc_count pc = Suc m" using assms(2) length_pkts [of pc] by (cases "pc_count pc") auto
  let ?h = "(pc_head pc + 1) mod FROMRADIO_QUEUE_DEPTH"
  let ?pc = "pc\<lparr>pc_head := ?h, pc_count := m\<rparr>"
  let ?f = "\<lambda>k. let e = pc_queue pc ! ((pc_head pc + k) mod FROMRADIO_QUEUE_DEPTH) in take (pkt_len e) (pkt_data e)"
  have "pkts pc = ?f 0 # map (\<lambda>k. ?f (Suc k)) [0..<m]"
    unfolding pkts_def n by (rule map_upt_Suc)
  moreover have "map (\<lambda>k. ?f (Suc k)) [0..<m] = pkts ?pc"
    by (simp add: pkts_def layout_consts mod_simps)
  moreover have h: "pc_head pc < length (pc_queue pc)" using assms(1) by (simp add: ring_inv_def)
  ultimately have p: "p = take (pkt_len (pc_queue pc ! pc_head pc)) (pkt_data (pc_queue pc ! pc_head pc))"
    and ps: "pkts ?pc = ps"
    using assms by (simp_all add: ring_inv_def layout_consts Let_def)
  have "ring_inv ?pc" using assms(1) n by (simp add: ring_inv_def layout_consts mod_simps)
  moreover have "length p \<le> FROMRADIO_MAX_PKT_SIZE"
    using assms(1) nth_mem [OF h] by (auto simp: p ring_inv_def)
  moreover have "ring_get pc = Some (p, ?pc)" using n by (simp add: ring_get_def p Let_def)
  ultimately show ?thesis using ps by blast
qed

lemma pkts_small:
  assumes "ring_inv pc" and "p \<in> set (pkts pc)"
  shows "length p \<le> FROMRADIO_MAX_PKT_SIZE"
proof -
  obtain k where p: "p = take (pkt_len (pc_queue pc ! ((pc_head pc + k) mod FROMRADIO_QUEUE_DEPTH)))
      (pkt_data (pc_queue pc ! ((pc_head pc + k) mod FROMRADIO_QUEUE_DEPTH)))"
    using assms(2) by (auto simp: pkts_def Let_def)
  have "(pc_head pc + k) mod FROMRADIO_QUEUE_DEPTH < length (pc_queue pc)"
    using assms(1) by (simp add: ring_inv_def layout_consts)
  from nth_mem [OF this] assms(1) show ?thesis by (auto simp: p ring_inv_def)
qed

text \<open>What offering a packet to a slot does, without the lookup and the notification.\<close>

definition phone_offer :: "u8 list \<Rightarrow> proxy_conn \<Rightarrow> rc \<times> proxy_conn" where
  "phone_offer data pc =
     (if length data > FROMRADIO_MAX_PKT_SIZE then (Err EMSGSIZE, pc)
      else if pc_leaving pc then (Err ESHUTDOWN, pc)
      else if pc_count pc \<ge> FROMRADIO_QUEUE_DEPTH then (Err ENOMEM, pc)
      else (OK, (ring_put data pc)\<lparr>pc_fromnum := pc_fromnum (ring_put data pc) + 1\<rparr>))"

lemma ring_frame [simp]:
  "ring_inv (pc\<lparr>pc_fromnum := n\<rparr>) = ring_inv pc" "pkts (pc\<lparr>pc_fromnum := n\<rparr>) = pkts pc"
  by (simp_all add: ring_inv_def pkts_def)

lemma ring_put_frame [simp]:
  "pc_conn (ring_put d pc) = pc_conn pc" "pc_proxy_id (ring_put d pc) = pc_proxy_id pc"
  "pc_fromnum (ring_put d pc) = pc_fromnum pc" "pc_state (ring_put d pc) = pc_state pc"
  "pc_leaving (ring_put d pc) = pc_leaving pc" "pc_nonce (ring_put d pc) = pc_nonce pc"
  "pc_replay_cursor (ring_put d pc) = pc_replay_cursor pc" "pc_cc_frame (ring_put d pc) = pc_cc_frame pc"
  "pc_cc_len (ring_put d pc) = pc_cc_len pc" "pc_staged (ring_put d pc) = pc_staged pc"
  "pc_staged_len (ring_put d pc) = pc_staged_len pc" "pc_teardown_work (ring_put d pc) = pc_teardown_work pc"
  by (simp_all add: ring_put_def Let_def)

interpretation phone_ring: bounded_fifo phone_offer pkts "\<lambda>pc. ring_inv pc \<and> \<not> pc_leaving pc" pkt_fits ring_get
proof
  fix pc :: proxy_conn and d :: "u8 list" and ds
  assume inv: "ring_inv pc \<and> \<not> pc_leaving pc"
  show "fst (phone_offer d pc) = OK \<and> pkts (snd (phone_offer d pc)) = pkts pc @ [d]" if "pkt_fits (pkts pc) d"
    using that inv ring_put_correct(2) [of pc d] by (simp add: phone_offer_def pkt_fits_def)
  show "fst (phone_offer d pc) \<noteq> OK \<and> pkts (snd (phone_offer d pc)) = pkts pc" if "\<not> pkt_fits (pkts pc) d"
    using that inv by (auto simp: phone_offer_def pkt_fits_def)
  show "ring_inv (snd (phone_offer d pc)) \<and> \<not> pc_leaving (snd (phone_offer d pc))"
    using inv ring_put_correct(1) [of pc d] by (auto simp: phone_offer_def)
  show "ring_get pc = None" if "pkts pc = []" using that by (rule ring_get_empty)
  show "\<exists>pc'. ring_get pc = Some (d, pc') \<and> pkts pc' = ds \<and> ring_inv pc' \<and> \<not> pc_leaving pc'"
    if "pkts pc = d # ds"
    using ring_get_front [of pc d ds] inv that by auto
qed

section \<open>Invariant\<close>

definition slot_inv :: "proxy_conn \<Rightarrow> bool" where
  "slot_inv pc \<longleftrightarrow> ring_inv pc \<and> length (pc_staged pc) = FROMRADIO_MAX_PKT_SIZE \<and>
     pc_staged_len pc \<le> FROMRADIO_MAX_PKT_SIZE \<and> length (pc_cc_frame pc) = 16 \<and> pc_cc_len pc \<le> 16 \<and>
     pc_replay_cursor pc \<le> CONFIG_CACHE_MAX_FRAMES + 1 \<and> wf_id (pc_proxy_id pc) \<and>
     (pc_teardown_work pc \<noteq> None \<longrightarrow> pc_leaving pc) \<and> (pc_leaving pc \<longrightarrow> pc_conn pc \<noteq> None)"

definition tracked_conns :: "gatt \<Rightarrow> bt_conn list" where
  "tracked_conns g = filter (\<lambda>c. c \<noteq> None) (map pc_conn (conns g))"

definition gatt_inv :: "gatt \<Rightarrow> bool" where
  "gatt_inv g \<longleftrightarrow> length (conns g) = MAX_BLE_CONNECTIONS \<and> (\<forall>pc \<in> set (conns g). slot_inv pc) \<and>
     distinct (tracked_conns g) \<and> active_conn_count g = length (tracked_conns g) \<and>
     (\<forall>c. conn_refs g c = (if c \<in> set (tracked_conns g) then 1 else 0)) \<and>
     length (s_qs g) = 16 \<and> s_qs_len g \<le> 16"

text \<open>The frames the replay reads fit the staging buffer and are not empty.\<close>

definition cache_ok :: "cache \<Rightarrow> bool" where
  "cache_ok c \<longleftrightarrow> cache_inv c \<and> (\<forall>f \<in> set (frames c). 1 \<le> length (snd f) \<and> length (snd f) \<le> FROMRADIO_MAX_PKT_SIZE)"

lemma slot_static_inv: "slot_inv slot_static"
  by (simp add: slot_inv_def slot_static_def ring_inv_def layout_consts wf_id_def zero_id_def)

lemma tracked_static [simp]: "tracked_conns gatt_static = []"
  by (simp add: tracked_conns_def gatt_static_def slot_static_def)

lemma gatt_static_inv: "gatt_inv gatt_static"
  unfolding gatt_inv_def tracked_static using slot_static_inv by (simp add: gatt_static_def)

lemma gatt_inv_slot: "gatt_inv g \<Longrightarrow> i < MAX_BLE_CONNECTIONS \<Longrightarrow> slot_inv (conns g ! i)"
  by (simp add: gatt_inv_def)

lemma gatt_inv_find:
  assumes "gatt_inv g" and "find_slot conn g = Some i"
  shows "i < MAX_BLE_CONNECTIONS" and "slot_inv (conns g ! i)" and "pc_conn (conns g ! i) = conn"
  using find_slot_SomeD [OF assms(2)] assms(1) gatt_inv_slot [OF assms(1), of i]
  by (auto simp: gatt_inv_def)

lemma gatt_inv_put:
  assumes "gatt_inv g" and "slot_inv pc" and "pc_conn pc = pc_conn (conns g ! i)"
  shows "gatt_inv (put_slot i pc g)"
proof -
  have "tracked_conns (put_slot i pc g) = tracked_conns g"
    using map_conn_put [OF assms(3)] by (simp add: tracked_conns_def)
  moreover have "\<forall>p \<in> set (conns (put_slot i pc g)). slot_inv p"
    using assms(1,2) set_update_subset_insert [of "conns g" i pc] by (auto simp: gatt_inv_def put_slot_def)
  ultimately show ?thesis using assms(1) by (simp add: gatt_inv_def)
qed

lemma gatt_inv_notify [simp]: "gatt_inv (notify_fromnum c n g) = gatt_inv g"
  by (simp add: gatt_inv_def tracked_conns_def)

lemma gatt_inv_frame [simp]:
  "gatt_inv (g\<lparr>adv_starts := a\<rparr>) = gatt_inv g" "gatt_inv (g\<lparr>disconnects := d\<rparr>) = gatt_inv g"
  "gatt_inv (g\<lparr>led_fromradio_active := b\<rparr>) = gatt_inv g" "gatt_inv (g\<lparr>led_toradio_active := b\<rparr>) = gatt_inv g"
  "gatt_inv (g\<lparr>led_ble_fromradio := b\<rparr>) = gatt_inv g" "gatt_inv (g\<lparr>led_ble_toradio := b\<rparr>) = gatt_inv g"
  "gatt_inv (g\<lparr>led_blink_dwork := e\<rparr>) = gatt_inv g"
  by (simp_all add: gatt_inv_def tracked_conns_def)

subsection \<open>Connecting and disconnecting\<close>

lemma tracked_update:
  assumes "i < length (conns g)"
  shows "mset (tracked_conns g) = mset (filter (\<lambda>c. c \<noteq> None) [pc_conn (conns g ! i)]) +
      mset (filter (\<lambda>c. c \<noteq> None) (map pc_conn (take i (conns g) @ drop (Suc i) (conns g))))"
    and "mset (tracked_conns (put_slot i pc g)) = mset (filter (\<lambda>c. c \<noteq> None) [pc_conn pc]) +
      mset (filter (\<lambda>c. c \<noteq> None) (map pc_conn (take i (conns g) @ drop (Suc i) (conns g))))"
proof -
  have "conns g = take i (conns g) @ conns g ! i # drop (Suc i) (conns g)"
    using assms by (rule id_take_nth_drop)
  then have "tracked_conns g = filter (\<lambda>c. c \<noteq> None)
      (map pc_conn (take i (conns g)) @ pc_conn (conns g ! i) # map pc_conn (drop (Suc i) (conns g)))"
    unfolding tracked_conns_def by (metis list.simps(9) map_append)
  then show "mset (tracked_conns g) = mset (filter (\<lambda>c. c \<noteq> None) [pc_conn (conns g ! i)]) +
      mset (filter (\<lambda>c. c \<noteq> None) (map pc_conn (take i (conns g) @ drop (Suc i) (conns g))))"
    by simp
  show "mset (tracked_conns (put_slot i pc g)) = mset (filter (\<lambda>c. c \<noteq> None) [pc_conn pc]) +
      mset (filter (\<lambda>c. c \<noteq> None) (map pc_conn (take i (conns g) @ drop (Suc i) (conns g))))"
    using assms by (simp add: tracked_conns_def put_slot_def upd_conv_take_nth_drop)
qed

lemma tracked_alloc:
  assumes "i < length (conns g)" and "pc_conn (conns g ! i) = None" and "pc_conn pc \<noteq> None"
  shows "mset (tracked_conns (put_slot i pc g)) = add_mset (pc_conn pc) (mset (tracked_conns g))"
  using tracked_update [OF assms(1)] assms(2,3) by simp

lemma tracked_free:
  assumes "i < length (conns g)" and "pc_conn (conns g ! i) \<noteq> None" and "pc_conn pc = None"
  shows "mset (tracked_conns g) = add_mset (pc_conn (conns g ! i)) (mset (tracked_conns (put_slot i pc g)))"
  using tracked_update [OF assms(1)] assms(2,3) by simp

lemma bt_conn_ref_simps [simp]:
  "conns (bt_conn_ref c g) = conns g" "conns (bt_conn_unref c g) = conns g"
  "active_conn_count (bt_conn_ref c g) = active_conn_count g"
  "active_conn_count (bt_conn_unref c g) = active_conn_count g"
  "s_qs (bt_conn_ref c g) = s_qs g" "s_qs (bt_conn_unref c g) = s_qs g"
  "s_qs_len (bt_conn_ref c g) = s_qs_len g" "s_qs_len (bt_conn_unref c g) = s_qs_len g"
  "conn_refs (bt_conn_ref c g) = (conn_refs g)(c := conn_refs g c + 1)"
  "conn_refs (bt_conn_unref c g) = (conn_refs g)(c := conn_refs g c - 1)"
  "tracked_conns (bt_conn_ref c g) = tracked_conns g" "tracked_conns (bt_conn_unref c g) = tracked_conns g"
  by (simp_all add: bt_conn_ref_def bt_conn_unref_def tracked_conns_def)

text \<open>A slot as \<open>alloc_slot\<close> hands it to connection \<open>c\<close>.\<close>

definition fresh_slot :: "bt_conn \<Rightarrow> proxy_conn \<Rightarrow> bool" where
  "fresh_slot c pc \<longleftrightarrow> pc_conn pc = c \<and> pc_proxy_id pc = zero_id \<and> pc_fromnum pc = 0 \<and>
     pc_state pc = PHONE_CONNECTED \<and> \<not> pc_leaving pc \<and> pc_nonce pc = 0 \<and> pc_replay_cursor pc = 0 \<and>
     pkts pc = [] \<and> pc_staged_len pc = 0 \<and> pc_teardown_work pc = None"

lemma alloc_slot_correct:
  assumes "gatt_inv g" and "conn \<noteq> None" and "conn \<notin> set (tracked_conns g)" and "alloc_slot conn g = (Some i, h)"
  shows "i < MAX_BLE_CONNECTIONS" and "fresh_slot conn (conns h ! i)"
    and "pc_conn (conns g ! i) = None" and "\<And>j. j \<noteq> i \<Longrightarrow> conns h ! j = conns g ! j"
    and "gatt_inv (h\<lparr>active_conn_count := active_conn_count h + 1\<rparr>)"
    and "mset (tracked_conns h) = add_mset conn (mset (tracked_conns g))"
proof -
  let ?pc = "(conns g ! i)\<lparr>pc_conn := conn, pc_proxy_id := zero_id, pc_fromnum := 0, pc_head := 0,
    pc_tail := 0, pc_count := 0, pc_staged_len := 0, pc_state := PHONE_CONNECTED, pc_leaving := False,
    pc_nonce := 0, pc_replay_cursor := 0\<rparr>"
  from assms(4) have idx: "slot_index (\<lambda>pc. pc_conn pc = None) (conns g) = Some i"
    and h: "h = put_slot i ?pc (bt_conn_ref conn g)"
    by (auto simp: alloc_slot_def Let_def split: option.splits)
  from slot_index_SomeD [OF idx] have i: "i < length (conns g)" and free: "pc_conn (conns g ! i) = None" by auto
  show "i < MAX_BLE_CONNECTIONS" using i assms(1) by (simp add: gatt_inv_def)
  show "pc_conn (conns g ! i) = None" by (rule free)
  show "conns h ! j = conns g ! j" if "j \<noteq> i" for j using that by (simp add: h)
  have old: "slot_inv (conns g ! i)" using assms(1) i by (simp add: gatt_inv_def)
  then have t: "pc_teardown_work (conns g ! i) = None" using free by (auto simp: slot_inv_def)
  show "fresh_slot conn (conns h ! i)" using i t by (simp add: h fresh_slot_def pkts_def)
  have pc: "slot_inv ?pc"
    using old t by (simp add: slot_inv_def ring_inv_def layout_consts wf_id_def zero_id_def)
  show tr: "mset (tracked_conns h) = add_mset conn (mset (tracked_conns g))"
    using tracked_alloc [of i "bt_conn_ref conn g" ?pc] i free assms(2) by (simp add: h)
  have "distinct (tracked_conns h)" "set (tracked_conns h) = insert conn (set (tracked_conns g))"
    "length (tracked_conns h) = Suc (length (tracked_conns g))"
    using tr assms(1,3) mset_eq_setD [of "tracked_conns h" "conn # tracked_conns g"]
      mset_eq_length [of "tracked_conns h" "conn # tracked_conns g"]
      mset_eq_imp_distinct_iff [of "tracked_conns h" "conn # tracked_conns g"]
    by (simp_all add: gatt_inv_def)
  moreover have "\<forall>p \<in> set (conns h). slot_inv p"
    using pc assms(1) set_update_subset_insert [of "conns g" i ?pc] by (auto simp: h put_slot_def gatt_inv_def)
  moreover have "conn_refs h c = (if c \<in> insert conn (set (tracked_conns g)) then 1 else 0)" for c
    using assms(1,3) by (simp add: h gatt_inv_def)
  moreover have "length (conns h) = length (conns g)" "active_conn_count h = active_conn_count g"
    "s_qs h = s_qs g" "s_qs_len h = s_qs_len g" by (simp_all add: h)
  ultimately show "gatt_inv (h\<lparr>active_conn_count := active_conn_count h + 1\<rparr>)"
    using assms(1) by (simp add: gatt_inv_def tracked_conns_def)
qed

lemma alloc_slot_full:
  "alloc_slot conn g = (None, h) \<Longrightarrow> h = g \<and> (\<forall>pc \<in> set (conns g). pc_conn pc \<noteq> None)"
  by (auto simp: alloc_slot_def Let_def slot_index_None_iff split: option.splits)

lemma free_slot_correct:
  assumes "gatt_inv g" and "conn \<noteq> None" and "find_slot conn g = Some i" and "h = free_slot i g"
  shows "fresh_slot None (conns h ! i)" and "\<And>j. j \<noteq> i \<Longrightarrow> conns h ! j = conns g ! j"
    and "gatt_inv (h\<lparr>active_conn_count := active_conn_count g - 1\<rparr>)"
    and "mset (tracked_conns g) = add_mset conn (mset (tracked_conns h))"
proof -
  let ?pc = "(conns g ! i)\<lparr>pc_teardown_work := None, pc_conn := None, pc_proxy_id := zero_id, pc_fromnum := 0,
    pc_head := 0, pc_tail := 0, pc_count := 0, pc_staged_len := 0, pc_state := PHONE_CONNECTED,
    pc_leaving := False, pc_nonce := 0, pc_replay_cursor := 0\<rparr>"
  note f = gatt_inv_find [OF assms(1,3)]
  have i: "i < length (conns g)" using f(1) assms(1) by (simp add: gatt_inv_def)
  have h: "h = put_slot i ?pc (bt_conn_unref conn g)"
    using assms(2) f(3) by (simp add: assms(4) free_slot_def Let_def)
  show "fresh_slot None (conns h ! i)" using i by (simp add: h fresh_slot_def pkts_def)
  show "conns h ! j = conns g ! j" if "j \<noteq> i" for j using that by (simp add: h)
  have pc: "slot_inv ?pc"
    using f(2) by (simp add: slot_inv_def ring_inv_def layout_consts wf_id_def zero_id_def)
  show tr: "mset (tracked_conns g) = add_mset conn (mset (tracked_conns h))"
    using tracked_free [of i "bt_conn_unref conn g" ?pc] i f(3) assms(2) by (simp add: h)
  have "distinct (conn # tracked_conns h)" "set (tracked_conns g) = insert conn (set (tracked_conns h))"
    "length (tracked_conns g) = Suc (length (tracked_conns h))"
    using tr assms(1) mset_eq_setD [of "tracked_conns g" "conn # tracked_conns h"]
      mset_eq_length [of "tracked_conns g" "conn # tracked_conns h"]
      mset_eq_imp_distinct_iff [of "tracked_conns g" "conn # tracked_conns h"]
    by (simp_all add: gatt_inv_def)
  moreover have "\<forall>p \<in> set (conns h). slot_inv p"
    using pc assms(1) set_update_subset_insert [of "conns g" i ?pc] by (auto simp: h put_slot_def gatt_inv_def)
  moreover have "conn_refs h = (conn_refs g)(conn := conn_refs g conn - 1)" by (simp add: h)
  moreover have "length (conns h) = length (conns g)" "s_qs h = s_qs g" "s_qs_len h = s_qs_len g"
    by (simp_all add: h)
  ultimately show "gatt_inv (h\<lparr>active_conn_count := active_conn_count g - 1\<rparr>)"
    using assms(1) by (simp add: gatt_inv_def tracked_conns_def)
qed

lemma start_advertising_simps [simp]:
  "snd (ble_gatt_start_advertising adv g) = g\<lparr>adv_starts := adv_starts g + 1\<rparr>"
  by (simp add: ble_gatt_start_advertising_def Let_def)

lemma on_connected_inv:
  assumes "gatt_inv g" and "conn \<noteq> None" and "conn \<notin> set (tracked_conns g)"
  shows "gatt_inv (on_connected adv conn err g)"
proof -
  obtain r h where a: "alloc_slot conn g = (r, h)" by (cases "alloc_slot conn g")
  show ?thesis
  proof (cases r)
    case None
    with a alloc_slot_full [of conn g h] assms(1) show ?thesis
      by (simp add: on_connected_def bt_conn_disconnect_def)
  next
    case (Some i)
    with a alloc_slot_correct(5) [OF assms, of i h] assms(1) show ?thesis by (simp add: on_connected_def Let_def)
  qed
qed

lemma on_disconnected_inv:
  assumes "gatt_inv g" and "conn \<noteq> None"
  shows "gatt_inv (on_disconnected adv conn reason g)"
  using assms free_slot_correct(3) [OF assms]
  by (simp add: on_disconnected_def Let_def split: option.split)

section \<open>Delivery to one phone\<close>

lemma find_slot_own:
  assumes "gatt_inv g" and "i < MAX_BLE_CONNECTIONS" and "pc_conn (conns g ! i) \<noteq> None"
  shows "find_slot (pc_conn (conns g ! i)) g = Some i"
proof -
  have i: "i < length (conns g)" using assms(1,2) by (simp add: gatt_inv_def)
  then have "find_slot (pc_conn (conns g ! i)) g \<noteq> None"
    unfolding find_slot_def by (auto simp: slot_index_None_iff intro: nth_mem)
  then obtain k where k: "find_slot (pc_conn (conns g ! i)) g = Some k" by blast
  have "k = i"
    using distinct_filter_nth [of "\<lambda>c. c \<noteq> None" "map pc_conn (conns g)" k i] find_slot_SomeD [OF k] i assms(1,3)
    by (simp add: gatt_inv_def tracked_conns_def)
  with k show ?thesis by simp
qed

lemma phone_offer_frame [simp]:
  "pc_conn (snd (phone_offer d pc)) = pc_conn pc" "pc_state (snd (phone_offer d pc)) = pc_state pc"
  "pc_leaving (snd (phone_offer d pc)) = pc_leaving pc" "pc_staged (snd (phone_offer d pc)) = pc_staged pc"
  "pc_staged_len (snd (phone_offer d pc)) = pc_staged_len pc"
  "pc_proxy_id (snd (phone_offer d pc)) = pc_proxy_id pc"
  "pc_replay_cursor (snd (phone_offer d pc)) = pc_replay_cursor pc" "pc_nonce (snd (phone_offer d pc)) = pc_nonce pc"
  "pc_cc_frame (snd (phone_offer d pc)) = pc_cc_frame pc" "pc_cc_len (snd (phone_offer d pc)) = pc_cc_len pc"
  by (simp_all add: phone_offer_def)

lemma phone_offer_inv: "slot_inv pc \<Longrightarrow> slot_inv (snd (phone_offer d pc))"
  using ring_put_correct(1) [of pc d] by (auto simp: phone_offer_def slot_inv_def)

lemma put_slot_same [simp]: "put_slot i (conns g ! i) g = g"
  by (simp add: put_slot_def)

lemma enqueue_tracked:
  assumes "find_slot conn g = Some i"
  shows "fst (ble_gatt_enqueue_fromradio conn d g) = fst (phone_offer d (conns g ! i))"
    and "conns (snd (ble_gatt_enqueue_fromradio conn d g)) = (conns g)[i := snd (phone_offer d (conns g ! i))]"
    and "\<exists>ns. snd (ble_gatt_enqueue_fromradio conn d g) =
      (put_slot i (snd (phone_offer d (conns g ! i))) g)\<lparr>notified := notified g @ ns\<rparr>"
proof -
  let ?pc = "snd (phone_offer d (conns g ! i))"
  let ?ns = "if length d \<le> FROMRADIO_MAX_PKT_SIZE \<and> \<not> pc_leaving (conns g ! i) then [(conn, FROMNUM_ATTR_IDX, pc_fromnum ?pc)] else []"
  have eq: "ble_gatt_enqueue_fromradio conn d g =
      (fst (phone_offer d (conns g ! i)), (put_slot i ?pc g)\<lparr>notified := notified g @ ?ns\<rparr>)"
    using assms
    by (simp add: ble_gatt_enqueue_fromradio_def phone_offer_def Let_def notify_fromnum_def put_slot_def)
  show "fst (ble_gatt_enqueue_fromradio conn d g) = fst (phone_offer d (conns g ! i))" by (simp add: eq)
  show "conns (snd (ble_gatt_enqueue_fromradio conn d g)) = (conns g)[i := ?pc]"
    by (simp add: eq put_slot_def)
  show "\<exists>ns. snd (ble_gatt_enqueue_fromradio conn d g) = (put_slot i ?pc g)\<lparr>notified := notified g @ ns\<rparr>"
    unfolding eq snd_conv by (rule exI) (rule refl)
qed

lemma gatt_inv_notified [simp]: "gatt_inv (g\<lparr>notified := n\<rparr>) = gatt_inv g"
  by (simp add: gatt_inv_def tracked_conns_def)

lemma enqueue_inv:
  assumes "gatt_inv g"
  shows "gatt_inv (snd (ble_gatt_enqueue_fromradio conn d g))"
proof (cases "find_slot conn g")
  case None
  with assms show ?thesis by (simp add: ble_gatt_enqueue_fromradio_def)
next
  case (Some i)
  have "gatt_inv (put_slot i (snd (phone_offer d (conns g ! i))) g)"
    using gatt_inv_find [OF assms Some] by (intro gatt_inv_put [OF assms] phone_offer_inv) simp_all
  with enqueue_tracked(3) [OF Some, of d] show ?thesis by (metis gatt_inv_notified)
qed

lemma enqueue_map_conn [simp]:
  "map pc_conn (conns (snd (ble_gatt_enqueue_fromradio conn d g))) = map pc_conn (conns g)"
proof (cases "find_slot conn g")
  case None
  then show ?thesis by (simp add: ble_gatt_enqueue_fromradio_def)
next
  case (Some i)
  show ?thesis
    using map_conn_put [of "snd (phone_offer d (conns g ! i))" g i] enqueue_tracked(2) [OF Some, of d]
    by (simp add: put_slot_def)
qed

text \<open>
  C19: enqueueing a packet for a phone, on every branch: an oversized packet or an unknown
  connection is refused and nothing changes; for a phone that is leaving the packet is refused
  without a notification; for a full queue it is refused, nothing changes but the doorbell rings
  again with the old counter; otherwise the packet is appended to that phone's queue, its counter
  advances by one (wrapping at 32 bits) and the doorbell carries the new value. No other phone is
  affected.
\<close>

theorem enqueue_fromradio_spec:
  assumes "gatt_inv g" and "ble_gatt_enqueue_fromradio conn d g = (r, g')"
  shows "(length d > 512 \<longrightarrow> r = Err EMSGSIZE \<and> g' = g) \<and>
    (length d \<le> 512 \<and> find_slot conn g = None \<longrightarrow> r = Err ENOENT \<and> g' = g) \<and>
    (\<forall>i. length d \<le> 512 \<and> find_slot conn g = Some i \<longrightarrow>
      (if pc_leaving (conns g ! i) then r = Err ESHUTDOWN \<and> g' = g
       else if length (pkts (conns g ! i)) = 16
       then r = Err ENOMEM \<and> conns g' = conns g \<and> notified g' = notified g @ [(conn, FROMNUM_ATTR_IDX, pc_fromnum (conns g ! i))]
       else r = OK \<and> pkts (conns g' ! i) = pkts (conns g ! i) @ [d] \<and>
         pc_fromnum (conns g' ! i) = pc_fromnum (conns g ! i) + 1 \<and>
         notified g' = notified g @ [(conn, FROMNUM_ATTR_IDX, pc_fromnum (conns g ! i) + 1)] \<and>
         (\<forall>j. j \<noteq> i \<longrightarrow> conns g' ! j = conns g ! j)))"
proof (intro conjI impI allI)
  show "r = Err EMSGSIZE" "g' = g" if "512 < length d"
    using that assms(2) by (simp_all add: ble_gatt_enqueue_fromradio_def layout_consts)
  show "r = Err ENOENT" "g' = g" if "length d \<le> 512 \<and> find_slot conn g = None"
    using that assms(2) by (simp_all add: ble_gatt_enqueue_fromradio_def layout_consts)
  fix i
  assume i: "length d \<le> 512 \<and> find_slot conn g = Some i"
  then have "slot_inv (conns g ! i)" and len: "i < length (conns g)"
    using gatt_inv_find [OF assms(1), of conn i] assms(1) by (auto simp: gatt_inv_def)
  then have ring: "ring_inv (conns g ! i)" and cnt: "pc_count (conns g ! i) \<le> 16"
    by (simp_all add: slot_inv_def ring_inv_def layout_consts)
  show "if pc_leaving (conns g ! i) then r = Err ESHUTDOWN \<and> g' = g
       else if length (pkts (conns g ! i)) = 16
       then r = Err ENOMEM \<and> conns g' = conns g \<and> notified g' = notified g @ [(conn, FROMNUM_ATTR_IDX, pc_fromnum (conns g ! i))]
       else r = OK \<and> pkts (conns g' ! i) = pkts (conns g ! i) @ [d] \<and>
         pc_fromnum (conns g' ! i) = pc_fromnum (conns g ! i) + 1 \<and>
         notified g' = notified g @ [(conn, FROMNUM_ATTR_IDX, pc_fromnum (conns g ! i) + 1)] \<and>
         (\<forall>j. j \<noteq> i \<longrightarrow> conns g' ! j = conns g ! j)"
    using i assms(2) len cnt ring_put_correct(2) [OF ring, of d]
    by (auto simp: ble_gatt_enqueue_fromradio_def layout_consts Let_def split: if_splits)
qed

text \<open>A server with two phones connected, for the witnesses.\<close>

definition sample_gatt :: gatt where
  "sample_gatt = on_connected OK (Some 8) 0 (on_connected OK (Some 7) 0 gatt_static)"

lemma static_conns:
  "conns gatt_static = [slot_static, slot_static, slot_static, slot_static, slot_static, slot_static]"
  by (simp add: gatt_static_def layout_consts numeral_eq_Suc)

lemma slot_static_simps [simp]:
  "pc_conn slot_static = None" "pc_leaving slot_static = False" "pkts slot_static = []"
  "pc_fromnum slot_static = 0" "pc_state slot_static = PHONE_CONNECTED" "pc_proxy_id slot_static = zero_id"
  "pkts (slot_static\<lparr>pc_conn := c\<rparr>) = []" "pc_count slot_static = 0"
  by (simp_all add: slot_static_def pkts_def)

lemma first_conns:
  "conns (on_connected OK (Some 7) 0 gatt_static) =
     [slot_static\<lparr>pc_conn := Some 7\<rparr>, slot_static, slot_static, slot_static, slot_static, slot_static]"
  by (simp add: on_connected_def alloc_slot_def put_slot_def Let_def static_conns)
    (simp add: slot_static_def)

lemma sample_gatt_conns:
  "conns sample_gatt = [slot_static\<lparr>pc_conn := Some 7\<rparr>, slot_static\<lparr>pc_conn := Some 8\<rparr>,
     slot_static, slot_static, slot_static, slot_static]"
  by (simp add: sample_gatt_def on_connected_def [of OK "Some 8"] alloc_slot_def put_slot_def Let_def first_conns)
    (simp add: slot_static_def)

lemma sample_gatt_inv: "gatt_inv sample_gatt"
proof -
  let ?g = "on_connected OK (Some 7) 0 gatt_static"
  have inv: "gatt_inv ?g" by (rule on_connected_inv [OF gatt_static_inv]) simp_all
  have "tracked_conns ?g = [Some 7]" by (simp add: tracked_conns_def first_conns)
  then show ?thesis unfolding sample_gatt_def by (intro on_connected_inv [OF inv]) simp_all
qed

lemma sample_gatt_find: "find_slot (Some 7) sample_gatt = Some 0" "find_slot (Some 8) sample_gatt = Some 1"
  by (simp_all add: find_slot_def sample_gatt_conns slot_static_def)

theorem enqueue_fromradio_spec_witness:
  "fst (ble_gatt_enqueue_fromradio (Some 8) [1, 2] sample_gatt) = OK \<and>
   pkts (conns (snd (ble_gatt_enqueue_fromradio (Some 8) [1, 2] sample_gatt)) ! 1) = [[1, 2]]"
proof -
  obtain r g where e: "ble_gatt_enqueue_fromradio (Some 8) [1, 2] sample_gatt = (r, g)" by fastforce
  show ?thesis
    using enqueue_fromradio_spec [OF sample_gatt_inv e] sample_gatt_find(2)
    by (simp add: e sample_gatt_conns slot_static_def pkts_def)
qed

section \<open>Broadcast\<close>

lemma broadcast_one_other:
  "snd (broadcast_one d i (sent, g)) =
    (if pc_conn (conns g ! i) = None then g else snd (ble_gatt_enqueue_fromradio (pc_conn (conns g ! i)) d g))"
  by (simp add: broadcast_one_def Let_def split_beta)

lemma broadcast_prefix:
  assumes "gatt_inv g" and "n \<le> MAX_BLE_CONNECTIONS" and "fold (broadcast_one d) [0..<n] (0, g) = (sent, h)"
  shows "gatt_inv h \<and> map pc_conn (conns h) = map pc_conn (conns g) \<and>
    (\<forall>j. conns h ! j = (if j < n \<and> pc_conn (conns g ! j) \<noteq> None then snd (phone_offer d (conns g ! j)) else conns g ! j)) \<and>
    sent = length (filter (\<lambda>j. pc_conn (conns g ! j) \<noteq> None \<and> fst (phone_offer d (conns g ! j)) = OK) [0..<n])"
  using assms(2,3)
proof (induction n arbitrary: sent h)
  case 0
  with assms(1) show ?case by simp
next
  case (Suc n)
  obtain s k where run: "fold (broadcast_one d) [0..<n] (0, g) = (s, k)" by fastforce
  have ih: "gatt_inv k" "map pc_conn (conns k) = map pc_conn (conns g)"
    "\<And>j. conns k ! j = (if j < n \<and> pc_conn (conns g ! j) \<noteq> None then snd (phone_offer d (conns g ! j)) else conns g ! j)"
    "s = length (filter (\<lambda>j. pc_conn (conns g ! j) \<noteq> None \<and> fst (phone_offer d (conns g ! j)) = OK) [0..<n])"
    using Suc.IH [OF _ run] Suc.prems(1) by auto
  have nth: "conns k ! n = conns g ! n" using ih(3) [of n] by simp
  have step: "broadcast_one d n (s, k) = (sent, h)" using Suc.prems(2) run by simp
  show ?case
  proof (cases "pc_conn (conns g ! n) = None")
    case True
    then have "sent = s" "h = k" using step nth by (simp_all add: broadcast_one_def)
    then show ?thesis using ih True by (auto simp: less_Suc_eq)
  next
    case False
    let ?c = "pc_conn (conns g ! n)"
    have f: "find_slot ?c k = Some n"
      using find_slot_own [OF ih(1), of n] nth False Suc.prems(1) by simp
    note e = enqueue_tracked [OF f, of d]
    have h: "h = snd (ble_gatt_enqueue_fromradio ?c d k)"
      using broadcast_one_other [of d n s k] step nth False by simp
    have "sent = (if fst (phone_offer d (conns g ! n)) = OK then Suc s else s)"
      using step nth False e(1) by (auto simp: broadcast_one_def Let_def split_beta split: if_splits)
    moreover have "n < length (conns k)" using ih(1) Suc.prems(1) by (simp add: gatt_inv_def)
    moreover have "map pc_conn (conns h) = map pc_conn (conns g)" using ih(2) by (simp add: h)
    moreover have "conns h = (conns k)[n := snd (phone_offer d (conns g ! n))]" using e(2) nth h by simp
    ultimately show ?thesis
      using ih(3,4) False enqueue_inv [OF ih(1), of ?c d] by (auto simp: less_Suc_eq nth_list_update h [symmetric])
  qed
qed

lemma broadcast_inv: "gatt_inv g \<Longrightarrow> gatt_inv (snd (ble_gatt_broadcast_fromradio d g))"
  using broadcast_prefix [of g MAX_BLE_CONNECTIONS d]
  by (metis ble_gatt_broadcast_fromradio_def order_refl prod.collapse)

text \<open>
  C20: a broadcast reaches every connected phone that can take the packet and no other slot: the
  packet is appended to the queue of each phone that is not leaving and has room, every other slot
  is left exactly as it was, and the result is the number of phones that received it.
\<close>

theorem broadcast_reaches_all:
  assumes "gatt_inv g" and "length d \<le> 512" and "ble_gatt_broadcast_fromradio d g = (sent, g')"
  defines "takes \<equiv> \<lambda>i. pc_conn (conns g ! i) \<noteq> None \<and> \<not> pc_leaving (conns g ! i) \<and> length (pkts (conns g ! i)) < 16"
  shows "(\<forall>i < 6. if takes i then pkts (conns g' ! i) = pkts (conns g ! i) @ [d] \<and>
      pc_fromnum (conns g' ! i) = pc_fromnum (conns g ! i) + 1 else conns g' ! i = conns g ! i) \<and>
    sent = length (filter takes [0..<6])"
proof -
  have len: "length d \<le> FROMRADIO_MAX_PKT_SIZE" using assms(2) by (simp add: layout_consts)
  have spec: "(\<forall>j. conns g' ! j = (if j < MAX_BLE_CONNECTIONS \<and> pc_conn (conns g ! j) \<noteq> None
      then snd (phone_offer d (conns g ! j)) else conns g ! j)) \<and>
    sent = length (filter (\<lambda>j. pc_conn (conns g ! j) \<noteq> None \<and> fst (phone_offer d (conns g ! j)) = OK)
      [0..<MAX_BLE_CONNECTIONS])"
    using broadcast_prefix [OF assms(1) order_refl, of d sent g'] assms(3)
    by (simp add: ble_gatt_broadcast_fromradio_def)
  have ok: "fst (phone_offer d (conns g ! i)) = OK \<longleftrightarrow>
      \<not> pc_leaving (conns g ! i) \<and> length (pkts (conns g ! i)) < 16" for i
    using len by (simp add: phone_offer_def layout_consts)
  have same: "snd (phone_offer d (conns g ! i)) = conns g ! i"
    if "pc_leaving (conns g ! i) \<or> \<not> length (pkts (conns g ! i)) < 16" for i
    using that len by (auto simp: phone_offer_def layout_consts)
  have put: "pkts (snd (phone_offer d (conns g ! i))) = pkts (conns g ! i) @ [d] \<and>
      pc_fromnum (snd (phone_offer d (conns g ! i))) = pc_fromnum (conns g ! i) + 1"
    if "i < 6" "\<not> pc_leaving (conns g ! i)" "length (pkts (conns g ! i)) < 16" for i
    using that len ring_put_correct(2) [of "conns g ! i" d] gatt_inv_slot [OF assms(1), of i]
    by (simp add: phone_offer_def slot_inv_def layout_consts)
  have "filter (\<lambda>j. pc_conn (conns g ! j) \<noteq> None \<and> fst (phone_offer d (conns g ! j)) = OK)
      [0..<MAX_BLE_CONNECTIONS] = filter takes [0..<6]"
    unfolding takes_def ok by (simp add: layout_consts)
  with spec put same show ?thesis by (auto simp: takes_def layout_consts)
qed

theorem broadcast_reaches_all_witness:
  "fst (ble_gatt_broadcast_fromradio [1, 2] sample_gatt) = 2 \<and>
   pkts (conns (snd (ble_gatt_broadcast_fromradio [1, 2] sample_gatt)) ! 0) = [[1, 2]]"
proof -
  obtain n g where e: "ble_gatt_broadcast_fromradio [1, 2] sample_gatt = (n, g)" by fastforce
  have six: "[0..<6] = [0, 1, 2, 3, 4, 5 :: nat]" by (simp add: upt_rec)
  have len: "length [1, 2 :: u8] \<le> 512" by simp
  note b = broadcast_reaches_all [OF sample_gatt_inv len e, unfolded six]
  have "pkts (conns g ! 0) = [[1, 2]]"
    using b [THEN conjunct1, THEN spec, of 0] by (simp add: sample_gatt_conns)
  moreover have "n = 2" using b [THEN conjunct2] by (simp add: sample_gatt_conns)
  ultimately show ?thesis by (simp add: e)
qed

section \<open>Reading FROMRADIO\<close>

text \<open>
  The documented behaviour of \<open>bt_gatt_attr_read\<close>: up to \<open>len\<close> bytes of the value from the
  offset on.
\<close>

definition attr_read_spec :: "attr_read \<Rightarrow> bool" where
  "attr_read_spec rd \<longleftrightarrow> (\<forall>len off v. off \<le> length v \<longrightarrow> rd len off v = Att_data (take len (drop off v)))"

definition sample_attr_read :: attr_read where
  "sample_attr_read len off v =
     (if off > length v then Att_error BT_ATT_ERR_INVALID_OFFSET else Att_data (take len (drop off v)))"

lemma sample_attr_read_spec: "attr_read_spec sample_attr_read"
  by (simp add: attr_read_spec_def sample_attr_read_def)

text \<open>
  A client that reads a long attribute: it asks for the next part until a response is shorter than
  the response buffer. \<open>n\<close> bounds the number of requests.
\<close>

fun blob_reads :: "attr_read \<Rightarrow> cache \<Rightarrow> bt_conn \<Rightarrow> nat \<Rightarrow> nat \<Rightarrow> nat \<Rightarrow> gatt \<Rightarrow> u8 list option \<times> gatt" where
  "blob_reads rd c conn len off 0 g = (None, g)"
| "blob_reads rd c conn len off (Suc n) g =
     (case fromradio_read rd c conn len off g of
        (Att_error e, g) \<Rightarrow> (None, g)
      | (Att_data bs, g) \<Rightarrow>
          if length bs < len then (Some bs, g)
          else case blob_reads rd c conn len (off + len) n g of
                 (None, g) \<Rightarrow> (None, g)
               | (Some cs, g) \<Rightarrow> (Some (bs @ cs), g))"

definition read_packet :: "attr_read \<Rightarrow> cache \<Rightarrow> bt_conn \<Rightarrow> nat \<Rightarrow> gatt \<Rightarrow> u8 list option \<times> gatt" where
  "read_packet rd c conn len g = blob_reads rd c conn len 0 513 g"

text \<open>The first \<open>k\<close> packets a phone reads.\<close>

fun read_packets :: "attr_read \<Rightarrow> cache \<Rightarrow> bt_conn \<Rightarrow> nat \<Rightarrow> nat \<Rightarrow> gatt \<Rightarrow> u8 list option list \<times> gatt" where
  "read_packets rd c conn len 0 g = ([], g)"
| "read_packets rd c conn len (Suc k) g =
     (let (p, g) = read_packet rd c conn len g; (ps, g) = read_packets rd c conn len k g in (p # ps, g))"

definition staged_value :: "proxy_conn \<Rightarrow> u8 list" where
  "staged_value pc = take (pc_staged_len pc) (pc_staged pc)"

lemma continue_read:
  assumes "attr_read_spec rd" and "find_slot conn g = Some i" and "0 < off"
    and "pc_staged_len (conns g ! i) \<le> length (pc_staged (conns g ! i))"
    and "off \<le> length (staged_value (conns g ! i))"
  shows "fromradio_read rd c conn len off g = (Att_data (take len (drop off (staged_value (conns g ! i)))), g)"
  using assms by (auto simp: fromradio_read_def Let_def attr_read_spec_def staged_value_def)

lemma continue_blobs:
  assumes "attr_read_spec rd" and "find_slot conn g = Some i" and "0 < len"
    and "pc_staged_len (conns g ! i) \<le> length (pc_staged (conns g ! i))"
    and "0 < off" and "off \<le> length (staged_value (conns g ! i))" and "length (staged_value (conns g ! i)) < off + n"
  shows "blob_reads rd c conn len off n g = (Some (drop off (staged_value (conns g ! i))), g)"
  using assms(5-7)
proof (induction n arbitrary: off)
  case (Suc n)
  let ?v = "staged_value (conns g ! i)"
  have rd: "fromradio_read rd c conn len off g = (Att_data (take len (drop off ?v)), g)"
    by (rule continue_read [OF assms(1,2) Suc.prems(1) assms(4) Suc.prems(2)])
  show ?case
  proof (cases "length (take len (drop off ?v)) < len")
    case True
    then have "take len (drop off ?v) = drop off ?v" by simp
    with True show ?thesis by (simp add: rd)
  next
    case False
    then have "off + len \<le> length ?v" using Suc.prems(2) by auto
    with Suc.IH [of "off + len"] Suc.prems assms(3)
    have "blob_reads rd c conn len (off + len) n g = (Some (drop (off + len) ?v), g)" by simp
    moreover have "take len (drop off ?v) @ drop (off + len) ?v = drop off ?v"
      by (metis add.commute append_take_drop_id drop_drop)
    ultimately show ?thesis using False by (simp add: rd)
  qed
qed simp

lemma read_packet_staged:
  assumes "attr_read_spec rd" and "gatt_inv g" and "find_slot conn g = Some i" and "0 < len"
    and "slot_inv (stage_next c (conns g ! i))"
    and "pc_conn (stage_next c (conns g ! i)) = pc_conn (conns g ! i)"
  shows "read_packet rd c conn len g =
    (Some (staged_value (stage_next c (conns g ! i))), put_slot i (stage_next c (conns g ! i)) g)"
proof -
  let ?pc = "stage_next c (conns g ! i)"
  let ?g = "put_slot i ?pc g"
  let ?v = "staged_value ?pc"
  have i: "i < length (conns g)" using find_slot_SomeD [OF assms(3)] by simp
  have f: "find_slot conn ?g = Some i" using find_slot_cong [of ?g g conn] assms(3,6) by simp
  have st: "pc_staged_len ?pc \<le> length (pc_staged ?pc)" "length ?v \<le> 512"
    using assms(5) by (simp_all add: slot_inv_def staged_value_def layout_consts)
  have first: "fromradio_read rd c conn len 0 g = (Att_data (take len ?v), ?g)"
    using assms(1,3) by (auto simp: fromradio_read_def Let_def attr_read_spec_def staged_value_def)
  have unroll: "read_packet rd c conn len g =
      (if length (take len ?v) < len then (Some (take len ?v), ?g)
       else case blob_reads rd c conn len len 512 ?g of
              (None, g) \<Rightarrow> (None, g) | (Some cs, g) \<Rightarrow> (Some (take len ?v @ cs), g))"
    using blob_reads.simps(2) [of rd c conn len 0 512 g] by (simp add: read_packet_def first)
  show ?thesis
  proof (cases "length (take len ?v) < len")
    case True
    then have "take len ?v = ?v" by simp
    with True show ?thesis by (simp add: unroll)
  next
    case False
    then have "blob_reads rd c conn len len 512 ?g = (Some (drop len ?v), ?g)"
      using continue_blobs [OF assms(1) f assms(4), of len 512 c] st i assms(4) by simp
    with False show ?thesis unfolding unroll by simp
  qed
qed

subsection \<open>Staging\<close>

lemma staged_value_bytes:
  "length bs \<le> length (pc_staged pc) \<Longrightarrow> staged_value (stage_bytes bs pc) = bs"
  by (simp add: staged_value_def stage_bytes_def)

lemma stage_bytes_inv:
  "slot_inv pc \<Longrightarrow> length bs \<le> FROMRADIO_MAX_PKT_SIZE \<Longrightarrow> slot_inv (stage_bytes bs pc)"
  by (simp add: stage_bytes_def slot_inv_def ring_inv_def)

lemma stage_bytes_frame [simp]:
  "pkts (stage_bytes bs pc) = pkts pc" "pc_conn (stage_bytes bs pc) = pc_conn pc"
  "pc_state (stage_bytes bs pc) = pc_state pc" "pc_nonce (stage_bytes bs pc) = pc_nonce pc"
  "pc_cc_len (stage_bytes bs pc) = pc_cc_len pc" "pc_cc_frame (stage_bytes bs pc) = pc_cc_frame pc"
  "pc_replay_cursor (stage_bytes bs pc) = pc_replay_cursor pc"
  by (simp_all add: stage_bytes_def pkts_def)

lemma pkts_frame [simp]:
  "pkts (pc\<lparr>pc_replay_cursor := k\<rparr>) = pkts pc" "pkts (pc\<lparr>pc_staged_len := n\<rparr>) = pkts pc"
  "pkts (pc\<lparr>pc_state := s\<rparr>) = pkts pc" "pkts (pc\<lparr>pc_cc_frame := f\<rparr>) = pkts pc"
  "pkts (pc\<lparr>pc_nonce := m\<rparr>) = pkts pc" "pkts (pc\<lparr>pc_cc_len := n\<rparr>) = pkts pc"
  "pkts (pc\<lparr>pc_leaving := b\<rparr>) = pkts pc" "pkts (pc\<lparr>pc_teardown_work := t\<rparr>) = pkts pc"
  "pkts (pc\<lparr>pc_proxy_id := d\<rparr>) = pkts pc"
  by (simp_all add: pkts_def)

lemma stage_queue_empty:
  assumes "slot_inv pc" and "pc_state pc \<noteq> PHONE_REPLAYING" and "pkts pc = []"
  shows "stage_next c pc = pc\<lparr>pc_staged_len := 0\<rparr>"
  using assms ring_get_empty by (simp add: stage_next_def)

lemma stage_queue_front:
  assumes "slot_inv pc" and "pc_state pc \<noteq> PHONE_REPLAYING" and "pkts pc = p # ps"
  shows "slot_inv (stage_next c pc)" and "pkts (stage_next c pc) = ps" and "staged_value (stage_next c pc) = p"
    and "pc_conn (stage_next c pc) = pc_conn pc" and "pc_state (stage_next c pc) = pc_state pc"
proof -
  obtain h n where g: "ring_get pc = Some (p, pc\<lparr>pc_head := h, pc_count := n\<rparr>)"
    "pkts (pc\<lparr>pc_head := h, pc_count := n\<rparr>) = ps" "ring_inv (pc\<lparr>pc_head := h, pc_count := n\<rparr>)"
    "length p \<le> FROMRADIO_MAX_PKT_SIZE"
    using ring_get_front [OF _ assms(3)] assms(1) by (auto simp: slot_inv_def)
  have st: "stage_next c pc = stage_bytes p (pc\<lparr>pc_head := h, pc_count := n\<rparr>)"
    using assms(2) g(1) by (simp add: stage_next_def)
  have "slot_inv (pc\<lparr>pc_head := h, pc_count := n\<rparr>)" using assms(1) g(3) by (simp add: slot_inv_def)
  then show "slot_inv (stage_next c pc)" unfolding st using g(4) by (rule stage_bytes_inv)
  show "pkts (stage_next c pc) = ps" using g(2) by (simp add: st)
  show "staged_value (stage_next c pc) = p"
    unfolding st using g(4) assms(1) by (intro staged_value_bytes) (simp add: slot_inv_def)
  show "pc_conn (stage_next c pc) = pc_conn pc" "pc_state (stage_next c pc) = pc_state pc" by (simp_all add: st)
qed

text \<open>The bytes of the cached frames the phone still has to read, from the cursor on.\<close>

definition replay_seg :: "cache \<Rightarrow> u32 \<Rightarrow> nat \<Rightarrow> u8 list list" where
  "replay_seg c nonce cur =
     map (\<lambda>i. snd (frames c ! i)) (filter (in_segment_spec (frames c) nonce) [cur..<length (frames c)])"

lemma replay_seg_step:
  assumes "cache_inv c" and "cur < s_count c"
  shows "replay_seg c nonce cur = (if cache_frame_in_segment cur nonce c
    then snd (frames c ! cur) # replay_seg c nonce (Suc cur) else replay_seg c nonce (Suc cur))"
  using assms by (simp add: replay_seg_def upt_conv_Cons segment_iff)

lemma skip_frames_seg:
  assumes "cache_inv c" and "cur \<le> s_count c"
  shows "skip_frames c nonce (s_count c) cur \<le> s_count c \<and>
    replay_seg c nonce cur = (if skip_frames c nonce (s_count c) cur < s_count c
      then snd (frames c ! skip_frames c nonce (s_count c) cur) #
        replay_seg c nonce (Suc (skip_frames c nonce (s_count c) cur)) else [])"
  using assms(2)
proof (induction "s_count c - cur" arbitrary: cur)
  case 0
  then have "cur = s_count c" by simp
  with assms(1) show ?case by (subst (1 2 3 4) skip_frames.simps) (simp add: replay_seg_def)
next
  case (Suc m)
  then have lt: "cur < s_count c" by simp
  note seg = replay_seg_step [OF assms(1) lt, of nonce]
  show ?case
  proof (cases "cache_frame_in_segment cur nonce c")
    case True
    then have "skip_frames c nonce (s_count c) cur = cur" by (subst skip_frames.simps) simp
    with True lt seg show ?thesis by simp
  next
    case False
    then have "skip_frames c nonce (s_count c) cur = skip_frames c nonce (s_count c) (Suc cur)"
      using lt by (subst skip_frames.simps) simp
    with Suc.hyps(1) [of "Suc cur"] Suc.hyps(2) lt False seg show ?thesis by simp
  qed
qed

lemma stage_replay_frame:
  assumes "cache_ok c" and "slot_inv pc" and "pc_state pc = PHONE_REPLAYING" and "pc_replay_cursor pc \<le> s_count c"
    and "replay_seg c (pc_nonce pc) (pc_replay_cursor pc) = p # ps"
  shows "\<exists>k \<le> s_count c. stage_next c pc = stage_bytes p (pc\<lparr>pc_replay_cursor := k\<rparr>) \<and>
    replay_seg c (pc_nonce pc) k = ps \<and> length p \<le> FROMRADIO_MAX_PKT_SIZE"
proof -
  have inv: "cache_inv c" using assms(1) by (simp add: cache_ok_def)
  let ?k = "skip_frames c (pc_nonce pc) (s_count c) (pc_replay_cursor pc)"
  have k: "?k < s_count c" "p = snd (frames c ! ?k)" "ps = replay_seg c (pc_nonce pc) (Suc ?k)"
    using skip_frames_seg [OF inv assms(4), of "pc_nonce pc"] assms(5) by (auto split: if_splits)
  note lk = frame_lookup [OF inv k(1)]
  have "frames c ! ?k \<in> set (frames c)" using k(1) inv by (simp add: nth_mem)
  then have "length p \<le> FROMRADIO_MAX_PKT_SIZE" using assms(1) k(2) by (auto simp: cache_ok_def)
  moreover have "stage_next c pc = stage_bytes p (pc\<lparr>pc_replay_cursor := Suc ?k\<rparr>)"
    using assms(3) k(1,2) lk(1,2)
    by (simp add: stage_next_def cache_frame_count_def cache_frame_bytes_def Let_def stage_bytes_def)
  ultimately show ?thesis using k(1,3) by (intro exI [of _ "Suc ?k"]) simp
qed

lemma stage_replay_close:
  assumes "cache_inv c" and "pc_state pc = PHONE_REPLAYING" and "pc_replay_cursor pc \<le> s_count c"
    and "replay_seg c (pc_nonce pc) (pc_replay_cursor pc) = []"
  shows "stage_next c pc =
    stage_bytes (take (pc_cc_len pc) (pc_cc_frame pc)) (pc\<lparr>pc_replay_cursor := Suc (s_count c)\<rparr>)"
proof -
  have "skip_frames c (pc_nonce pc) (s_count c) (pc_replay_cursor pc) = s_count c"
    using skip_frames_seg [OF assms(1,3), of "pc_nonce pc"] assms(4) by (auto split: if_splits)
  then show ?thesis
    using assms(2) by (simp add: stage_next_def cache_frame_count_def Let_def stage_bytes_def)
qed

lemma stage_replay_done:
  assumes "pc_state pc = PHONE_REPLAYING" and "s_count c < pc_replay_cursor pc"
  shows "stage_next c pc = pc\<lparr>pc_state := PHONE_ACTIVE, pc_staged_len := 0\<rparr>"
proof -
  have "skip_frames c (pc_nonce pc) (s_count c) (pc_replay_cursor pc) = pc_replay_cursor pc"
    using assms(2) by (subst skip_frames.simps) simp
  then show ?thesis using assms by (simp add: stage_next_def cache_frame_count_def Let_def)
qed

lemma slot_inv_cursor:
  "slot_inv pc \<Longrightarrow> k \<le> CONFIG_CACHE_MAX_FRAMES + 1 \<Longrightarrow> slot_inv (pc\<lparr>pc_replay_cursor := k\<rparr>)"
  by (simp add: slot_inv_def ring_inv_def)

lemma s_count_max: "cache_inv c \<Longrightarrow> s_count c \<le> CONFIG_CACHE_MAX_FRAMES"
  by (simp add: cache_inv_def)

lemma slot_inv_idle: "slot_inv pc \<Longrightarrow> slot_inv (pc\<lparr>pc_staged_len := 0\<rparr>)"
  by (simp add: slot_inv_def ring_inv_def)

lemma slot_inv_active: "slot_inv pc \<Longrightarrow> slot_inv (pc\<lparr>pc_state := PHONE_ACTIVE, pc_staged_len := 0\<rparr>)"
  by (simp add: slot_inv_def ring_inv_def)

text \<open>Staging never writes outside the 512-byte buffer and never moves a phone.\<close>

lemma stage_next_inv:
  assumes "cache_ok c" and "slot_inv pc"
  shows "slot_inv (stage_next c pc)" and "pc_conn (stage_next c pc) = pc_conn pc"
proof -
  have inv: "cache_inv c" using assms(1) by (simp add: cache_ok_def)
  have "slot_inv (stage_next c pc) \<and> pc_conn (stage_next c pc) = pc_conn pc"
  proof (cases "pc_state pc = PHONE_REPLAYING")
    case False
    show ?thesis
      using stage_queue_empty [OF assms(2) False, of c] stage_queue_front [OF assms(2) False, of _ _ c]
        slot_inv_idle [OF assms(2)] by (cases "pkts pc") simp_all
  next
    case True
    show ?thesis
    proof (cases "pc_replay_cursor pc \<le> s_count c")
      case False
      then show ?thesis using stage_replay_done [OF True, of c] slot_inv_active [OF assms(2)] by simp
    next
      case cur: True
      show ?thesis
      proof (cases "replay_seg c (pc_nonce pc) (pc_replay_cursor pc)")
        case Nil
        have "slot_inv (pc\<lparr>pc_replay_cursor := Suc (s_count c)\<rparr>)"
          using slot_inv_cursor [OF assms(2)] s_count_max [OF inv] by simp
        moreover have "length (take (pc_cc_len pc) (pc_cc_frame pc)) \<le> FROMRADIO_MAX_PKT_SIZE"
          using assms(2) by (simp add: slot_inv_def layout_consts)
        ultimately show ?thesis
          using stage_bytes_inv by (simp add: stage_replay_close [OF inv True cur Nil])
      next
        case (Cons p ps)
        then obtain k where k: "k \<le> s_count c" "stage_next c pc = stage_bytes p (pc\<lparr>pc_replay_cursor := k\<rparr>)"
          "length p \<le> FROMRADIO_MAX_PKT_SIZE"
          using stage_replay_frame [OF assms True cur] by blast
        then show ?thesis
          using stage_bytes_inv [OF slot_inv_cursor [OF assms(2)], of k p] s_count_max [OF inv] by simp
      qed
    qed
  qed
  then show "slot_inv (stage_next c pc)" "pc_conn (stage_next c pc) = pc_conn pc" by auto
qed

lemma fromradio_read_inv:
  assumes "cache_ok c" and "gatt_inv g"
  shows "gatt_inv (snd (fromradio_read rd c conn len off g))"
proof (cases "find_slot conn g")
  case None
  with assms(2) show ?thesis by (simp add: fromradio_read_def)
next
  case (Some i)
  have "gatt_inv (put_slot i (stage_next c (conns g ! i)) g)"
    by (rule gatt_inv_put [OF assms(2) stage_next_inv [OF assms(1) gatt_inv_find(2) [OF assms(2) Some]]])
  with assms(2) Some show ?thesis by (simp add: fromradio_read_def Let_def)
qed

subsection \<open>Draining\<close>

lemma read_packet_next:
  assumes "attr_read_spec rd" and "cache_ok c" and "gatt_inv g" and "find_slot conn g = Some i" and "0 < len"
  shows "read_packet rd c conn len g =
    (Some (staged_value (stage_next c (conns g ! i))), put_slot i (stage_next c (conns g ! i)) g)"
    and "gatt_inv (put_slot i (stage_next c (conns g ! i)) g)"
    and "find_slot conn (put_slot i (stage_next c (conns g ! i)) g) = Some i"
    and "conns (put_slot i (stage_next c (conns g ! i)) g) ! i = stage_next c (conns g ! i)"
proof -
  note s = stage_next_inv [OF assms(2) gatt_inv_find(2) [OF assms(3,4)]]
  show "read_packet rd c conn len g =
    (Some (staged_value (stage_next c (conns g ! i))), put_slot i (stage_next c (conns g ! i)) g)"
    by (rule read_packet_staged [OF assms(1,3,4,5) s])
  show "gatt_inv (put_slot i (stage_next c (conns g ! i)) g)" by (rule gatt_inv_put [OF assms(3) s])
  show "find_slot conn (put_slot i (stage_next c (conns g ! i)) g) = Some i"
    using find_slot_cong [OF map_conn_put [OF s(2)], of conn] assms(4) by simp
  show "conns (put_slot i (stage_next c (conns g ! i)) g) ! i = stage_next c (conns g ! i)"
    using find_slot_SomeD(1) [OF assms(4)] by simp
qed

lemma staged_idle [simp]: "staged_value (pc\<lparr>pc_staged_len := 0\<rparr>) = []"
  by (simp add: staged_value_def)

lemma drain_queue:
  assumes "attr_read_spec rd" and "cache_ok c" and "0 < len"
  shows "gatt_inv g \<Longrightarrow> find_slot conn g = Some i \<Longrightarrow> pc_state (conns g ! i) \<noteq> PHONE_REPLAYING \<Longrightarrow>
    pkts (conns g ! i) = ps \<Longrightarrow>
    \<exists>g'. read_packets rd c conn len (length ps + 1) g = (map Some ps @ [Some []], g') \<and>
      gatt_inv g' \<and> pkts (conns g' ! i) = [] \<and> (\<forall>j. j \<noteq> i \<longrightarrow> conns g' ! j = conns g ! j)"
proof (induction ps arbitrary: g)
  case Nil
  note rp = read_packet_next [OF assms(1,2) Nil.prems(1,2) assms(3)]
  have "stage_next c (conns g ! i) = (conns g ! i)\<lparr>pc_staged_len := 0\<rparr>"
    using stage_queue_empty gatt_inv_find(2) [OF Nil.prems(1,2)] Nil.prems(3,4) by blast
  with rp Nil.prems(4) show ?case by (simp add: Let_def)
next
  case (Cons p ps)
  let ?g = "put_slot i (stage_next c (conns g ! i)) g"
  note rp = read_packet_next [OF assms(1,2) Cons.prems(1,2) assms(3)]
  note sq = stage_queue_front [OF gatt_inv_find(2) [OF Cons.prems(1,2)] Cons.prems(3,4), of c]
  from Cons.IH [OF rp(2,3)] rp(4) sq Cons.prems(3) obtain g' where
    "read_packets rd c conn len (length ps + 1) ?g = (map Some ps @ [Some []], g')"
    "gatt_inv g'" "pkts (conns g' ! i) = []" "\<forall>j. j \<noteq> i \<longrightarrow> conns g' ! j = conns ?g ! j"
    by auto
  with rp(1) sq(3) show ?case by (simp add: Let_def)
qed

subsection \<open>Reading comes to an end\<close>

text \<open>
  The reads a phone still needs before an empty response: the frames of its segment, the closing
  frame and the end of the replay, or the packets queued and the end of the queue.
\<close>

definition reads_left :: "cache \<Rightarrow> proxy_conn \<Rightarrow> nat" where
  "reads_left c pc =
     (if pc_state pc = PHONE_REPLAYING then
        if pc_replay_cursor pc \<le> s_count c
        then length (replay_seg c (pc_nonce pc) (pc_replay_cursor pc)) + 2 else 1
      else length (pkts pc) + 1)"

lemma stage_next_progress:
  assumes "cache_ok c" and "slot_inv pc" and "staged_value (stage_next c pc) \<noteq> []"
  shows "reads_left c (stage_next c pc) < reads_left c pc"
proof (cases "pc_state pc = PHONE_REPLAYING")
  case False
  show ?thesis
  proof (cases "pkts pc")
    case Nil
    then show ?thesis using assms(3) stage_queue_empty [OF assms(2) False, of c] by simp
  next
    case (Cons p ps)
    then show ?thesis
      using False stage_queue_front [OF assms(2) False Cons, of c] by (simp add: reads_left_def)
  qed
next
  case True
  have inv: "cache_inv c" using assms(1) by (simp add: cache_ok_def)
  show ?thesis
  proof (cases "pc_replay_cursor pc \<le> s_count c")
    case False
    then show ?thesis using assms(3) stage_replay_done [OF True, of c] by (simp add: staged_value_def)
  next
    case cur: True
    show ?thesis
    proof (cases "replay_seg c (pc_nonce pc) (pc_replay_cursor pc)")
      case Nil
      then show ?thesis using True cur by (simp add: reads_left_def stage_replay_close [OF inv True cur])
    next
      case (Cons p ps)
      then obtain k where "k \<le> s_count c" "stage_next c pc = stage_bytes p (pc\<lparr>pc_replay_cursor := k\<rparr>)"
        "replay_seg c (pc_nonce pc) k = ps"
        using stage_replay_frame [OF assms(1,2) True cur] by blast
      with True cur Cons show ?thesis by (simp add: reads_left_def)
    qed
  qed
qed

lemma reads_left_bounds:
  assumes "cache_ok c" and "slot_inv pc"
  shows "0 < reads_left c pc" and "reads_left c pc \<le> 130"
proof -
  have "length (replay_seg c n k) \<le> 128" for n k
    using length_filter_le [of "in_segment_spec (frames c) n" "[k..<length (frames c)]"] s_count_max [of c] assms(1)
    by (simp add: replay_seg_def cache_ok_def layout_consts)
  moreover have "length (pkts pc) \<le> 16" using assms(2) by (simp add: slot_inv_def ring_inv_def layout_consts)
  ultimately show "reads_left c pc \<le> 130" by (auto simp: reads_left_def intro: le_trans)
  show "0 < reads_left c pc" by (simp add: reads_left_def)
qed

lemma reads_reach_end:
  assumes "attr_read_spec rd" and "cache_ok c" and "0 < len"
  shows "gatt_inv g \<Longrightarrow> find_slot conn g = Some i \<Longrightarrow>
    (reads_left c (conns g ! i) \<le> k \<longrightarrow> Some [] \<in> set (fst (read_packets rd c conn len k g))) \<and>
    (\<forall>p \<in> set (fst (read_packets rd c conn len k g)). \<exists>bs. p = Some bs \<and> length bs \<le> 512)"
proof (induction k arbitrary: g)
  case 0
  then show ?case
    using reads_left_bounds(1) [OF assms(2) gatt_inv_find(2) [OF 0]] by simp
next
  case (Suc k)
  let ?pc = "stage_next c (conns g ! i)"
  note slot = gatt_inv_find(2) [OF Suc.prems]
  note rp = read_packet_next [OF assms(1,2) Suc.prems assms(3)]
  have small: "length (staged_value ?pc) \<le> 512"
    using stage_next_inv(1) [OF assms(2) slot] by (simp add: slot_inv_def staged_value_def layout_consts)
  show ?case
    using Suc.IH [OF rp(2,3)] rp(1,4) small stage_next_progress [OF assms(2) slot]
    by (cases "staged_value ?pc = []") (auto simp: Let_def split_beta)
qed

lemma cache_static_ok: "cache_ok cache_static"
  by (simp add: cache_ok_def cache_static_inv frames_static)

subsection \<open>Replay\<close>

definition close_bytes :: "proxy_conn \<Rightarrow> u8 list" where
  "close_bytes pc = take (pc_cc_len pc) (pc_cc_frame pc)"

lemma drain_replay:
  assumes "attr_read_spec rd" and "cache_ok c" and "0 < len"
  shows "gatt_inv g \<Longrightarrow> find_slot conn g = Some i \<Longrightarrow> pc_state (conns g ! i) = PHONE_REPLAYING \<Longrightarrow>
    pc_replay_cursor (conns g ! i) \<le> s_count c \<Longrightarrow>
    replay_seg c (pc_nonce (conns g ! i)) (pc_replay_cursor (conns g ! i)) = ps \<Longrightarrow>
    \<exists>g'. read_packets rd c conn len (length ps + 2) g =
        (map Some ps @ [Some (close_bytes (conns g ! i)), Some []], g') \<and>
      gatt_inv g' \<and> find_slot conn g' = Some i \<and> pc_state (conns g' ! i) = PHONE_ACTIVE \<and> pkts (conns g' ! i) = pkts (conns g ! i) \<and>
      (\<forall>j. j \<noteq> i \<longrightarrow> conns g' ! j = conns g ! j)"
proof (induction ps arbitrary: g)
  case Nil
  let ?g = "put_slot i (stage_next c (conns g ! i)) g"
  have inv: "cache_inv c" using assms(2) by (simp add: cache_ok_def)
  have sl: "slot_inv (conns g ! i)" by (rule gatt_inv_find(2) [OF Nil.prems(1,2)])
  note rp = read_packet_next [OF assms(1,2) Nil.prems(1,2) assms(3)]
  note rq = read_packet_next [OF assms(1,2) rp(2,3) assms(3)]
  have s1: "stage_next c (conns g ! i) =
      stage_bytes (close_bytes (conns g ! i)) ((conns g ! i)\<lparr>pc_replay_cursor := Suc (s_count c)\<rparr>)"
    using stage_replay_close [OF inv Nil.prems(3,4,5)] by (simp add: close_bytes_def)
  have v1: "staged_value (stage_next c (conns g ! i)) = close_bytes (conns g ! i)"
    unfolding s1 using sl by (intro staged_value_bytes) (simp add: close_bytes_def slot_inv_def layout_consts)
  have s2: "stage_next c (conns ?g ! i) = (conns ?g ! i)\<lparr>pc_state := PHONE_ACTIVE, pc_staged_len := 0\<rparr>"
    unfolding rp(4) by (rule stage_replay_done) (simp_all add: s1 Nil.prems(3))
  have "read_packets rd c conn len (length [] + 2) g =
      ([Some (close_bytes (conns g ! i)), Some []], put_slot i (stage_next c (conns ?g ! i)) ?g)"
    using rp(1) rq(1) v1 s2 by (simp add: numeral_2_eq_2 Let_def staged_value_def)
  with rq(2,3,4) s2 rp(4) s1 show ?case by simp
next
  case (Cons p ps)
  let ?g = "put_slot i (stage_next c (conns g ! i)) g"
  have sl: "slot_inv (conns g ! i)" by (rule gatt_inv_find(2) [OF Cons.prems(1,2)])
  note rp = read_packet_next [OF assms(1,2) Cons.prems(1,2) assms(3)]
  obtain k where k: "k \<le> s_count c" "stage_next c (conns g ! i) = stage_bytes p ((conns g ! i)\<lparr>pc_replay_cursor := k\<rparr>)"
    "replay_seg c (pc_nonce (conns g ! i)) k = ps" "length p \<le> FROMRADIO_MAX_PKT_SIZE"
    using stage_replay_frame [OF assms(2) sl Cons.prems(3,4,5)] by blast
  have v: "staged_value (stage_next c (conns g ! i)) = p"
    unfolding k(2) using sl k(4) by (intro staged_value_bytes) (simp add: slot_inv_def)
  have cb: "close_bytes (conns ?g ! i) = close_bytes (conns g ! i)"
    unfolding rp(4) by (simp add: k(2) close_bytes_def)
  from Cons.IH [OF rp(2,3), unfolded rp(4) cb] k Cons.prems(3) obtain g' where
    "read_packets rd c conn len (length ps + 2) ?g =
      (map Some ps @ [Some (close_bytes (conns g ! i)), Some []], g')"
    "gatt_inv g'" "find_slot conn g' = Some i" "pc_state (conns g' ! i) = PHONE_ACTIVE" "pkts (conns g' ! i) = pkts (conns g ! i)"
    "\<forall>j. j \<noteq> i \<longrightarrow> conns g' ! j = conns g ! j"
    by (auto simp: close_bytes_def)
  with rp(1) v show ?case by (simp add: Let_def)
qed

subsection \<open>What a reading phone gets\<close>

text \<open>
  What is ahead of a phone's queue when it reads: in a replay, the frames of its segment from the
  cursor on, the closing frame and the empty response that ends the replay; only the latter when
  the closing frame has been read; otherwise nothing.
\<close>

definition replay_rest :: "cache \<Rightarrow> proxy_conn \<Rightarrow> u8 list list" where
  "replay_rest c pc =
     (if pc_state pc \<noteq> PHONE_REPLAYING then []
      else if pc_replay_cursor pc \<le> length (frames c)
      then map (\<lambda>k. snd (frames c ! k))
             (filter (in_segment_spec (frames c) (pc_nonce pc)) [pc_replay_cursor pc..<length (frames c)]) @
           [close_bytes pc, []]
      else [[]])"

lemma read_packets_append:
  "read_packets rd c conn len (m + n) g =
     (let (ps, h) = read_packets rd c conn len m g; (qs, k) = read_packets rd c conn len n h in (ps @ qs, k))"
  by (induction m arbitrary: g) (simp_all add: Let_def split_beta)

lemma drain_rest:
  assumes "attr_read_spec rd" and "cache_ok c" and "0 < len" and "gatt_inv g" and "find_slot conn g = Some i"
  shows "\<exists>g'. read_packets rd c conn len (length (replay_rest c (conns g ! i))) g =
      (map Some (replay_rest c (conns g ! i)), g') \<and> gatt_inv g' \<and> find_slot conn g' = Some i \<and>
    pc_state (conns g' ! i) \<noteq> PHONE_REPLAYING \<and> pkts (conns g' ! i) = pkts (conns g ! i) \<and>
    (\<forall>j. j \<noteq> i \<longrightarrow> conns g' ! j = conns g ! j)"
proof (cases "pc_state (conns g ! i) = PHONE_REPLAYING")
  case False
  with assms(4,5) show ?thesis by (simp add: replay_rest_def)
next
  case True
  show ?thesis
  proof (cases "pc_replay_cursor (conns g ! i) \<le> s_count c")
    case cur: True
    let ?ps = "replay_seg c (pc_nonce (conns g ! i)) (pc_replay_cursor (conns g ! i))"
    have rest: "replay_rest c (conns g ! i) = ?ps @ [close_bytes (conns g ! i), []]"
      using True cur assms(2) by (simp add: replay_rest_def replay_seg_def cache_ok_def)
    from drain_replay [OF assms(1-5) True cur refl] show ?thesis unfolding rest by auto
  next
    case False
    then have rest: "replay_rest c (conns g ! i) = [[]]" using True assms(2) by (simp add: replay_rest_def cache_ok_def)
    note rp = read_packet_next [OF assms(1,2,4,5,3)]
    have s: "stage_next c (conns g ! i) = (conns g ! i)\<lparr>pc_state := PHONE_ACTIVE, pc_staged_len := 0\<rparr>"
      using stage_replay_done [OF True, of c] False by simp
    then show ?thesis
      unfolding rest using rp by (simp add: Let_def staged_value_def)
  qed
qed

lemma drain_all:
  assumes "attr_read_spec rd" and "cache_ok c" and "0 < len" and "gatt_inv g" and "find_slot conn g = Some i"
  shows "\<exists>g'. read_packets rd c conn len (length (replay_rest c (conns g ! i)) + length (pkts (conns g ! i)) + 1) g =
      (map Some (replay_rest c (conns g ! i) @ pkts (conns g ! i) @ [[]]), g') \<and>
    gatt_inv g' \<and> pkts (conns g' ! i) = [] \<and> (\<forall>j. j \<noteq> i \<longrightarrow> conns g' ! j = conns g ! j)"
proof -
  obtain h where h: "read_packets rd c conn len (length (replay_rest c (conns g ! i))) g =
      (map Some (replay_rest c (conns g ! i)), h)" "gatt_inv h" "find_slot conn h = Some i"
    "pc_state (conns h ! i) \<noteq> PHONE_REPLAYING" "pkts (conns h ! i) = pkts (conns g ! i)"
    "\<forall>j. j \<noteq> i \<longrightarrow> conns h ! j = conns g ! j"
    using drain_rest [OF assms] by blast
  from drain_queue [OF assms(1-3) h(2-5)] h(1,6) show ?thesis
    unfolding add.assoc read_packets_append by (auto simp: Let_def)
qed

text \<open>
  C18: a phone that reads FROMRADIO gets exactly what is waiting for it, each packet whole however
  small the ATT response buffer is: first, if a config replay is in progress, the frames of its
  segment still to come, the closing frame and the empty response that ends the replay; then the
  packets queued for it, in order; then an empty response. The queue is empty afterwards and the
  other phones' slots are untouched.
\<close>

theorem fromradio_drains_queue:
  assumes "attr_read_spec rd" and "cache_ok c" and "0 < len" and "gatt_inv g" and "find_slot conn g = Some i"
  shows "\<exists>g'. read_packets rd c conn len (length (replay_rest c (conns g ! i)) + length (pkts (conns g ! i)) + 1) g =
      (map Some (replay_rest c (conns g ! i) @ pkts (conns g ! i) @ [[]]), g') \<and>
    gatt_inv g' \<and> pkts (conns g' ! i) = [] \<and> (\<forall>j. j \<noteq> i \<longrightarrow> conns g' ! j = conns g ! j)"
  by (rule drain_all [OF assms])

definition replay_nonce :: "u32 \<Rightarrow> proxy_conn \<Rightarrow> u32" where
  "replay_nonce nonce pc = (if nonce \<noteq> 0 then nonce else pc_nonce pc)"

lemma encode_close_ok:
  assumes "pb_encode_fromradio pb (config_complete_msg n) 16 = (True, bytes)" and "length bytes \<le> 16"
    and "length buf = 16"
  shows "proto_encode_config_complete pb n buf 16 0 = (OK, memcpy_at buf 0 bytes, length bytes)"
  using assms by (simp add: proto_encode_config_complete_def encode_result_def)

text \<open>The slot of a phone whose replay has just been armed.\<close>

definition armed_slot :: "u32 \<Rightarrow> u8 list \<Rightarrow> proxy_conn \<Rightarrow> proxy_conn" where
  "armed_slot n bytes pc = pc\<lparr>pc_nonce := n, pc_cc_frame := memcpy_at (pc_cc_frame pc) 0 bytes,
     pc_cc_len := length bytes, pc_replay_cursor := 0, pc_state := PHONE_REPLAYING,
     pc_fromnum := pc_fromnum pc + 1\<rparr>"

lemma replay_armed:
  assumes "gatt_inv g" and "find_slot conn g = Some i" and "n = replay_nonce nonce (conns g ! i)"
    and "pb_encode_fromradio pb (config_complete_msg n) 16 = (True, bytes)" and "length bytes \<le> 16"
  shows "ble_gatt_replay_cached_burst pb conn nonce g =
    notify_fromnum conn (pc_fromnum (conns g ! i) + 1) (put_slot i (armed_slot n bytes (conns g ! i)) g)"
proof -
  have "length (pc_cc_frame (conns g ! i)) = 16"
    using gatt_inv_find(2) [OF assms(1,2)] by (simp add: slot_inv_def)
  from encode_close_ok [OF assms(4,5) this] assms(2,3,5) show ?thesis
    by (auto simp: ble_gatt_replay_cached_burst_def Let_def replay_nonce_def armed_slot_def)
qed

lemma armed_slot_inv:
  "slot_inv pc \<Longrightarrow> length bytes \<le> 16 \<Longrightarrow> slot_inv (armed_slot n bytes pc)"
  by (simp add: armed_slot_def slot_inv_def ring_inv_def)

lemma armed_slot_frame [simp]:
  "pc_conn (armed_slot n bytes pc) = pc_conn pc" "pkts (armed_slot n bytes pc) = pkts pc"
  "pc_state (armed_slot n bytes pc) = PHONE_REPLAYING" "pc_replay_cursor (armed_slot n bytes pc) = 0"
  "pc_nonce (armed_slot n bytes pc) = n"
  by (simp_all add: armed_slot_def pkts_def)

lemma close_bytes_armed: "length bytes \<le> 16 \<Longrightarrow> close_bytes (armed_slot n bytes pc) = bytes"
  by (simp add: close_bytes_def armed_slot_def)

lemma replay_drains:
  assumes "attr_read_spec rd" and "cache_ok c" and "0 < len" and "gatt_inv g" and "find_slot conn g = Some i"
    and "n = replay_nonce nonce (conns g ! i)"
    and "pb_encode_fromradio pb (config_complete_msg n) 16 = (True, bytes)" and "length bytes \<le> 16"
    and "seg = map (\<lambda>k. snd (frames c ! k)) (filter (in_segment_spec (frames c) n) [0..<length (frames c)])"
  shows "\<exists>g'. read_packets rd c conn len (length seg + 2) (ble_gatt_replay_cached_burst pb conn nonce g) =
      (map Some seg @ [Some bytes, Some []], g') \<and>
    pc_state (conns g' ! i) = PHONE_ACTIVE \<and> pkts (conns g' ! i) = pkts (conns g ! i) \<and>
    (\<forall>j. j \<noteq> i \<longrightarrow> conns g' ! j = conns g ! j)"
proof -
  let ?a = "armed_slot n bytes (conns g ! i)"
  let ?h = "notify_fromnum conn (pc_fromnum (conns g ! i) + 1) (put_slot i ?a g)"
  have h: "ble_gatt_replay_cached_burst pb conn nonce g = ?h" by (rule replay_armed [OF assms(4-8)])
  have inv: "gatt_inv ?h"
    using gatt_inv_put [OF assms(4) armed_slot_inv [OF gatt_inv_find(2) [OF assms(4,5)] assms(8)]] by simp
  have f: "find_slot conn ?h = Some i" using find_slot_cong [of ?h g conn] assms(5) by simp
  have pc: "conns ?h ! i = ?a" using find_slot_SomeD(1) [OF assms(5)] by simp
  have seg: "replay_seg c (pc_nonce ?a) (pc_replay_cursor ?a) = seg"
    by (simp add: replay_seg_def assms(9))
  from drain_replay [OF assms(1-3) inv f, unfolded pc, OF _ _ seg] obtain g' where
    "read_packets rd c conn len (length seg + 2) ?h = (map Some seg @ [Some (close_bytes ?a), Some []], g')"
    "pc_state (conns g' ! i) = PHONE_ACTIVE" "pkts (conns g' ! i) = pkts ?a"
    "\<forall>j. j \<noteq> i \<longrightarrow> conns g' ! j = conns ?h ! j" by auto
  with close_bytes_armed [OF assms(8)] show ?thesis by (simp add: h)
qed

text \<open>
  C12: the replay of the config to a phone, end to end: once armed, the phone reads exactly the
  cached frames of the segment its nonce asks for, in burst order and each one whole, then the
  closing frame encoded with its own nonce (the one it parked with when the session serves it),
  then an empty response that makes it ACTIVE. The live packets queued for it in the meantime are
  all still there, and no other phone's slot has changed.
\<close>

theorem replay_serves_burst:
  assumes "attr_read_spec rd" and "cache_ok c" and "0 < len" and "gatt_inv g" and "find_slot conn g = Some i"
    and "n = replay_nonce nonce (conns g ! i)"
    and "pb_encode_fromradio pb (config_complete_msg n) 16 = (True, bytes)" and "length bytes \<le> 16"
    and "seg = map (\<lambda>k. snd (frames c ! k)) (filter (in_segment_spec (frames c) n) [0..<length (frames c)])"
  shows "\<exists>g'. read_packets rd c conn len (length seg + 2) (ble_gatt_replay_cached_burst pb conn nonce g) =
      (map Some seg @ [Some bytes, Some []], g') \<and>
    pc_state (conns g' ! i) = PHONE_ACTIVE \<and> pkts (conns g' ! i) = pkts (conns g ! i) \<and>
    (\<forall>j. j \<noteq> i \<longrightarrow> conns g' ! j = conns g ! j)"
  by (rule replay_drains [OF assms])

lemma sample_cache_ok: "cache_ok sample_cache"
  by (simp add: cache_ok_def sample_cache_inv frames_sample_cache layout_consts)

theorem replay_serves_burst_witness:
  "\<exists>g'. read_packets sample_attr_read sample_cache (Some 8) 1 4
      (ble_gatt_replay_cached_burst sample_pb (Some 8) 42 sample_gatt) =
    ([Some [3, 1], Some [4], Some [7, 42], Some []], g') \<and> pc_state (conns g' ! 1) = PHONE_ACTIVE"
proof -
  have n: "42 = replay_nonce 42 (conns sample_gatt ! 1)" by (simp add: replay_nonce_def)
  have enc: "pb_encode_fromradio sample_pb (config_complete_msg 42) 16 = (True, [7, 42])"
    by (simp add: sample_pb_def config_complete_msg_def)
  have len: "length [7, 42 :: u8] \<le> 16" by simp
  have seg: "[[3, 1], [4]] = map (\<lambda>k. snd (frames sample_cache ! k))
      (filter (in_segment_spec (frames sample_cache) 42) [0..<length (frames sample_cache)])"
    by (simp add: frames_sample_cache in_segment_spec_def del: length_frames)
  have l: "length [[3, 1], [4 :: u8]] + 2 = 4" by simp
  from replay_serves_burst [OF sample_attr_read_spec sample_cache_ok _ sample_gatt_inv sample_gatt_find(2) n enc len seg, of 1]
  show ?thesis unfolding l by auto
qed

section \<open>The replay as the session's callback\<close>

text \<open>A codec that never overruns its buffer and can close a burst for every nonce.\<close>

definition pb_closes :: "nanopb \<Rightarrow> bool" where
  "pb_closes pb \<longleftrightarrow> pb_bounded pb \<and> (\<forall>n. fst (pb_encode_fromradio pb (config_complete_msg n) 16))"

definition replay_pending :: "gatt \<Rightarrow> bt_conn \<Rightarrow> bool" where
  "replay_pending g conn \<longleftrightarrow>
     (\<exists>i. find_slot conn g = Some i \<and> pc_state (conns g ! i) = PHONE_REPLAYING \<and> pc_replay_cursor (conns g ! i) = 0)"

lemma replay_frame:
  assumes "gatt_inv g" and "pb_bounded pb"
  shows "\<exists>pc ns. ble_gatt_replay_cached_burst pb conn nonce g =
      (case find_slot conn g of None \<Rightarrow> g | Some i \<Rightarrow> (put_slot i pc g)\<lparr>notified := notified g @ ns\<rparr>) \<and>
    (\<forall>i. find_slot conn g = Some i \<longrightarrow> slot_inv pc \<and> pc_conn pc = pc_conn (conns g ! i))"
proof (cases "find_slot conn g")
  case None
  then show ?thesis by (simp add: ble_gatt_replay_cached_burst_def)
next
  case (Some i)
  let ?n = "replay_nonce nonce (conns g ! i)"
  have sl: "slot_inv (conns g ! i)" by (rule gatt_inv_find(2) [OF assms(1) Some])
  obtain ok bytes where e: "pb_encode_fromradio pb (config_complete_msg ?n) 16 = (ok, bytes)" by fastforce
  have len: "length bytes \<le> 16"
    using assms(2) e unfolding pb_bounded_def by (metis snd_conv)
  show ?thesis
  proof (cases ok)
    case True
    with e len have "ble_gatt_replay_cached_burst pb conn nonce g =
        notify_fromnum conn (pc_fromnum (conns g ! i) + 1) (put_slot i (armed_slot ?n bytes (conns g ! i)) g)"
      using replay_armed [OF assms(1) Some refl] by simp
    then show ?thesis
      using Some armed_slot_inv [OF sl len]
      by (intro exI [of _ "armed_slot ?n bytes (conns g ! i)"] exI [of _ "[(conn, FROMNUM_ATTR_IDX, pc_fromnum (conns g ! i) + 1)]"])
        (auto simp: notify_fromnum_def put_slot_def)
  next
    case False
    let ?pc = "(conns g ! i)\<lparr>pc_nonce := ?n, pc_cc_frame := memcpy_at (pc_cc_frame (conns g ! i)) 0 bytes\<rparr>"
    have "ble_gatt_replay_cached_burst pb conn nonce g = put_slot i ?pc g"
      using Some e False
      by (cases "nonce = 0") (simp_all add: ble_gatt_replay_cached_burst_def proto_encode_config_complete_def
          encode_result_cases replay_nonce_def Let_def)
    moreover have "slot_inv ?pc" using sl len by (simp add: slot_inv_def ring_inv_def)
    ultimately show ?thesis
      using Some by (intro exI [of _ ?pc] exI [of _ "[]"]) (auto simp: put_slot_def)
  qed
qed

lemma replay_inv:
  assumes "gatt_inv g" and "pb_bounded pb"
  shows "gatt_inv (ble_gatt_replay_cached_burst pb conn nonce g)"
    and "map pc_conn (conns (ble_gatt_replay_cached_burst pb conn nonce g)) = map pc_conn (conns g)"
    and "\<And>j. find_slot conn g \<noteq> Some j \<Longrightarrow> conns (ble_gatt_replay_cached_burst pb conn nonce g) ! j = conns g ! j"
proof -
  obtain pc ns where r: "ble_gatt_replay_cached_burst pb conn nonce g =
      (case find_slot conn g of None \<Rightarrow> g | Some i \<Rightarrow> (put_slot i pc g)\<lparr>notified := notified g @ ns\<rparr>)"
    "\<forall>i. find_slot conn g = Some i \<longrightarrow> slot_inv pc \<and> pc_conn pc = pc_conn (conns g ! i)"
    using replay_frame [OF assms] by blast
  show "gatt_inv (ble_gatt_replay_cached_burst pb conn nonce g)"
    using r assms(1) by (auto intro: gatt_inv_put split: option.split)
  show "map pc_conn (conns (ble_gatt_replay_cached_burst pb conn nonce g)) = map pc_conn (conns g)"
    using r by (auto split: option.split)
  show "conns (ble_gatt_replay_cached_burst pb conn nonce g) ! j = conns g ! j" if "find_slot conn g \<noteq> Some j" for j
    using r that by (auto split: option.split)
qed

text \<open>A phone with a packet queued that asks for its config reads the config first.\<close>

theorem fromradio_drains_queue_witness:
  "\<exists>g'. read_packets sample_attr_read sample_cache (Some 8) 1 6
     (ble_gatt_replay_cached_burst sample_pb (Some 8) 42 (snd (ble_gatt_enqueue_fromradio (Some 8) [1, 2] sample_gatt))) =
     ([Some [3, 1], Some [4], Some [7, 42], Some [], Some [1, 2], Some []], g')"
proof -
  let ?g = "snd (ble_gatt_enqueue_fromradio (Some 8) [1, 2] sample_gatt)"
  let ?h = "ble_gatt_replay_cached_burst sample_pb (Some 8) 42 ?g"
  have g: "gatt_inv ?g" by (rule enqueue_inv [OF sample_gatt_inv])
  have f: "find_slot (Some 8) ?g = Some 1"
    using find_slot_cong [of ?g sample_gatt] sample_gatt_find(2) by simp
  have pc: "conns ?g ! 1 = snd (phone_offer [1, 2] (slot_static\<lparr>pc_conn := Some 8\<rparr>))"
    using enqueue_tracked(2) [OF sample_gatt_find(2)] by (simp add: sample_gatt_conns)
  have "slot_inv (slot_static\<lparr>pc_conn := Some 8\<rparr>)"
    using gatt_inv_find(2) [OF sample_gatt_inv sample_gatt_find(2)] by (simp add: sample_gatt_conns)
  then have q: "pkts (conns ?g ! 1) = [[1, 2]]"
    using phone_ring.contents_add [of "slot_static\<lparr>pc_conn := Some 8\<rparr>" "[1, 2]"]
    by (simp only: pc) (simp add: slot_inv_def pkt_fits_def layout_consts)
  have enc: "pb_encode_fromradio sample_pb (config_complete_msg 42) 16 = (True, [7, 42])"
    by (simp add: sample_pb_def config_complete_msg_def)
  have n: "42 = replay_nonce 42 (conns ?g ! 1)" by (simp add: replay_nonce_def)
  have h: "?h = notify_fromnum (Some 8) (pc_fromnum (conns ?g ! 1) + 1) (put_slot 1 (armed_slot 42 [7, 42] (conns ?g ! 1)) ?g)"
    by (rule replay_armed [OF g f n enc]) simp
  have slot: "conns ?h ! 1 = armed_slot 42 [7, 42] (conns ?g ! 1)"
    unfolding h using find_slot_SomeD(1) [OF f] by simp
  have inv: "gatt_inv ?h" by (rule replay_inv(1) [OF g sample_pb_bounded])
  have f': "find_slot (Some 8) ?h = Some 1"
    using find_slot_cong [OF replay_inv(2) [OF g sample_pb_bounded], of "Some 8"] f by simp
  have rest: "replay_rest sample_cache (conns ?h ! 1) = [[3, 1], [4], [7, 42], []]"
    unfolding slot by (simp add: replay_rest_def close_bytes_armed frames_sample_cache in_segment_spec_def del: length_frames)
  have queue: "pkts (conns ?h ! 1) = [[1, 2]]" unfolding slot using q by simp
  have six: "length [[3, 1], [4], [7, 42], [] :: u8 list] + length [[1, 2 :: u8]] + 1 = 6" by simp
  from fromradio_drains_queue [OF sample_attr_read_spec sample_cache_ok _ inv f', of 1]
  show ?thesis unfolding rest queue six by auto
qed

lemma tracked_find:
  assumes "gatt_inv g" and "c \<in> set (tracked_conns g)"
  shows "\<exists>i. find_slot c g = Some i"
proof -
  obtain pc where "pc \<in> set (conns g)" "pc_conn pc = c" using assms(2) by (auto simp: tracked_conns_def)
  then have "find_slot c g \<noteq> None" unfolding find_slot_def slot_index_None_iff by blast
  then show ?thesis by blast
qed

interpretation replay_cb: serve_callback "ble_gatt_replay_cached_burst pb"
  "\<lambda>g. gatt_inv g \<and> pb_closes pb" "\<lambda>g c. c \<in> set (tracked_conns g)" replay_pending
proof
  fix g :: gatt and c d :: bt_conn and n :: u32
  assume inv: "gatt_inv g \<and> pb_closes pb"
  then have b: "gatt_inv g" "pb_bounded pb" by (simp_all add: pb_closes_def)
  let ?g = "ble_gatt_replay_cached_burst pb c n g"
  show "gatt_inv ?g \<and> pb_closes pb" using inv replay_inv(1) [OF b] by simp
  show "(d \<in> set (tracked_conns ?g)) = (d \<in> set (tracked_conns g))"
    using replay_inv(2) [OF b, of c n] by (simp add: tracked_conns_def)
  have find: "find_slot e ?g = find_slot e g" for e by (rule find_slot_cong) (rule replay_inv(2) [OF b])
  show "replay_pending ?g c" if tr: "c \<in> set (tracked_conns g)"
  proof -
    obtain i where i: "find_slot c g = Some i" using tracked_find [OF b(1) tr] by blast
    let ?n = "replay_nonce n (conns g ! i)"
    obtain bytes where e: "pb_encode_fromradio pb (config_complete_msg ?n) 16 = (True, bytes)" "length bytes \<le> 16"
      using inv unfolding pb_closes_def pb_bounded_def by (metis (full_types) prod.collapse)
    show ?thesis
      using replay_armed [OF b(1) i refl e] find [of c] i find_slot_SomeD(1) [OF i]
      by (simp add: replay_pending_def)
  qed
  show "replay_pending ?g d = replay_pending g d" if "d \<noteq> c"
  proof -
    have "conns ?g ! j = conns g ! j" if "find_slot d g = Some j" for j
    proof -
      have "find_slot c g \<noteq> Some j"
        using find_slot_SomeD(2) [OF that] find_slot_SomeD(2) [of c g j] \<open>d \<noteq> c\<close> by auto
      then show ?thesis by (rule replay_inv(3) [OF b])
    qed
    then show ?thesis by (auto simp: replay_pending_def find)
  qed
qed

section \<open>The remaining operations keep the invariant\<close>

lemma register_inv:
  assumes "gatt_inv g" and "wf_id pid"
  shows "gatt_inv (snd (ble_gatt_register_proxy_id conn pid g))"
  using assms gatt_inv_find(2) [OF assms(1), of conn]
  by (auto simp: ble_gatt_register_proxy_id_def slot_inv_def ring_inv_def intro!: gatt_inv_put split: option.split)

lemma node_reg_inv: "gatt_inv g \<Longrightarrow> gatt_inv (snd (node_reg_write conn buf off g))"
  using register_inv [of g "\<lparr>id_bytes = buf\<rparr>" conn]
  by (simp add: node_reg_write_def Let_def split_beta wf_id_def)

lemma request_teardown_inv:
  assumes "gatt_inv g" and "conn \<noteq> None"
  shows "gatt_inv (snd (ble_gatt_request_teardown conn g))"
  using assms gatt_inv_find(2,3) [OF assms(1), of conn]
  by (auto simp: ble_gatt_request_teardown_def slot_inv_def ring_inv_def intro!: gatt_inv_put split: option.split)

lemma teardown_handler_inv: "gatt_inv g \<Longrightarrow> gatt_inv (teardown_work_handler i g)"
  by (simp add: teardown_work_handler_def bt_conn_ref_def bt_conn_unref_def bt_conn_disconnect_def
      gatt_inv_def tracked_conns_def Let_def)

lemma teardown_fired_inv:
  assumes "gatt_inv g"
  shows "gatt_inv (put_slot i ((conns g ! i)\<lparr>pc_teardown_work := None\<rparr>) g)"
proof (cases "i < length (conns g)")
  case True
  then have "slot_inv (conns g ! i)" using assms by (simp add: gatt_inv_def)
  then show ?thesis by (intro gatt_inv_put [OF assms]) (auto simp: slot_inv_def ring_inv_def)
qed (use assms in \<open>simp add: put_slot_def list_update_beyond\<close>)

lemma queuestatus_stored_inv:
  assumes "gatt_inv g" and "pb_bounded pb" and "proto_encode_queue_status pb (s_qs g) 16 (s_qs_len g) = (rc, buf, len)"
  shows "gatt_inv (g\<lparr>s_qs := buf, s_qs_len := (if rc \<noteq> OK then 0 else len)\<rparr>)"
proof -
  let ?r = "pb_encode_fromradio pb queue_status_msg 16"
  have l: "length (snd ?r) \<le> 16" using assms(2) by (simp add: pb_bounded_def)
  have "length (s_qs g) = 16" "s_qs_len g \<le> 16" using assms(1) by (simp_all add: gatt_inv_def)
  then have "length buf = 16" "len \<le> 16"
    using assms(3) l by (auto simp: proto_encode_queue_status_def encode_result_cases split: if_splits)
  then show ?thesis using assms(1) by (simp add: gatt_inv_def tracked_conns_def)
qed

lemma reply_queuestatus_inv:
  assumes "gatt_inv g" and "pb_bounded pb"
  shows "gatt_inv (ble_gatt_reply_queuestatus pb conn g)"
proof -
  obtain rc buf len where e: "proto_encode_queue_status pb (s_qs g) 16 (s_qs_len g) = (rc, buf, len)"
    by (cases "proto_encode_queue_status pb (s_qs g) 16 (s_qs_len g)")
  with assms(1) queuestatus_stored_inv [OF assms e] show ?thesis
    by (cases "s_qs_len g = 0") (auto simp: ble_gatt_reply_queuestatus_def Let_def enqueue_inv)
qed

lemma gatt_init_inv:
  assumes "gatt_inv g"
  shows "gatt_inv (snd (ble_gatt_init leds g))"
proof -
  have "\<forall>pc \<in> set (conns g). slot_inv (pc\<lparr>pc_teardown_work := None\<rparr>)"
    using assms by (auto simp: gatt_inv_def slot_inv_def ring_inv_def)
  then show ?thesis
    using assms by (simp add: ble_gatt_init_def gatt_inv_def tracked_conns_def comp_def Let_def)
qed

section \<open>Departure\<close>

lemma teardown_fresh:
  "\<not> pc_leaving (conns g ! k) \<Longrightarrow> teardown_work_handler k g = g"
  by (simp add: teardown_work_handler_def Let_def)

text \<open>
  a departing phone's teardown never hits its successor. A phone that announces its departure
  is no longer queued for, and when the delayed teardown runs it asks the stack to drop exactly
  that link. But if the phone's own disconnect comes first and another phone connects, into the
  recycled slot or any other, the newcomer starts with an empty queue, no identity and no pending
  teardown, and a teardown that was already running does nothing to it.
\<close>

theorem teardown_spares_newcomer:
  assumes "gatt_inv g" and "a \<noteq> None" and "find_slot a g = Some i"
    and "g1 = snd (ble_gatt_request_teardown a g)" and "g2 = on_disconnected adv a reason g1"
    and "b \<noteq> None" and "b \<notin> set (tracked_conns g2)" and "g3 = on_connected adv' b 0 g2"
  shows "fst (ble_gatt_request_teardown a g) = OK \<and>
    (length d \<le> 512 \<longrightarrow> ble_gatt_enqueue_fromradio a d g1 = (Err ESHUTDOWN, g1)) \<and>
    pc_teardown_work (conns g1 ! i) = Some 250 \<and>
    disconnects (teardown_work_handler i g1) = disconnects g1 @ [(a, 0x13)] \<and>
    (\<exists>k < 6. find_slot b g3 = Some k \<and> fresh_slot b (conns g3 ! k) \<and> teardown_work_handler k g3 = g3)"
proof -
  note f = gatt_inv_find [OF assms(1,3)]
  have i: "i < length (conns g)" using find_slot_SomeD(1) [OF assms(3)] .
  let ?pc = "(conns g ! i)\<lparr>pc_leaving := True, pc_teardown_work := Some TEARDOWN_DELAY_MS\<rparr>"
  have g1: "g1 = put_slot i ?pc g" and ok: "fst (ble_gatt_request_teardown a g) = OK"
    using assms(3,4) by (simp_all add: ble_gatt_request_teardown_def)
  have inv1: "gatt_inv g1" unfolding assms(4) by (rule request_teardown_inv [OF assms(1,2)])
  have f1: "find_slot a g1 = Some i" using find_slot_cong [of g1 g a] assms(3) by (simp add: g1)
  have enq: "length d \<le> 512 \<longrightarrow> ble_gatt_enqueue_fromradio a d g1 = (Err ESHUTDOWN, g1)"
    using f1 i by (simp add: ble_gatt_enqueue_fromradio_def layout_consts g1)
  have td: "disconnects (teardown_work_handler i g1) = disconnects g1 @ [(a, 0x13)]"
    using i f(3) assms(2)
    by (simp add: g1 teardown_work_handler_def Let_def bt_conn_disconnect_def bt_conn_ref_def bt_conn_unref_def
        BT_HCI_ERR_REMOTE_USER_TERM_CONN_def)
  have inv2: "gatt_inv g2" unfolding assms(5) by (rule on_disconnected_inv [OF inv1 assms(2)])
  have "pc_conn (conns g2 ! i) = None"
    using free_slot_correct(1) [OF inv1 assms(2) f1 refl] f1 by (simp add: assms(5) on_disconnected_def fresh_slot_def)
  then have "\<not> (\<forall>pc \<in> set (conns g2). pc_conn pc \<noteq> None)"
    using f(1) inv2 nth_mem [of i "conns g2"] by (auto simp: gatt_inv_def)
  then obtain k h where a: "alloc_slot b g2 = (Some k, h)"
    using alloc_slot_full [of b g2] by (metis not_None_eq prod.collapse)
  note al = alloc_slot_correct [OF inv2 assms(6,7) a]
  have c3: "conns g3 = conns h" using a by (simp add: assms(8) on_connected_def Let_def)
  have inv3: "gatt_inv g3" unfolding assms(8) by (rule on_connected_inv [OF inv2 assms(6,7)])
  have "find_slot b g3 = Some k"
    using find_slot_own [OF inv3 al(1)] al(2) assms(6) by (simp add: c3 fresh_slot_def)
  moreover have "teardown_work_handler k g3 = g3"
    by (rule teardown_fresh) (use al(2) in \<open>simp add: c3 fresh_slot_def\<close>)
  ultimately show ?thesis
    using ok enq td al(1,2) i by (auto simp: c3 g1 TEARDOWN_DELAY_MS_def layout_consts)
qed

theorem teardown_spares_newcomer_witness:
  "\<exists>k < 6. find_slot (Some 9) (on_connected OK (Some 9) 0
     (on_disconnected OK (Some 7) 0 (snd (ble_gatt_request_teardown (Some 7) sample_gatt)))) = Some k"
proof -
  let ?g1 = "snd (ble_gatt_request_teardown (Some 7) sample_gatt)"
  let ?g2 = "on_disconnected OK (Some 7) 0 ?g1"
  have "find_slot (Some 7) ?g1 = Some 0"
    by (simp add: ble_gatt_request_teardown_def sample_gatt_find find_slot_def put_slot_def sample_gatt_conns)
  then have "Some 9 \<notin> set (tracked_conns ?g2)"
    by (simp add: on_disconnected_def Let_def free_slot_def ble_gatt_request_teardown_def sample_gatt_find
        put_slot_def sample_gatt_conns tracked_conns_def bt_conn_unref_def)
  from teardown_spares_newcomer [OF sample_gatt_inv _ sample_gatt_find(1) refl refl _ this refl]
  show ?thesis by auto
qed

section \<open>Lookup by identifier\<close>

lemma lookup_sound:
  assumes "ble_gatt_get_conn_by_proxy_id pid g = Some c"
  shows "\<not> proxy_id_is_zero pid \<and> (\<exists>i < length (conns g). pc_conn (conns g ! i) = Some c \<and>
    proxy_id_equal (pc_proxy_id (conns g ! i)) pid)"
  using assms slot_index_SomeD by (fastforce simp: ble_gatt_get_conn_by_proxy_id_def split: if_splits option.splits)

lemma lookup_complete:
  assumes "\<not> proxy_id_is_zero pid" and "i < length (conns g)" and "pc_conn (conns g ! i) \<noteq> None"
    and "proxy_id_equal (pc_proxy_id (conns g ! i)) pid"
    and "\<And>j. j < length (conns g) \<Longrightarrow> j \<noteq> i \<Longrightarrow> pc_conn (conns g ! j) \<noteq> None \<Longrightarrow>
      \<not> proxy_id_equal (pc_proxy_id (conns g ! j)) pid"
  shows "ble_gatt_get_conn_by_proxy_id pid g = pc_conn (conns g ! i)"
proof -
  let ?P = "\<lambda>pc. pc_conn pc \<noteq> None \<and> proxy_id_equal (pc_proxy_id pc) pid"
  have "slot_index ?P (conns g) \<noteq> None"
    using assms(2-4) nth_mem [OF assms(2)] unfolding slot_index_None_iff by blast
  then obtain k where k: "slot_index ?P (conns g) = Some k" by blast
  with slot_index_SomeD [OF k] assms(5) have "k = i" by blast
  with k assms(1) show ?thesis by (simp add: ble_gatt_get_conn_by_proxy_id_def)
qed

text \<open>
  C21: a phone that writes a 4-byte identifier to NODE_REG is found under it: if the identifier is
  not all zero and no other connected phone has registered it, the lookup returns that phone, and
  once it disconnects the lookup finds nobody. A write of another length or at an offset is
  rejected and registers nothing; the all-zero identifier is never found.
\<close>

theorem registered_phone_found:
  assumes "gatt_inv g" and "conn \<noteq> None" and "find_slot conn g = Some i"
    and "length buf = 4" and "buf \<noteq> [0, 0, 0, 0]"
    and "\<forall>j < 6. j \<noteq> i \<longrightarrow> pc_conn (conns g ! j) \<noteq> None \<longrightarrow> id_bytes (pc_proxy_id (conns g ! j)) \<noteq> buf"
    and "node_reg_write conn buf 0 g = (r, g')"
  shows "r = Att_written 4 \<and> ble_gatt_get_conn_by_proxy_id \<lparr>id_bytes = buf\<rparr> g' = conn \<and>
    ble_gatt_get_conn_by_proxy_id \<lparr>id_bytes = buf\<rparr> (on_disconnected adv conn reason g') = None \<and>
    (\<forall>b off. off \<noteq> 0 \<or> length b \<noteq> 4 \<longrightarrow>
      node_reg_write conn b off g = (Att_write_error BT_ATT_ERR_INVALID_ATTRIBUTE_LEN, g)) \<and>
    ble_gatt_get_conn_by_proxy_id zero_id g' = None"
proof -
  let ?id = "\<lparr>id_bytes = buf\<rparr>"
  have four: "PROXY_ID_SIZE = 4" by (simp add: PROXY_ID_SIZE_def)
  have wf: "wf_id ?id" using assms(4) by (simp add: wf_id_def four)
  have nz: "\<not> proxy_id_is_zero ?id"
    using assms(5) proxy_id_is_zero_iff [OF wf] by (simp add: four numeral_eq_Suc)
  have eq: "proxy_id_equal a ?id \<longleftrightarrow> id_bytes a = buf" if "wf_id a" for a
    using proxy_id_equal_iff [OF that wf] by (cases a) simp
  have len: "length (conns g) = 6" using assms(1) by (simp add: gatt_inv_def layout_consts)
  note f = gatt_inv_find [OF assms(1,3)]
  have g': "g' = put_slot i ((conns g ! i)\<lparr>pc_proxy_id := ?id\<rparr>) g" and r: "r = Att_written 4"
    using assms(3,4,7) by (auto simp: node_reg_write_def ble_gatt_register_proxy_id_def four Let_def)
  have inv': "gatt_inv g'" using node_reg_inv [OF assms(1), of conn buf 0] assms(7) by simp
  have slots: "conns g' ! i = (conns g ! i)\<lparr>pc_proxy_id := ?id\<rparr>" "\<And>j. j \<noteq> i \<Longrightarrow> conns g' ! j = conns g ! j"
    "length (conns g') = 6"
    using f(1) len by (simp_all add: g' layout_consts)
  have others: "\<not> proxy_id_equal (pc_proxy_id (conns g ! j)) ?id"
    if "j < 6" "j \<noteq> i" "pc_conn (conns g ! j) \<noteq> None" for j
    using that assms(6) eq gatt_inv_slot [OF assms(1), of j] by (simp add: slot_inv_def layout_consts)
  have "ble_gatt_get_conn_by_proxy_id ?id g' = pc_conn (conns g' ! i)"
    using others slots f(1,3) assms(2) wf eq [of ?id]
    by (intro lookup_complete [OF nz]) (simp_all add: layout_consts)
  then have found: "ble_gatt_get_conn_by_proxy_id ?id g' = conn" using f(3) slots(1) by simp
  have f': "find_slot conn g' = Some i" using find_slot_cong [of g' g conn] assms(3) by (simp add: g')
  let ?d = "on_disconnected adv conn reason g'"
  have d: "conns ?d = conns (free_slot i g')" using f' by (simp add: on_disconnected_def)
  note fr = free_slot_correct [OF inv' assms(2) f' refl]
  have "length (conns (free_slot i g')) = 6"
    using fr(3) by (simp add: gatt_inv_def layout_consts)
  then have "ble_gatt_get_conn_by_proxy_id ?id ?d = None"
    using lookup_sound [of ?id ?d] fr(1,2) others slots(2) d
    by (cases "ble_gatt_get_conn_by_proxy_id ?id ?d") (auto simp: fresh_slot_def, metis option.distinct(1))
  moreover have "proxy_id_is_zero zero_id"
    using proxy_id_is_zero_iff [of zero_id] by (simp add: zero_id_def wf_id_def)
  ultimately show ?thesis
    using r found by (simp add: node_reg_write_def ble_gatt_get_conn_by_proxy_id_def four)
qed

theorem registered_phone_found_witness:
  "ble_gatt_get_conn_by_proxy_id \<lparr>id_bytes = [1, 2, 3, 4]\<rparr> (snd (node_reg_write (Some 8) [1, 2, 3, 4] 0 sample_gatt)) = Some 8"
proof -
  obtain r g where e: "node_reg_write (Some 8) [1, 2, 3, 4] 0 sample_gatt = (r, g)" by fastforce
  have ids: "\<forall>j < 6. j \<noteq> 1 \<longrightarrow> pc_conn (conns sample_gatt ! j) \<noteq> None \<longrightarrow>
      id_bytes (pc_proxy_id (conns sample_gatt ! j)) \<noteq> [1, 2, 3, 4]"
    by (simp add: sample_gatt_conns numeral_eq_Suc All_less_Suc zero_id_def PROXY_ID_SIZE_def)
  from registered_phone_found [OF sample_gatt_inv _ sample_gatt_find(2) _ _ ids e] e show ?thesis by simp
qed

end
