(* ===== verification/Router.thy ===== *)
theory Router
  imports Ble_Gatt
begin

text \<open>
  The dispatch of frames from the node to the phones, \<^verbatim>\<open>src/src/router.c\<close>. The state is the
  session record with the GATT server as its client, which is everything the function's callees
  change. \<open>rnd\<close> is the random number a recovery fetch draws.
\<close>

section \<open>Dispatch\<close>

definition broadcast :: "u8 list \<Rightarrow> gatt session \<Rightarrow> gatt session" where
  "broadcast raw w = w\<lparr>client := snd (ble_gatt_broadcast_fromradio raw (client w))\<rparr>"

definition router_dispatch ::
  "nanopb \<Rightarrow> u32 \<Rightarrow> u8 list \<Rightarrow> fromradio_info \<Rightarrow> gatt session \<Rightarrow> gatt session" where
  "router_dispatch pb rnd raw info w =
     (let ust = upstream_get_state w;
          (consumed, w) = (if ust = UPSTREAM_FETCHING \<or> ust = UPSTREAM_REFETCHING
                           then upstream_on_fromradio pb raw info w else (False, w))
      in if consumed then w
         else if which_variant info \<noteq> FromRadio_packet_tag then
           if which_variant info = FromRadio_rebooted_tag then upstream_refetch pb rnd w
           else
             let (swallowed, w) = (if which_variant info = FromRadio_queueStatus_tag
                                   then upstream_swallow_live_queuestatus w else (False, w))
             in if swallowed then w else broadcast raw (upstream_liveness_kick w)
         else
           let w = upstream_liveness_kick w in
           if \<not> is_decoded info then broadcast raw w
           else if portnum info = PROXY_PORTNUM then
             (case proxy_header_parse (payload_bytes info) of
                None \<Rightarrow> broadcast raw w
              | Some hdr \<Rightarrow>
                  (case ble_gatt_get_conn_by_proxy_id (h_dst hdr) (client w) of
                     Some c \<Rightarrow> w\<lparr>client := snd (ble_gatt_enqueue_fromradio (Some c) raw (client w))\<rparr>
                   | None \<Rightarrow> broadcast raw w))
           else broadcast raw w)"

section \<open>What the session's operations leave to the router\<close>

lemma liveness_kick_frame [simp]:
  "client (upstream_liveness_kick w) = client w" "cch (upstream_liveness_kick w) = cch w"
  "uar (upstream_liveness_kick w) = uar w" "s_state (up (upstream_liveness_kick w)) = s_state (up w)"
  "s_serve_cb (upstream_liveness_kick w) = s_serve_cb w"
  by (simp_all add: upstream_liveness_kick_def)

lemma keepalive_reschedule_frame [simp]:
  "client (upstream_keepalive_reschedule w) = client w" "cch (upstream_keepalive_reschedule w) = cch w"
  "uar (upstream_keepalive_reschedule w) = uar w" "s_serve_cb (upstream_keepalive_reschedule w) = s_serve_cb w"
  by (simp_all add: upstream_keepalive_reschedule_def)

lemma refetch_frame [simp]:
  "client (upstream_refetch pb rnd w) = client w" "cch (upstream_refetch pb rnd w) = cch w"
  "s_serve_cb (upstream_refetch pb rnd w) = s_serve_cb w"
  by (simp_all add: upstream_refetch_def fetch_retry_arm_def Let_def split_beta)

lemma swallow_frame [simp]:
  "client (snd (upstream_swallow_live_queuestatus w)) = client w"
  "cch (snd (upstream_swallow_live_queuestatus w)) = cch w" "uar (snd (upstream_swallow_live_queuestatus w)) = uar w"
  "s_serve_cb (snd (upstream_swallow_live_queuestatus w)) = s_serve_cb w"
  "fst (upstream_swallow_live_queuestatus w) = s_keepalive_pending (up w)"
  by (simp_all add: upstream_swallow_live_queuestatus_def)

lemma broadcast_frame [simp]:
  "client (broadcast raw w) = snd (ble_gatt_broadcast_fromradio raw (client w))"
  "cch (broadcast raw w) = cch w" "uar (broadcast raw w) = uar w" "up (broadcast raw w) = up w"
  "s_serve_cb (broadcast raw w) = s_serve_cb w"
  by (simp_all add: broadcast_def)

text \<open>The phones see a consumed frame only when it closes the boot fetch.\<close>

definition closes_boot :: "nanopb \<Rightarrow> u8 list \<Rightarrow> fromradio_info \<Rightarrow> 'g session \<Rightarrow> bool" where
  "closes_boot pb raw info w \<longleftrightarrow> s_state (up w) = UPSTREAM_FETCHING \<and>
     which_variant info = FromRadio_config_complete_id_tag \<and>
     decode_config_complete_nonce pb raw = Some (s_nonce (up w))"

lemma on_fromradio_client:
  assumes "session_inv w"
  shows "client (snd (upstream_on_fromradio pb raw info w)) =
    (if closes_boot pb raw info w then serve_all (s_serve_cb w) (pending_phones (up w)) (client w) else client w)"
proof (cases "closes_boot pb raw info w")
  case True
  have "pending_inv (up w)" using assms by (simp add: session_inv_def upstream_inv_def)
  with True on_fromradio_boot_close [of w info pb raw] show ?thesis
    by (simp add: closes_boot_def boot_closed_def)
next
  case False
  then show ?thesis
    by (auto simp: upstream_on_fromradio_def closes_boot_def fetch_retry_arm_def upstream_liveness_kick_def Let_def
        split: option.split)
qed

lemma fetching_consumes:
  "fst (upstream_on_fromradio pb raw info w) \<longleftrightarrow> fetching (up w) \<and> which_variant info \<noteq> FromRadio_packet_tag"
  by (auto simp: upstream_on_fromradio_def fetching_def Let_def split: option.split)

section \<open>The routing decision\<close>

text \<open>The phone a packet is addressed to, if the packet is one of the proxy's and the phone is registered.\<close>

definition routed_to :: "fromradio_info \<Rightarrow> gatt \<Rightarrow> bt_conn" where
  "routed_to info g =
     (if is_decoded info \<and> portnum info = PROXY_PORTNUM
      then case proxy_header_parse (payload_bytes info) of
             None \<Rightarrow> None
           | Some hdr \<Rightarrow> ble_gatt_get_conn_by_proxy_id (h_dst hdr) g
      else None)"

lemma dispatch_packet:
  assumes "which_variant info = FromRadio_packet_tag"
  shows "router_dispatch pb rnd raw info w = (case routed_to info (client w) of
      None \<Rightarrow> broadcast raw (upstream_liveness_kick w)
    | Some c \<Rightarrow> (upstream_liveness_kick w)\<lparr>client := snd (ble_gatt_enqueue_fromradio (Some c) raw (client w))\<rparr>)"
  using assms on_fromradio_not_consumed [of w info pb raw]
  by (auto simp: router_dispatch_def routed_to_def upstream_get_state_def Let_def split: option.split)

lemma dispatch_other:
  assumes "which_variant info \<noteq> FromRadio_packet_tag"
  shows "router_dispatch pb rnd raw info w =
    (if fetching (up w) then snd (upstream_on_fromradio pb raw info w)
     else if which_variant info = FromRadio_rebooted_tag then upstream_refetch pb rnd w
     else if which_variant info = FromRadio_queueStatus_tag \<and> s_keepalive_pending (up w)
     then snd (upstream_swallow_live_queuestatus w)
     else broadcast raw (upstream_liveness_kick w))"
  using assms fetching_consumes [of pb raw info w]
  by (auto simp: router_dispatch_def upstream_get_state_def fetching_def Let_def split_beta
      upstream_swallow_live_queuestatus_def)

text \<open>
  C13: what the phones see of a frame from the node, for every kind of frame and every state of
  the session. A mesh packet, also during a fetch, goes to the registered phone its proxy header
  names, or to all phones if it is encrypted, of another port, malformed or addressed to nobody
  registered; if that phone refuses it (it is leaving, or its queue is full) nobody gets it. Any other frame is hidden while a fetch is in progress (except that the frame that
  closes the boot fetch serves the waiting phones), a reboot notice and the reply to the proxy's
  own keepalive are hidden always, and the rest is broadcast.
\<close>

theorem router_decides:
  assumes "session_inv w"
  shows "client (router_dispatch pb rnd raw info w) =
    (if which_variant info = FromRadio_packet_tag then
       (case routed_to info (client w) of
          Some c \<Rightarrow> snd (ble_gatt_enqueue_fromradio (Some c) raw (client w))
        | None \<Rightarrow> snd (ble_gatt_broadcast_fromradio raw (client w)))
     else if s_state (up w) \<in> {UPSTREAM_FETCHING, UPSTREAM_REFETCHING} then
       (if closes_boot pb raw info w then serve_all (s_serve_cb w) (pending_phones (up w)) (client w)
        else client w)
     else if which_variant info = FromRadio_rebooted_tag \<or>
       which_variant info = FromRadio_queueStatus_tag \<and> s_keepalive_pending (up w) then client w
     else snd (ble_gatt_broadcast_fromradio raw (client w)))"
proof (cases "which_variant info = FromRadio_packet_tag")
  case True
  then show ?thesis by (simp add: dispatch_packet split: option.split)
next
  case False
  then show ?thesis
    using on_fromradio_client [OF assms, of pb raw info] by (auto simp: dispatch_other fetching_def)
qed

definition sample_proxy :: "gatt session" where
  "sample_proxy = \<lparr>up = upstream_static, cch = cache_static, uar = uart_static,
     client = snd (node_reg_write (Some 8) [1, 2, 3, 4] 0 sample_gatt),
     s_serve_cb = Some (ble_gatt_replay_cached_burst sample_pb)\<rparr>"

lemma sample_proxy_inv: "session_inv sample_proxy" "gatt_inv (client sample_proxy)"
  using session_static_inv [of sample_proxy] node_reg_inv [OF sample_gatt_inv] by (simp_all add: sample_proxy_def)

theorem router_decides_witness:
  "client (router_dispatch sample_pb 5 [3, 1] (fromradio_info_zero\<lparr>which_variant := FromRadio_rebooted_tag\<rparr>) sample_proxy)
     = client sample_proxy"
  using router_decides [OF sample_proxy_inv(1), of sample_pb 5 "[3, 1]"
      "fromradio_info_zero\<lparr>which_variant := FromRadio_rebooted_tag\<rparr>"]
  by (simp add: sample_proxy_def upstream_static_def)

end
