(* ===== verification/Main_Proxy.thy ===== *)
theory Main_Proxy
  imports Router
begin

text \<open>
  The two callbacks that connect the drivers and the boot sequence, \<^verbatim>\<open>src/src/main.c\<close>.
  The answers of the platform during the boot are a record; a boot that reaches the endless main
  loop has the result \<open>OK\<close>.
\<close>

section \<open>Callbacks\<close>

definition on_fromradio_uart :: "nanopb \<Rightarrow> u32 \<Rightarrow> u8 list \<Rightarrow> gatt session \<Rightarrow> gatt session" where
  "on_fromradio_uart pb rnd payload w =
     (let (rc, info) = proto_decode_fromradio pb payload in
      if rc \<noteq> OK then broadcast payload w
      else router_dispatch pb rnd payload info w)"

definition on_toradio_ble :: "nanopb \<Rightarrow> bt_conn \<Rightarrow> u8 list \<Rightarrow> gatt session \<Rightarrow> gatt session" where
  "on_toradio_ble pb conn data w =
     (let (rc, ti) = proto_decode_toradio pb data in
      if rc \<noteq> OK then snd (session_tx data w)
      else if has_want_config ti then
        let st = upstream_get_state w in
        if st \<noteq> UPSTREAM_LIVE \<and> st \<noteq> UPSTREAM_CACHE_READY then w
        else if st = UPSTREAM_CACHE_READY \<or> st = UPSTREAM_LIVE \<or> st = UPSTREAM_REFETCHING
        then w\<lparr>client := ble_gatt_replay_cached_burst pb conn (want_config_id ti) (client w)\<rparr>
        else ble_gatt_park_pending conn (want_config_id ti) w
      else if has_heartbeat ti then w\<lparr>client := ble_gatt_reply_queuestatus pb conn (client w)\<rparr>
      else if has_disconnect ti then w\<lparr>client := snd (ble_gatt_request_teardown conn (client w))\<rparr>
      else
        let (err, w) = session_tx data w in
        if err = Err ENOMEM then w
        else if err \<noteq> OK then w
        else upstream_keepalive_reschedule w)"

section \<open>Boot\<close>

record platform =
  ble_leds_ready :: bool
  bt_enable_rc :: rc
  adv_start_rc :: rc
  uart_leds_ready :: bool
  uart_dev_ready :: bool
  uart_callback_rc :: rc
  uart_rx_enable_rc :: rc
  boot_rand :: u32

definition proxy_main :: "nanopb \<Rightarrow> platform \<Rightarrow> gatt session \<Rightarrow> rc \<times> gatt session" where
  "proxy_main pb pl w =
     (let (err, g) = ble_gatt_init (ble_leds_ready pl) (client w);
          w = w\<lparr>client := g\<rparr>
      in if err \<noteq> OK then (err, w)
         else if bt_enable_rc pl \<noteq> OK then (bt_enable_rc pl, w)
         else
           let (err, g) = ble_gatt_start_advertising (adv_start_rc pl) (client w);
               w = w\<lparr>client := g\<rparr>
           in if err \<noteq> OK then (err, w)
              else
                let (err, u) = uart_meshtastic_init (uart_leds_ready pl) (uart_dev_ready pl)
                                 (uart_callback_rc pl) (uart_rx_enable_rc pl) (uar w);
                    w = w\<lparr>uar := u\<rparr>
                in if err \<noteq> OK then (err, w)
                   else
                     let w = upstream_set_serve_cb (Some (ble_gatt_replay_cached_burst pb)) w;
                         w = upstream_session_start pb (boot_rand pl) w
                     in (OK, w))"

section \<open>What a phone's message does\<close>

lemma toradio_control:
  assumes "proto_decode_toradio pb data = (OK, ti)" and "has_want_config ti \<or> has_heartbeat ti \<or> has_disconnect ti"
  shows "\<exists>g. on_toradio_ble pb conn data w = w\<lparr>client := g\<rparr>"
  using assms by (auto simp: on_toradio_ble_def Let_def intro: exI [of _ "client w"])

lemma toradio_forward:
  assumes "proto_decode_toradio pb data = (rc, ti)"
    and "rc \<noteq> OK \<or> \<not> has_want_config ti \<and> \<not> has_heartbeat ti \<and> \<not> has_disconnect ti"
  shows "uar (on_toradio_ble pb conn data w) = snd (uart_meshtastic_tx data (uar w))"
    and "client (on_toradio_ble pb conn data w) = client w" and "cch (on_toradio_ble pb conn data w) = cch w"
  using assms by (auto simp: on_toradio_ble_def Let_def split_beta)

text \<open>
  C15: the node never sees a phone's session control. A want-config, a heartbeat or a disconnect
  written by a phone leaves the UART, the session and the cache exactly as they were; a real
  packet, or bytes that do not decode, goes unchanged to the end of the UART queue if it fits, and
  leaves the phones alone.
\<close>

theorem toradio_never_forwards_control:
  shows "case proto_decode_toradio pb data of (rc, ti) \<Rightarrow>
    if rc = OK \<and> (has_want_config ti \<or> has_heartbeat ti \<or> has_disconnect ti)
    then uar (on_toradio_ble pb conn data w) = uar w \<and> up (on_toradio_ble pb conn data w) = up w \<and>
      cch (on_toradio_ble pb conn data w) = cch w
    else tx_msgq (uar (on_toradio_ble pb conn data w)) =
        (if length data \<le> 512 \<and> length (tx_msgq (uar w)) < 4 then tx_msgq (uar w) @ [data] else tx_msgq (uar w)) \<and>
      client (on_toradio_ble pb conn data w) = client w \<and> cch (on_toradio_ble pb conn data w) = cch w"
proof -
  obtain rc ti where d: "proto_decode_toradio pb data = (rc, ti)" by fastforce
  show ?thesis
  proof (cases "rc = OK \<and> (has_want_config ti \<or> has_heartbeat ti \<or> has_disconnect ti)")
    case True
    then obtain g where "on_toradio_ble pb conn data w = w\<lparr>client := g\<rparr>" using toradio_control d by blast
    with True d show ?thesis by simp
  next
    case False
    then have "rc \<noteq> OK \<or> \<not> has_want_config ti \<and> \<not> has_heartbeat ti \<and> \<not> has_disconnect ti" by blast
    from toradio_forward [OF d this] False d show ?thesis by (auto simp: uart_meshtastic_tx_def layout_consts)
  qed
qed

text \<open>
  C33: a phone that asks for the config while the session is not live gets no answer at all: in
  BOOT, FETCHING and REFETCHING the request changes nothing, the phone is neither parked nor
  served, although the cache may be complete (REFETCHING).
\<close>

theorem want_config_dropped_while_fetching:
  assumes "proto_decode_toradio pb data = (OK, ti)" and "has_want_config ti"
    and "s_state (up w) \<in> {UPSTREAM_BOOT, UPSTREAM_FETCHING, UPSTREAM_REFETCHING}"
  shows "on_toradio_ble pb conn data w = w"
  using assms by (auto simp: on_toradio_ble_def upstream_get_state_def)

theorem want_config_dropped_while_fetching_witness:
  "on_toradio_ble sample_pb (Some 8) [3, 42] sample_proxy = sample_proxy"
proof -
  have d: "proto_decode_toradio sample_pb [3, 42] =
      (OK, toradio_info_zero\<lparr>has_want_config := True, want_config_id := 42\<rparr>)"
    by (simp add: proto_decode_toradio_def sample_pb_def toradio_zero_def)
  show ?thesis
    by (rule want_config_dropped_while_fetching [OF d]) (simp_all add: sample_proxy_def upstream_static_def)
qed

section \<open>Boot\<close>

text \<open>What the boot returns: the error of the first platform call that fails.\<close>

definition boot_result :: "platform \<Rightarrow> rc" where
  "boot_result pl =
     (if bt_enable_rc pl \<noteq> OK then bt_enable_rc pl
      else if adv_start_rc pl \<noteq> OK \<and> adv_start_rc pl \<noteq> Err EALREADY then adv_start_rc pl
      else if \<not> uart_dev_ready pl then Err ENODEV
      else if uart_callback_rc pl \<noteq> OK then uart_callback_rc pl
      else uart_rx_enable_rc pl)"

lemma proxy_main_result: "fst (proxy_main pb pl w) = boot_result pl"
  by (simp add: proxy_main_def boot_result_def ble_gatt_init_def ble_gatt_start_advertising_def
      uart_meshtastic_init_def Let_def split_beta)

lemma proxy_main_failed:
  assumes "boot_result pl \<noteq> OK" and "proxy_main pb pl w = (r, w')"
  shows "up w' = up w" and "cch w' = cch w" and "s_serve_cb w' = s_serve_cb w" and "tx_msgq (uar w') = tx_msgq (uar w)"
    and "rx_enabled (uar w') = rx_enabled (uar w)"
    and "adv_starts (client w') = adv_starts (client w) + (if bt_enable_rc pl = OK then 1 else 0)"
  using assms
  by (auto simp: proxy_main_def boot_result_def ble_gatt_init_def ble_gatt_start_advertising_def
      uart_meshtastic_init_def Let_def split_beta split: if_splits)

text \<open>
  C34: the boot sequence. Its result is that of the first platform call that fails, in the order
  enabling Bluetooth, starting to advertise (already advertising is no failure), the UART device
  being ready, setting its callback, enabling reception; and OK if none does. After a failure
  nothing has been sent to the node, reception is off, the session, the cache and its callback are
  untouched, and advertising was started only if Bluetooth came up. After a success, provided the
  encoder can encode the request in at most 512 bytes, the firmware is advertising and receiving,
  the replay is the session's callback, the proxy's own config request, with a nonce that is
  neither 0 nor 1, is the only payload in the transmit queue, and the session is FETCHING with its
  retry watchdog and its keepalive armed.
\<close>

theorem proxy_main_boots:
  assumes "up w = upstream_static" and "cch w = cache_static" and "uar w = uart_static" and "client w = gatt_static"
    and "pb_encode_toradio pb (want_config_msg (fetch_nonce (boot_rand pl))) (pb_toradio_size pb) = (True, bytes)"
    and "length bytes \<le> 512" and "proxy_main pb pl w = (r, w')"
  shows "r = (if bt_enable_rc pl \<noteq> OK then bt_enable_rc pl
      else if adv_start_rc pl \<notin> {OK, Err EALREADY} then adv_start_rc pl
      else if \<not> uart_dev_ready pl then Err ENODEV
      else if uart_callback_rc pl \<noteq> OK then uart_callback_rc pl
      else if uart_rx_enable_rc pl \<noteq> OK then uart_rx_enable_rc pl else OK) \<and>
    (r \<noteq> OK \<longrightarrow> tx_msgq (uar w') = [] \<and> \<not> rx_enabled (uar w') \<and> up w' = up w \<and> cch w' = cch w \<and>
      s_serve_cb w' = s_serve_cb w \<and> adv_starts (client w') = (if bt_enable_rc pl = OK then 1 else 0)) \<and>
    (r = OK \<longrightarrow>
      s_state (up w') = UPSTREAM_FETCHING \<and> tx_msgq (uar w') = [bytes] \<and> tx_work_pending (uar w') \<and>
      rx_enabled (uar w') \<and> adv_starts (client w') = 1 \<and>
      s_serve_cb w' = Some (ble_gatt_replay_cached_burst pb) \<and> s_nonce (up w') \<notin> {0, 1} \<and>
      s_fetch_retry_work (up w') = Some 2000 \<and> s_keepalive_work (up w') = Some 300000 \<and>
      session_inv w' \<and> gatt_inv (client w') \<and> tx_live (uar w'))"
proof (intro conjI impI)
  have res: "r = boot_result pl" using proxy_main_result [of pb pl w] assms(7) by simp
  show "r = (if bt_enable_rc pl \<noteq> OK then bt_enable_rc pl
      else if adv_start_rc pl \<notin> {OK, Err EALREADY} then adv_start_rc pl
      else if \<not> uart_dev_ready pl then Err ENODEV
      else if uart_callback_rc pl \<noteq> OK then uart_callback_rc pl
      else if uart_rx_enable_rc pl \<noteq> OK then uart_rx_enable_rc pl else OK)"
    by (simp add: res boot_result_def)
  assume "r \<noteq> OK"
  with res have bad: "boot_result pl \<noteq> OK" by simp
  note f = proxy_main_failed [OF bad assms(7)]
  show "tx_msgq (uar w') = []" "\<not> rx_enabled (uar w')" "up w' = up w" "cch w' = cch w" "s_serve_cb w' = s_serve_cb w"
    "adv_starts (client w') = (if bt_enable_rc pl = OK then 1 else 0)"
    using f by (simp_all add: assms(3,4) uart_static_def gatt_static_def)
next
  let ?g = "snd (ble_gatt_start_advertising (adv_start_rc pl) (snd (ble_gatt_init (ble_leds_ready pl) gatt_static)))"
  let ?u = "snd (uart_meshtastic_init (uart_leds_ready pl) True OK OK uart_static)"
  let ?v = "w\<lparr>client := ?g, uar := ?u, s_serve_cb := Some (ble_gatt_replay_cached_burst pb)\<rparr>"
  have init: "fst (ble_gatt_init (ble_leds_ready pl) gatt_static) = OK" by (simp add: ble_gatt_init_def Let_def)
  have gi: "gatt_inv ?g" using gatt_init_inv [OF gatt_static_inv] by simp
  have adv: "adv_starts ?g = 1" by (simp add: ble_gatt_init_def gatt_static_def Let_def)
  have u: "tx_msgq ?u = []" "rx_enabled ?u" "fst (uart_meshtastic_init (uart_leds_ready pl) True OK OK uart_static) = OK"
    by (simp_all add: uart_meshtastic_init_def uart_static_def Let_def)
  have ui: "tx_live ?u"
    using tx_static_inv by (simp add: tx_live_def tx_inv_def uart_meshtastic_init_def uart_static_def Let_def)
  have si: "session_inv ?v" by (rule session_static_inv) (simp_all add: assms(1,2))
  have tx: "uart_meshtastic_tx bytes ?u = (OK, ?u\<lparr>tx_msgq := [bytes], tx_work_pending := True\<rparr>)"
    using assms(6) u(1) by (simp add: uart_meshtastic_tx_def layout_consts)
  have live: "tx_live (?u\<lparr>tx_msgq := [bytes], tx_work_pending := True\<rparr>)"
    using tx_step_live [OF ui tx_step.submit, of bytes] by (simp add: tx)
  assume "r = OK"
  then have ok: "bt_enable_rc pl = OK" "adv_start_rc pl = OK \<or> adv_start_rc pl = Err EALREADY" "uart_dev_ready pl"
    "uart_callback_rc pl = OK" "uart_rx_enable_rc pl = OK"
    using proxy_main_result [of pb pl w] assms(7) by (auto simp: boot_result_def split: if_splits)
  have boot: "(r, w') = (OK, upstream_session_start pb (boot_rand pl) ?v)"
    using assms(3,4,7) ok init u(3)
    by (auto simp: proxy_main_def Let_def split_beta upstream_set_serve_cb_def ble_gatt_start_advertising_def)
  have st: "session_inv (upstream_session_start pb (boot_rand pl) ?v)"
    by (rule start_session_inv [OF si]) (simp add: assms(1) upstream_static_def)
  have w': "s_state (up w') = UPSTREAM_FETCHING" "uar w' = ?u\<lparr>tx_msgq := [bytes], tx_work_pending := True\<rparr>"
    "client w' = ?g" "s_serve_cb w' = Some (ble_gatt_replay_cached_burst pb)"
    "s_nonce (up w') = fetch_nonce (boot_rand pl)" "s_fetch_retry_work (up w') = Some 2000"
    "s_keepalive_work (up w') = Some 300000"
    using boot assms(5,6) tx
    by (simp_all add: upstream_session_start_def fetch_retry_arm_def Let_def split_beta
        UPSTREAM_FETCH_RETRY_MS_def UPSTREAM_KEEPALIVE_MS_def)
  show "s_state (up w') = UPSTREAM_FETCHING" by (rule w'(1))
  show "tx_msgq (uar w') = [bytes]" "tx_work_pending (uar w')" "rx_enabled (uar w')"
    using u(2) by (simp_all add: w'(2))
  show "adv_starts (client w') = 1" "gatt_inv (client w')" using adv gi by (simp_all only: w'(3))
  show "s_serve_cb w' = Some (ble_gatt_replay_cached_burst pb)" "s_nonce (up w') \<notin> {0, 1}"
    "s_fetch_retry_work (up w') = Some 2000" "s_keepalive_work (up w') = Some 300000"
    by (simp_all add: w'(4-7))
  show "session_inv w'" using st boot by simp
  show "tx_live (uar w')" using live by (simp only: w'(2))
qed

definition sample_platform :: platform where
  "sample_platform = \<lparr>ble_leds_ready = True, bt_enable_rc = OK, adv_start_rc = OK, uart_leds_ready = True,
     uart_dev_ready = True, uart_callback_rc = OK, uart_rx_enable_rc = OK, boot_rand = 5\<rparr>"

theorem proxy_main_boots_witness:
  "\<exists>w'. proxy_main sample_pb sample_platform (sample_session gatt_static None) = (OK, w') \<and>
     s_state (up w') = UPSTREAM_FETCHING \<and> tx_msgq (uar w') = [[3, 5]]"
proof -
  let ?w = "sample_session gatt_static None"
  obtain r w' where b: "proxy_main sample_pb sample_platform ?w = (r, w')" by fastforce
  have w: "up ?w = upstream_static" "cch ?w = cache_static" "uar ?w = uart_static" "client ?w = gatt_static"
    by (simp_all add: sample_session_def)
  have enc: "pb_encode_toradio sample_pb (want_config_msg (fetch_nonce (boot_rand sample_platform)))
      (pb_toradio_size sample_pb) = (True, [3, 5])"
    by (simp add: sample_pb_def want_config_msg_def fetch_nonce_def sample_platform_def)
  from proxy_main_boots [OF w enc _ b] b show ?thesis by (simp add: sample_platform_def)
qed

section \<open>From the mesh to the phone\<close>

text \<open>
  The queue of a phone after a packet is offered to it: unchanged when the phone is leaving or
  sixteen packets are waiting.
\<close>

definition queue_after :: "u8 list \<Rightarrow> proxy_conn \<Rightarrow> u8 list list" where
  "queue_after raw pc = (if pc_leaving pc \<or> 16 \<le> length (pkts pc) then pkts pc else pkts pc @ [raw])"

lemma offered_queue:
  assumes "slot_inv pc" and "length raw \<le> 512"
  shows "pkts (snd (phone_offer raw pc)) = queue_after raw pc"
    and "replay_rest c (snd (phone_offer raw pc)) = replay_rest c pc"
proof -
  show "pkts (snd (phone_offer raw pc)) = queue_after raw pc"
    using assms phone_ring.contents_add [of pc raw]
    by (auto simp: queue_after_def phone_offer_def slot_inv_def pkt_fits_def layout_consts)
  show "replay_rest c (snd (phone_offer raw pc)) = replay_rest c pc" by (simp add: replay_rest_def close_bytes_def)
qed

text \<open>
  A message from phone to phone, end to end: if the packet the node delivers decodes to a
  proxy-port packet whose payload is what the sender's header builder produced, then the phone
  registered under the destination identifier, when it reads FROMRADIO, gets what is left of its
  replay and then its queue, at whose end is exactly the packet unless the phone could not take it.
  Neither another phone's slot nor the driver changes.
\<close>

lemma mesh_message_reaches_phone:
  assumes "gatt_inv (client w)" and "cache_ok (cch w)" and "attr_read_spec rd" and "0 < len"
    and "wf_id src" and "wf_id dst" and "length c \<le> PROXY_CONTENT_MAX"
    and "proxy_header_build src dst (Some c) (length c) (replicate 200 0) 200 = (n, out)"
    and "pb_decode_fromradio pb raw = Some m" and "fr_which m = FromRadio_packet_tag"
    and "mp_which (fr_packet m) = MeshPacket_decoded_tag" and "mp_portnum (fr_packet m) = 256"
    and "mp_payload (fr_packet m) = take n out" and "length raw \<le> 512"
    and "ble_gatt_get_conn_by_proxy_id dst (client w) = Some k" and "find_slot (Some k) (client w) = Some i"
    and "rest = replay_rest (cch w) (conns (client w) ! i)" and "q = queue_after raw (conns (client w) ! i)"
    and "w' = on_fromradio_uart pb rnd raw w"
  shows "uar w' = uar w \<and>
    (\<exists>g'. read_packets rd (cch w') (Some k) len (length rest + length q + 1) (client w') =
      (map Some (rest @ q @ [[]]), g') \<and> (\<forall>j. j \<noteq> i \<longrightarrow> conns g' ! j = conns (client w) ! j))"
proof -
  let ?pc = "conns (client w) ! i" and ?hdr = "\<lparr>h_src = src, h_dst = dst, h_content = c, h_content_len = length c\<rparr>"
  have parse: "proxy_header_parse (take n out) = Some ?hdr"
    using build_then_parse [OF assms(5-7) _ _ assms(8)] assms(7) unfolding layout_consts by auto
  obtain info where info: "proto_decode_fromradio pb raw = (OK, info)" "which_variant info = FromRadio_packet_tag"
    "is_decoded info" "portnum info = 256" "payload_bytes info = take n out"
    using assms(9-13) by (simp add: proto_decode_fromradio_def Let_def)
  have w': "client w' = snd (ble_gatt_enqueue_fromradio (Some k) raw (client w))" "cch w' = cch w" "uar w' = uar w"
    using info parse assms(15)
    by (simp_all add: assms(19) on_fromradio_uart_def dispatch_packet [OF info(2)] routed_to_def PROXY_PORTNUM_def)
  note e = enqueue_tracked(2) [OF assms(16), of raw, folded w'(1)]
  have slots: "conns (client w') ! i = snd (phone_offer raw ?pc)" "\<And>j. j \<noteq> i \<Longrightarrow> conns (client w') ! j = conns (client w) ! j"
    using find_slot_SomeD(1) [OF assms(16)] by (simp_all add: e)
  have inv': "gatt_inv (client w')" unfolding w'(1) by (rule enqueue_inv [OF assms(1)])
  have f': "find_slot (Some k) (client w') = Some i"
    using find_slot_cong [OF enqueue_map_conn, of "Some k"] assms(16) by (simp add: w'(1))
  have ok': "cache_ok (cch w')" using assms(2) w'(2) by simp
  have q: "pkts (conns (client w') ! i) = q" "replay_rest (cch w') (conns (client w') ! i) = rest"
    using offered_queue [OF gatt_inv_find(2) [OF assms(1,16)] assms(14)] by (simp_all add: slots(1) assms(17,18) w'(2))
  from drain_all [OF assms(3) ok' assms(4) inv' f', unfolded q] slots(2) w'(3) show ?thesis by auto
qed

end
