(* ===== verification/Proxy_System.thy ===== *)
theory Proxy_System
  imports Main_Proxy
begin

text \<open>
  The firmware as one transition system: after the boot of \<^verbatim>\<open>src/src/main.c\<close>, every handler the
  drivers, the Bluetooth stack and the timers can call, in any order, acting on the composed state
  (session, cache, UART driver and GATT server). The invariant collects those of the components;
  its preservation is what makes the bounds of each component hold for the whole program.
\<close>

section \<open>Events\<close>

text \<open>
  The callback the UART driver runs on a complete frame. The receive work item holds the driver
  state while it drains, so the callback is given it together with the rest; \<open>rng\<close> is the random
  number generator.
\<close>

definition fw_rx_cb :: "nanopb \<Rightarrow> (gatt session \<Rightarrow> u32) \<Rightarrow> u8 list \<Rightarrow> uart \<times> gatt session \<Rightarrow> uart \<times> gatt session" where
  "fw_rx_cb pb rng p uw =
     (let w = (snd uw)\<lparr>uar := fst uw\<rparr>; w = on_fromradio_uart pb (rng w) p w in (uar w, w))"

definition fw_rx_work :: "nanopb \<Rightarrow> (gatt session \<Rightarrow> u32) \<Rightarrow> gatt session \<Rightarrow> gatt session" where
  "fw_rx_work pb rng w = (let (u, w) = rx_work_handler (Some (fw_rx_cb pb rng)) (uar w, w) in w\<lparr>uar := u\<rparr>)"

datatype fw_event =
    Fw_uart uart_event | Fw_rx_work | Fw_resync | Fw_tx_work rc
  | Fw_connected bt_conn u8 | Fw_disconnected bt_conn u8
  | Fw_fromnum_read bt_conn | Fw_fromradio_read bt_conn nat nat | Fw_node_reg bt_conn "u8 list" nat
  | Fw_toradio bt_conn "u8 list" nat
  | Fw_teardown nat | Fw_teardown_stale nat
  | Fw_keepalive | Fw_fetch_retry | Fw_liveness | Fw_ble_led | Fw_uart_led

definition fire_teardown :: "nat \<Rightarrow> gatt \<Rightarrow> gatt" where
  "fire_teardown i g =
     teardown_work_handler i (put_slot i ((conns g ! i)\<lparr>pc_teardown_work := None\<rparr>) g)"

text \<open>
  When each handler may run: the driver completes or aborts a transfer only while one is in
  progress, a work item runs only when it is scheduled, the stack reports a connection once while
  it is up. A teardown handler that was dequeued before its cancellation may also run late.
\<close>

inductive fw_step :: "nanopb \<Rightarrow> gatt session \<Rightarrow> fw_event \<Rightarrow> gatt session \<Rightarrow> bool" for pb where
  fw_uart: "(e = UART_TX_DONE \<or> e = UART_TX_ABORTED \<longrightarrow> tx_in_progress (uar w)) \<Longrightarrow>
    fw_step pb w (Fw_uart e) (w\<lparr>uar := uart_cb rerr e (uar w)\<rparr>)"
| fw_rx: "rx_work_pending (uar w) \<Longrightarrow>
    fw_step pb w Fw_rx_work (fw_rx_work pb rng (w\<lparr>uar := (uar w)\<lparr>rx_work_pending := False\<rparr>\<rparr>))"
| fw_resync: "rx_resync_dwork (uar w) \<noteq> None \<Longrightarrow>
    fw_step pb w Fw_resync (w\<lparr>uar := rx_resync_handler ((uar w)\<lparr>rx_resync_dwork := None\<rparr>)\<rparr>)"
| fw_tx: "tx_work_pending (uar w) \<Longrightarrow>
    fw_step pb w (Fw_tx_work err) (w\<lparr>uar := tx_work_handler err ((uar w)\<lparr>tx_work_pending := False\<rparr>)\<rparr>)"
| fw_connected: "conn \<noteq> None \<Longrightarrow> conn \<notin> set (tracked_conns (client w)) \<Longrightarrow>
    fw_step pb w (Fw_connected conn err) (w\<lparr>client := on_connected adv conn err (client w)\<rparr>)"
| fw_disconnected: "conn \<noteq> None \<Longrightarrow>
    fw_step pb w (Fw_disconnected conn reason) (w\<lparr>client := on_disconnected adv conn reason (client w)\<rparr>)"
| fw_fromnum: "conn \<noteq> None \<Longrightarrow>
    fw_step pb w (Fw_fromnum_read conn) (w\<lparr>client := snd (fromnum_read rd conn len off (client w))\<rparr>)"
| fw_fromradio: "conn \<noteq> None \<Longrightarrow>
    fw_step pb w (Fw_fromradio_read conn len off) (w\<lparr>client := snd (fromradio_read rd (cch w) conn len off (client w))\<rparr>)"
| fw_node_reg: "conn \<noteq> None \<Longrightarrow>
    fw_step pb w (Fw_node_reg conn buf off) (w\<lparr>client := snd (node_reg_write conn buf off (client w))\<rparr>)"
| fw_toradio: "conn \<noteq> None \<Longrightarrow>
    fw_step pb w (Fw_toradio conn data off) (snd (toradio_write (Some (on_toradio_ble pb)) conn data off w))"
| fw_teardown: "pc_teardown_work (conns (client w) ! i) \<noteq> None \<Longrightarrow>
    fw_step pb w (Fw_teardown i) (w\<lparr>client := fire_teardown i (client w)\<rparr>)"
| fw_teardown_stale:
    "fw_step pb w (Fw_teardown_stale i) (w\<lparr>client := teardown_work_handler i (client w)\<rparr>)"
| fw_keepalive: "s_keepalive_work (up w) \<noteq> None \<Longrightarrow>
    fw_step pb w Fw_keepalive (keepalive_work_handler pb (w\<lparr>up := (up w)\<lparr>s_keepalive_work := None\<rparr>\<rparr>))"
| fw_fetch_retry: "s_fetch_retry_work (up w) \<noteq> None \<Longrightarrow>
    fw_step pb w Fw_fetch_retry (fetch_retry_handler pb (w\<lparr>up := (up w)\<lparr>s_fetch_retry_work := None\<rparr>\<rparr>))"
| fw_liveness: "s_liveness_work (up w) \<noteq> None \<Longrightarrow>
    fw_step pb w Fw_liveness (liveness_handler pb rnd (w\<lparr>up := (up w)\<lparr>s_liveness_work := None\<rparr>\<rparr>))"
| fw_ble_led: "fw_step pb w Fw_ble_led (w\<lparr>client := led_blink_work (client w)\<rparr>)"
| fw_uart_led: "fw_step pb w Fw_uart_led (w\<lparr>uar := uart_led_blink_work (uar w)\<rparr>)"

inductive_cases fw_uart_stepE [elim]: "fw_step pb w (Fw_uart e) v"
inductive_cases fw_rx_stepE [elim]: "fw_step pb w Fw_rx_work v"
inductive_cases fw_toradio_stepE [elim]: "fw_step pb w (Fw_toradio conn data off) v"

definition fw_boot :: "nanopb \<Rightarrow> gatt session \<Rightarrow> bool" where
  "fw_boot pb w \<longleftrightarrow> (\<exists>w0 pl. up w0 = upstream_static \<and> cch w0 = cache_static \<and> uar w0 = uart_static \<and>
     client w0 = gatt_static \<and> proxy_main pb pl w0 = (OK, w))"

section \<open>The invariant\<close>

definition uart_ok :: "uart \<Rightarrow> bool" where
  "uart_ok u \<longleftrightarrow> tx_live u \<and> rx_inv (rx_sm u) \<and> length (rx_ring_buf u) \<le> RING_BUF_SIZE"

definition fw_inv :: "nanopb \<Rightarrow> gatt session \<Rightarrow> bool" where
  "fw_inv pb w \<longleftrightarrow> pb_bounded pb \<and> session_inv w \<and> cache_ok (cch w) \<and> gatt_inv (client w) \<and> uart_ok (uar w) \<and>
     s_serve_cb w = Some (ble_gatt_replay_cached_burst pb) \<and> s_pending_count (up w) = 0"

lemma uart_ok_tx: "uart_ok u \<Longrightarrow> uart_ok (snd (uart_meshtastic_tx p u))"
  using tx_step_live [of u "Tx_submit p"] tx_step.submit [of u p] by (auto simp: uart_ok_def uart_meshtastic_tx_def)

lemma uart_ok_want_config: "uart_ok (uar w) \<Longrightarrow> uart_ok (uar (snd (send_want_config pb n w)))"
  by (simp add: send_want_config_def Let_def split_beta uart_ok_tx)

lemma uart_ok_refetch: "uart_ok (uar w) \<Longrightarrow> uart_ok (uar (upstream_refetch pb rnd w))"
  by (simp add: upstream_refetch_def fetch_retry_arm_def upstream_keepalive_reschedule_def Let_def split_beta
      uart_ok_want_config)

lemma uart_ok_fetch_retry: "uart_ok (uar w) \<Longrightarrow> uart_ok (uar (fetch_retry_handler pb w))"
  by (simp add: fetch_retry_handler_def fetch_retry_arm_def Let_def split_beta uart_ok_want_config)

lemma uart_ok_keepalive: "uart_ok (uar w) \<Longrightarrow> uart_ok (uar (keepalive_work_handler pb w))"
  by (simp add: keepalive_work_handler_def Let_def split_beta uart_ok_tx)

lemma uar_on_fromradio [simp]: "uar (snd (upstream_on_fromradio pb p info w)) = uar w"
proof -
  have "uar (serve_pending_from i n v) = uar v" for i n and v :: "'a session"
    by (induction i n v rule: serve_pending_from.induct)
      (subst serve_pending_from.simps, simp add: Let_def serve_one_pending_eq)
  then have "uar (serve_pending_phones v) = uar v" for v :: "'a session"
    by (simp add: serve_pending_phones_def Let_def)
  then show ?thesis
    by (simp add: upstream_on_fromradio_def fetch_retry_arm_def upstream_liveness_kick_def Let_def split: option.split)
qed

text \<open>The session's operations keep the rest of the invariant.\<close>

lemma on_fromradio_count:
  "s_pending_count (up w) = 0 \<Longrightarrow> s_pending_count (up (snd (upstream_on_fromradio pb p info w))) = 0"
  by (simp add: upstream_on_fromradio_def serve_pending_phones_def fetch_retry_arm_def upstream_liveness_kick_def
      Let_def split: option.split)

lemma on_fromradio_cb:
  "s_pending_count (up w) = 0 \<Longrightarrow> s_serve_cb (snd (upstream_on_fromradio pb p info w)) = s_serve_cb w"
  by (simp add: upstream_on_fromradio_def serve_pending_phones_def fetch_retry_arm_def upstream_liveness_kick_def
      Let_def split: option.split)

lemma cache_ok_add:
  assumes "cache_ok c" and "1 \<le> length p" and "length p \<le> 512"
  shows "cache_ok (snd (cache_add (v, p) c))"
  using assms cache_log.add_invar [of c "(v, p)"] cache_log.contents_add [of c "(v, p)"]
  by (auto simp: cache_ok_def layout_consts split: if_splits)

lemma cache_ok_begin: "cache_ok c \<Longrightarrow> cache_ok (cache_begin c)"
  using cache_begin_inv cache_inv_sizes by (auto simp: cache_ok_def)

lemma cache_ok_ready: "cache_ok (cache_mark_ready c) = cache_ok c"
  by (simp add: cache_ok_def)

lemma on_fromradio_cache:
  assumes "cache_ok (cch w)" and "1 \<le> length p" and "length p \<le> 512" and "s_pending_count (up w) = 0"
  shows "cache_ok (cch (snd (upstream_on_fromradio pb p info w)))"
  using assms cache_ok_add
  by (simp add: upstream_on_fromradio_def serve_pending_phones_def fetch_retry_arm_def upstream_liveness_kick_def
      cache_ok_ready Let_def split: option.split)

lemma fw_on_fromradio_client:
  assumes "fw_inv pb w"
  shows "client (snd (upstream_on_fromradio pb p info w)) = client w"
proof -
  have "session_inv w" "s_pending_count (up w) = 0" using assms by (simp_all add: fw_inv_def)
  then show ?thesis
    using on_fromradio_client [of w pb p info] by (auto simp: pending_phones_def serve_all_def split: option.split)
qed

lemma fw_on_fromradio:
  assumes "fw_inv pb w" and "1 \<le> length p" and "length p \<le> 512"
  shows "fw_inv pb (snd (upstream_on_fromradio pb p info w))"
  using assms on_fromradio_inv [of w pb p info] on_fromradio_cache [of w p pb info] fw_on_fromradio_client [OF assms(1), of p info]
  by (simp add: fw_inv_def on_fromradio_count on_fromradio_cb)

lemma session_inv_frame [simp]:
  "session_inv (w\<lparr>client := g\<rparr>) = session_inv w" "session_inv (w\<lparr>uar := u\<rparr>) = session_inv w"
  by (simp_all add: session_inv_def)

lemma fw_client: "fw_inv pb w \<Longrightarrow> gatt_inv g \<Longrightarrow> fw_inv pb (w\<lparr>client := g\<rparr>)"
  by (simp add: fw_inv_def)

lemma fw_uar: "fw_inv pb w \<Longrightarrow> uart_ok u \<Longrightarrow> fw_inv pb (w\<lparr>uar := u\<rparr>)"
  by (simp add: fw_inv_def)

lemma fw_broadcast: "fw_inv pb w \<Longrightarrow> fw_inv pb (broadcast raw w)"
  by (simp add: broadcast_def fw_client fw_inv_def broadcast_inv)

lemma fw_kick: "fw_inv pb w \<Longrightarrow> fw_inv pb (upstream_liveness_kick w)"
  using liveness_kick_inv [of w] by (simp add: fw_inv_def) (simp add: upstream_liveness_kick_def)

lemma fw_reschedule: "fw_inv pb w \<Longrightarrow> fw_inv pb (upstream_keepalive_reschedule w)"
  using keepalive_reschedule_inv [of w] by (simp add: fw_inv_def) (simp add: upstream_keepalive_reschedule_def)

lemma fw_swallow: "fw_inv pb w \<Longrightarrow> fw_inv pb (snd (upstream_swallow_live_queuestatus w))"
  using swallow_inv [of w] by (simp add: fw_inv_def) (simp add: upstream_swallow_live_queuestatus_def)

lemma fw_refetch: "fw_inv pb w \<Longrightarrow> fw_inv pb (upstream_refetch pb rnd w)"
  using refetch_inv [of w pb rnd] uart_ok_refetch [of w pb rnd]
  by (simp add: fw_inv_def)
    (simp add: upstream_refetch_def fetch_retry_arm_def upstream_keepalive_reschedule_def Let_def split_beta)

section \<open>Every handler keeps it\<close>

lemma fw_dispatch:
  assumes "fw_inv pb w" and "1 \<le> length p" and "length p \<le> 512"
  shows "fw_inv pb (router_dispatch pb rnd p info w)"
proof (cases "which_variant info = FromRadio_packet_tag")
  case True
  have k: "fw_inv pb (upstream_liveness_kick w)" by (rule fw_kick [OF assms(1)])
  have "gatt_inv (snd (ble_gatt_enqueue_fromradio c p (client w)))" for c
    using assms(1) by (intro enqueue_inv) (simp add: fw_inv_def)
  with k show ?thesis by (auto simp: dispatch_packet [OF True] fw_broadcast fw_client split: option.split)
next
  case False
  show ?thesis
    using assms fw_on_fromradio [OF assms] fw_broadcast [OF fw_kick [OF assms(1)]]
    by (simp add: dispatch_other [OF False] fw_refetch fw_swallow)
qed

lemma fw_on_fromradio_uart:
  assumes "fw_inv pb w" and "1 \<le> length p" and "length p \<le> 512"
  shows "fw_inv pb (on_fromradio_uart pb rnd p w)"
  using assms by (simp add: on_fromradio_uart_def split_beta Let_def fw_broadcast fw_dispatch)

lemma fw_on_toradio:
  assumes "fw_inv pb w" and "conn \<noteq> None"
  shows "fw_inv pb (on_toradio_ble pb conn data w)"
proof -
  have g: "gatt_inv (client w)" "pb_bounded pb" using assms(1) by (simp_all add: fw_inv_def)
  have tx: "fw_inv pb (snd (session_tx data w))"
    using assms(1) uart_ok_tx by (simp add: session_tx_def split_beta fw_inv_def)
  obtain rc ti where d: "proto_decode_toradio pb data = (rc, ti)" by fastforce
  show ?thesis
  proof (cases "rc = OK \<and> has_want_config ti")
    case True
    have "fw_inv pb (w\<lparr>client := ble_gatt_replay_cached_burst pb conn (want_config_id ti) (client w)\<rparr>)"
      by (rule fw_client [OF assms(1) replay_inv(1) [OF g]])
    with True d assms(1) show ?thesis by (auto simp: on_toradio_ble_def upstream_get_state_def Let_def)
  next
    case False
    then show ?thesis
      using d tx fw_reschedule [OF tx] fw_client [OF assms(1) reply_queuestatus_inv [OF g, of conn]]
        fw_client [OF assms(1) request_teardown_inv [OF g(1) assms(2)]] assms(1)
      by (auto simp: on_toradio_ble_def Let_def split_beta)
  qed
qed

lemma fw_toradio_write:
  assumes "fw_inv pb w" and "conn \<noteq> None"
  shows "fw_inv pb (snd (toradio_write (Some (on_toradio_ble pb)) conn data off w))"
proof -
  have "fw_inv pb (w\<lparr>client := (client w)\<lparr>led_toradio_active := True\<rparr>\<rparr>)"
    using assms(1) by (simp add: fw_inv_def)
  from fw_on_toradio [OF this assms(2), of data] assms(1) show ?thesis by (simp add: toradio_write_def Let_def)
qed

lemma fw_keepalive:
  assumes "fw_inv pb w" and "s_keepalive_work (up w) \<noteq> None"
  shows "fw_inv pb (keepalive_work_handler pb (w\<lparr>up := (up w)\<lparr>s_keepalive_work := None\<rparr>\<rparr>))"
  using assms keepalive_inv [of w pb] uart_ok_keepalive [of "w\<lparr>up := (up w)\<lparr>s_keepalive_work := None\<rparr>\<rparr>" pb]
  by (simp add: fw_inv_def) (simp add: keepalive_work_handler_def Let_def split_beta)

lemma fw_fetch_retry:
  assumes "fw_inv pb w" and "s_fetch_retry_work (up w) \<noteq> None"
  shows "fw_inv pb (fetch_retry_handler pb (w\<lparr>up := (up w)\<lparr>s_fetch_retry_work := None\<rparr>\<rparr>))"
  using assms fetch_retry_inv [of w pb] cache_ok_begin [of "cch w"]
    uart_ok_fetch_retry [of "w\<lparr>up := (up w)\<lparr>s_fetch_retry_work := None\<rparr>\<rparr>" pb]
  by (simp add: fw_inv_def) (simp add: fetch_retry_handler_def fetch_retry_arm_def Let_def split_beta)

lemma fw_liveness:
  assumes "fw_inv pb w"
  shows "fw_inv pb (liveness_handler pb rnd (w\<lparr>up := (up w)\<lparr>s_liveness_work := None\<rparr>\<rparr>))"
proof -
  have "session_inv (w\<lparr>up := (up w)\<lparr>s_liveness_work := None\<rparr>\<rparr>)"
    using assms by (auto simp: fw_inv_def session_inv_defs)
  then have "fw_inv pb (w\<lparr>up := (up w)\<lparr>s_liveness_work := None\<rparr>\<rparr>)" using assms by (simp add: fw_inv_def)
  then show ?thesis using fw_refetch by (simp add: liveness_handler_def)
qed

subsection \<open>The receive work item\<close>

text \<open>With \<open>P\<close>, what is to be known of the phones besides the invariant.\<close>

lemma fw_rx_drain:
  assumes "fw_inv pb (w\<lparr>uar := u\<rparr>)" and "P (client w)"
    and "rx_drain (Some (fw_rx_cb pb rng)) bs (u, w) = (u', w')"
    and "\<And>w rnd p. fw_inv pb w \<Longrightarrow> P (client w) \<Longrightarrow> P (client (on_fromradio_uart pb rnd p w))"
  shows "fw_inv pb (w'\<lparr>uar := u'\<rparr>) \<and> P (client w')"
  using assms(1-3)
proof (induction bs arbitrary: u w)
  case (Cons b bs)
  obtain f sm where step: "rx_process_byte b (rx_sm u) = (f, sm)" by fastforce
  let ?u = "u\<lparr>rx_ring_buf := tl (rx_ring_buf u), rx_sm := sm\<rparr>"
  have ok: "uart_ok u" using Cons.prems(1) by (simp add: fw_inv_def)
  then have "rx_inv sm" using rx_process_byte_inv [of "rx_sm u" b] step by (simp add: uart_ok_def)
  then have "uart_ok ?u" using ok by (auto simp: uart_ok_def tx_live_def tx_inv_def)
  then have inv: "fw_inv pb (w\<lparr>uar := ?u\<rparr>)" using fw_uar [OF Cons.prems(1)] by simp
  show ?case
  proof (cases f)
    case None
    with Cons.IH [OF inv Cons.prems(2)] Cons.prems(3) step show ?thesis by simp
  next
    case (Some p)
    let ?w = "on_fromradio_uart pb (rng (w\<lparr>uar := ?u\<rparr>)) p (w\<lparr>uar := ?u\<rparr>)"
    have "1 \<le> length p" "length p \<le> 512"
      using rx_frame_bounds [of "rx_sm u" b p sm] ok step Some by (simp_all add: uart_ok_def)
    from fw_on_fromradio_uart [OF inv this] have inv': "fw_inv pb (?w\<lparr>uar := uar ?w\<rparr>)" by simp
    have p: "P (client ?w)" by (rule assms(4) [OF inv]) (use Cons.prems(2) in simp)
    have "fw_rx_cb pb rng p (?u, w) = (uar ?w, ?w)" by (simp add: fw_rx_cb_def Let_def)
    then have "rx_drain (Some (fw_rx_cb pb rng)) bs (uar ?w, ?w) = (u', w')"
      using Cons.prems(3) step Some by simp
    from Cons.IH [OF inv' p this] show ?thesis .
  qed
qed simp

lemma fw_rx_work_keeps:
  assumes "fw_inv pb w" and "P (client w)"
    and "\<And>w rnd p. fw_inv pb w \<Longrightarrow> P (client w) \<Longrightarrow> P (client (on_fromradio_uart pb rnd p w))"
  shows "fw_inv pb (fw_rx_work pb rng w) \<and> P (client (fw_rx_work pb rng w))"
proof -
  obtain u' w' where d: "rx_drain (Some (fw_rx_cb pb rng)) (rx_ring_buf (uar w)) (uar w, w) = (u', w')" by fastforce
  have "fw_inv pb (w'\<lparr>uar := u'\<rparr>) \<and> P (client w')"
    by (rule fw_rx_drain [OF _ assms(2) d assms(3)]) (use assms(1) in simp)
  then show ?thesis
    using d by (simp add: fw_rx_work_def rx_work_handler_def Let_def fw_inv_def uart_ok_def tx_live_def tx_inv_def)
qed

lemma fw_rx_work_inv: "fw_inv pb w \<Longrightarrow> fw_inv pb (fw_rx_work pb rng w)"
  using fw_rx_work_keeps [of pb w "\<lambda>_. True"] by simp

lemma uart_ok_event:
  assumes "uart_ok u" and "e = UART_TX_DONE \<or> e = UART_TX_ABORTED \<longrightarrow> tx_in_progress u"
  shows "uart_ok (uart_cb rerr e u)"
proof (cases e)
  case (UART_RX_RDY d)
  then show ?thesis
    using assms(1) by (auto simp: ring_buf_put_def Let_def uart_ok_def tx_live_def tx_inv_def)
next
  case UART_TX_DONE
  then have "tx_step u Tx_done (uart_cb rerr e u)" using assms(2) tx_step.tx_done by simp
  with assms(1) UART_TX_DONE tx_step_live show ?thesis by (auto simp: uart_ok_def)
next
  case UART_TX_ABORTED
  then have "tx_step u Tx_abort (uart_cb rerr e u)" using assms(2) tx_step.tx_abort by simp
  with assms(1) UART_TX_ABORTED tx_step_live show ?thesis by (auto simp: uart_ok_def)
qed (use assms(1) in \<open>auto simp: uart_ok_def tx_live_def tx_inv_def rx_inv_def\<close>)

lemma uart_ok_tx_work:
  assumes "uart_ok u" and "tx_work_pending u"
  shows "uart_ok (tx_work_handler err (u\<lparr>tx_work_pending := False\<rparr>))"
proof -
  have "tx_live (tx_work_handler err (u\<lparr>tx_work_pending := False\<rparr>))"
    using tx_step_live [OF _ tx_step.work [OF assms(2)]] assms(1) by (simp add: uart_ok_def)
  moreover have "rx_sm (tx_work_handler err v) = rx_sm v \<and> rx_ring_buf (tx_work_handler err v) = rx_ring_buf v" for v
    by (auto simp: tx_work_handler_def tx_dequeue_def Let_def split: list.splits)
  ultimately show ?thesis using assms(1) by (simp add: uart_ok_def)
qed

lemma uart_ok_misc:
  assumes "uart_ok u"
  shows "uart_ok (rx_resync_handler (u\<lparr>rx_resync_dwork := None\<rparr>))" and "uart_ok (uart_led_blink_work u)"
    and "uart_ok (u\<lparr>rx_work_pending := False\<rparr>)"
  using assms
  by (auto simp: rx_resync_handler_def uart_led_blink_work_def led_blink_tick_def uart_ok_def tx_live_def tx_inv_def
      rx_inv_def)

subsection \<open>Boot\<close>

lemma uart_ok_init:
  "uart_ok (snd (uart_meshtastic_init a b c d uart_static))"
  using tx_static_inv
  by (simp add: uart_ok_def tx_live_def tx_inv_def rx_inv_def uart_meshtastic_init_def uart_static_def Let_def
      layout_consts)

lemma fw_boot_inv:
  assumes "pb_bounded pb" and "fw_boot pb w"
  shows "fw_inv pb w"
proof -
  obtain w0 pl where w0: "up w0 = upstream_static" "cch w0 = cache_static" "uar w0 = uart_static"
    "client w0 = gatt_static" "proxy_main pb pl w0 = (OK, w)"
    using assms(2) by (auto simp: fw_boot_def)
  let ?g = "snd (ble_gatt_start_advertising (adv_start_rc pl) (snd (ble_gatt_init (ble_leds_ready pl) gatt_static)))"
  let ?u = "snd (uart_meshtastic_init (uart_leds_ready pl) (uart_dev_ready pl) (uart_callback_rc pl)
    (uart_rx_enable_rc pl) uart_static)"
  let ?v = "w0\<lparr>client := ?g, uar := ?u, s_serve_cb := Some (ble_gatt_replay_cached_burst pb)\<rparr>"
  have w: "w = upstream_session_start pb (boot_rand pl) ?v"
    using w0(3,4,5)
    by (auto simp: proxy_main_def Let_def split_beta upstream_set_serve_cb_def split: if_splits)
  have boot: "s_state (up ?v) = UPSTREAM_BOOT" "s_pending_count (up ?v) = 0"
    using w0(1) by (simp_all add: upstream_static_def)
  have "session_inv ?v" by (rule session_static_inv) (simp_all add: w0(1,2))
  then have "session_inv w" unfolding w by (rule start_session_inv) (rule boot(1))
  moreover have "gatt_inv ?g" using gatt_init_inv [OF gatt_static_inv] by simp
  moreover have "cache_ok (cch ?v)" "cache_ok (cache_begin (cch ?v))"
    using cache_static_ok cache_ok_begin [OF cache_static_ok] by (simp_all add: w0(2))
  moreover have "uart_ok (uar w)"
    using uart_ok_init uart_ok_tx
    by (simp add: w upstream_session_start_def fetch_retry_arm_def Let_def split_beta)
  ultimately show ?thesis
    using assms(1) boot(2)
    by (simp add: fw_inv_def) (simp add: w upstream_session_start_def fetch_retry_arm_def Let_def split_beta)
qed

lemma fw_step_inv:
  assumes "fw_inv pb w" and "fw_step pb w e v"
  shows "fw_inv pb v"
  using assms(2)
proof cases
  case (fw_uart e rerr)
  then show ?thesis using fw_uar [OF assms(1)] uart_ok_event assms(1) by (simp add: fw_inv_def)
next
  case (fw_rx rng)
  then show ?thesis
    using fw_rx_work_inv [OF fw_uar [OF assms(1)]] uart_ok_misc(3) assms(1) by (simp add: fw_inv_def)
next
  case fw_resync
  then show ?thesis using fw_uar [OF assms(1)] uart_ok_misc(1) assms(1) by (simp add: fw_inv_def)
next
  case (fw_tx err)
  then show ?thesis using fw_uar [OF assms(1)] uart_ok_tx_work assms(1) by (simp add: fw_inv_def)
next
  case (fw_connected conn adv err)
  then show ?thesis using fw_client [OF assms(1)] on_connected_inv assms(1) by (simp add: fw_inv_def)
next
  case (fw_disconnected conn reason adv)
  then show ?thesis using fw_client [OF assms(1)] on_disconnected_inv assms(1) by (simp add: fw_inv_def)
next
  case (fw_fromnum conn rd len off)
  have "gatt_inv (snd (fromnum_read rd conn len off (client w)))"
    using assms(1) by (simp add: fw_inv_def fromnum_read_def split: option.split)
  with fw_fromnum fw_client [OF assms(1)] show ?thesis by simp
next
  case (fw_fromradio conn len off rd)
  then show ?thesis using fw_client [OF assms(1)] fromradio_read_inv assms(1) by (simp add: fw_inv_def)
next
  case (fw_node_reg conn buf off)
  then show ?thesis using fw_client [OF assms(1)] node_reg_inv assms(1) by (simp add: fw_inv_def)
next
  case (fw_toradio conn data off)
  then show ?thesis using fw_toradio_write [OF assms(1)] by simp
next
  case (fw_teardown i)
  then show ?thesis
    using fw_client [OF assms(1)] teardown_handler_inv [OF teardown_fired_inv] assms(1)
    by (simp add: fw_inv_def fire_teardown_def)
next
  case (fw_teardown_stale i)
  then show ?thesis using fw_client [OF assms(1)] teardown_handler_inv assms(1) by (simp add: fw_inv_def)
next
  case fw_keepalive
  then show ?thesis using Proxy_System.fw_keepalive [OF assms(1)] by simp
next
  case fw_fetch_retry
  then show ?thesis using Proxy_System.fw_fetch_retry [OF assms(1)] by simp
next
  case (fw_liveness rnd)
  then show ?thesis using Proxy_System.fw_liveness [OF assms(1)] by simp
next
  case fw_ble_led
  have "gatt_inv (led_blink_work (client w))"
    using assms(1) by (simp add: fw_inv_def led_blink_work_def led_blink_tick_def)
  with fw_ble_led fw_client [OF assms(1)] show ?thesis by simp
next
  case fw_uart_led
  then show ?thesis using fw_uar [OF assms(1)] uart_ok_misc(2) assms(1) by (simp add: fw_inv_def)
qed

interpretation firmware: safe_system "\<lambda>w. pb_bounded pb \<and> fw_boot pb w" "fw_step pb" "fw_inv pb"
proof
  show "fw_inv pb w" if "pb_bounded pb \<and> fw_boot pb w" for w using that fw_boot_inv by blast
  show "fw_inv pb v" if "fw_inv pb w" "fw_step pb w e v" for w e v using that by (rule fw_step_inv)
qed

section \<open>Frames through the receive work item\<close>

lemma rx_drain_silent:
  "rx_run bs (rx_sm u) = ([], sm) \<Longrightarrow>
    rx_drain cb bs (u, w) = (u\<lparr>rx_ring_buf := drop (length bs) (rx_ring_buf u), rx_sm := sm\<rparr>, w)"
proof (induction bs arbitrary: u)
  case (Cons b bs)
  obtain f s1 where st: "rx_process_byte b (rx_sm u) = (f, s1)" by fastforce
  then have "f = None" "rx_run bs s1 = ([], sm)"
    using Cons.prems by (auto simp: Let_def split_beta prod_eq_iff split: option.splits)
  with Cons.IH [of "u\<lparr>rx_ring_buf := tl (rx_ring_buf u), rx_sm := s1\<rparr>"] st show ?case
    by (simp add: drop_Suc tl_drop)
qed simp

lemma rx_drain_frame:
  "rx_run bs (rx_sm u) = ([p], sm) \<Longrightarrow>
    \<exists>xs ys sm1. bs = xs @ ys \<and> rx_run ys sm1 = ([], sm) \<and>
      rx_drain (Some f) bs (u, w) =
        rx_drain (Some f) ys (f p (u\<lparr>rx_ring_buf := drop (length xs) (rx_ring_buf u), rx_sm := sm1\<rparr>, w))"
proof (induction bs arbitrary: u)
  case (Cons b bs)
  obtain r s1 where st: "rx_process_byte b (rx_sm u) = (r, s1)" by fastforce
  let ?u = "u\<lparr>rx_ring_buf := tl (rx_ring_buf u), rx_sm := s1\<rparr>"
  show ?case
  proof (cases r)
    case None
    then have "rx_run bs (rx_sm ?u) = ([p], sm)"
      using Cons.prems st by (auto simp: Let_def split_beta prod_eq_iff)
    from Cons.IH [OF this] obtain xs ys sm1 where x: "bs = xs @ ys" "rx_run ys sm1 = ([], sm)"
      "rx_drain (Some f) bs (?u, w) =
        rx_drain (Some f) ys (f p (?u\<lparr>rx_ring_buf := drop (length xs) (rx_ring_buf ?u), rx_sm := sm1\<rparr>, w))"
      by blast
    then show ?thesis
      using None st by (intro exI [of _ "b # xs"] exI [of _ ys] exI [of _ sm1]) (simp add: drop_Suc tl_drop)
  next
    case (Some q)
    then have "q = p" "rx_run bs s1 = ([], sm)"
      using Cons.prems st by (auto simp: Let_def split_beta prod_eq_iff)
    with Some st show ?thesis
      by (intro exI [of _ "[b]"] exI [of _ bs] exI [of _ s1]) (simp add: drop_Suc)
  qed
qed simp

text \<open>
  A run of the receive work item on one frame, when handling it leaves the driver alone: the
  callback runs once, on the payload, and the receiver is back at a frame boundary.
\<close>

lemma rx_work_one_frame:
  assumes "rx_inv (rx_sm (uar w))" and "rx_st (rx_sm (uar w)) = RX_WAIT_MAGIC1"
    and "rx_ring_buf (uar w) = mesh_frame p" and "1 \<le> length p" and "length p \<le> 512"
    and "\<And>u. uar (on_fromradio_uart pb (rng (w\<lparr>uar := u\<rparr>)) p (w\<lparr>uar := u\<rparr>)) = u"
  shows "\<exists>u u'. fw_rx_work pb rng w = (on_fromradio_uart pb (rng (w\<lparr>uar := u\<rparr>)) p (w\<lparr>uar := u\<rparr>))\<lparr>uar := u'\<rparr> \<and>
    rx_ring_buf u' = [] \<and> rx_st (rx_sm u') = RX_WAIT_MAGIC1"
proof -
  let ?f = "fw_rx_cb pb rng"
  have len: "0 < length p" using assms(4) by (cases p) simp_all
  obtain sm where sm: "rx_run (mesh_frame p) (rx_sm (uar w)) = ([p], sm)" "rx_st sm = RX_WAIT_MAGIC1"
    using rx_run_frame [OF assms(2), of p] len assms(1,5) by (auto simp: rx_inv_def layout_consts)
  from rx_drain_frame [OF sm(1), of ?f w] obtain xs ys sm1 where d: "mesh_frame p = xs @ ys"
    "rx_run ys sm1 = ([], sm)" "rx_drain (Some ?f) (mesh_frame p) (uar w, w) =
      rx_drain (Some ?f) ys (?f p ((uar w)\<lparr>rx_ring_buf := drop (length xs) (rx_ring_buf (uar w)), rx_sm := sm1\<rparr>, w))"
    by blast
  define u where "u = (uar w)\<lparr>rx_ring_buf := ys, rx_sm := sm1\<rparr>"
  define v where "v = on_fromradio_uart pb (rng (w\<lparr>uar := u\<rparr>)) p (w\<lparr>uar := u\<rparr>)"
  have v: "uar v = u" unfolding v_def by (rule assms(6))
  have "?f p (u, w) = (u, v)" by (simp add: fw_rx_cb_def Let_def v_def [symmetric] v)
  then have "rx_drain (Some ?f) (mesh_frame p) (uar w, w) = rx_drain (Some ?f) ys (u, v)"
    using d(1,3) assms(3) by (simp add: u_def)
  also have "\<dots> = (u\<lparr>rx_ring_buf := [], rx_sm := sm\<rparr>, v)"
    using rx_drain_silent [of ys u sm "Some ?f" v] d(2) by (simp add: u_def)
  finally have "fw_rx_work pb rng w = v\<lparr>uar := u\<lparr>rx_ring_buf := [], rx_sm := sm,
      rx_resync_dwork := None, rx_overrun_bytes := 0\<rparr>\<rparr>"
    using sm(2) by (simp add: fw_rx_work_def rx_work_handler_def assms(3) Let_def)
  then show ?thesis
    unfolding v_def using sm(2)
    by (intro exI [of _ u] exI [of _ "u\<lparr>rx_ring_buf := [], rx_sm := sm, rx_resync_dwork := None, rx_overrun_bytes := 0\<rparr>"]) simp
qed


section \<open>A run: boot, a phone, the end of the fetch\<close>

definition booted :: "gatt session" where
  "booted = snd (proxy_main sample_pb sample_platform (sample_session gatt_static None))"

lemma booted_eq: "proxy_main sample_pb sample_platform (sample_session gatt_static None) = (OK, booted)"
proof -
  have "fst (proxy_main sample_pb sample_platform (sample_session gatt_static None)) = OK"
    by (simp add: proxy_main_def sample_platform_def Let_def split_beta ble_gatt_init_def
        ble_gatt_start_advertising_def uart_meshtastic_init_def)
  then show ?thesis unfolding booted_def by (metis prod.collapse)
qed

lemma booted_reachable: "reachable (\<lambda>w. pb_bounded sample_pb \<and> fw_boot sample_pb w) (fw_step sample_pb) booted"
proof (rule reach_start)
  have "fw_boot sample_pb booted"
    unfolding fw_boot_def
    by (rule exI [of _ "sample_session gatt_static None"], rule exI [of _ sample_platform])
      (simp add: booted_eq sample_session_def [symmetric], simp add: sample_session_def)
  with sample_pb_bounded show "pb_bounded sample_pb \<and> fw_boot sample_pb booted" by simp
qed

lemma booted_state:
  "s_state (up booted) = UPSTREAM_FETCHING" "s_nonce (up booted) = 5" "s_pending_count (up booted) = 0"
  "frames (cch booted) = []" "rx_sm (uar booted) = rx_sm uart_static" "rx_ring_buf (uar booted) = []"
  "conns (client booted) = conns gatt_static"
proof -
  have b: "booted = upstream_session_start sample_pb 5 ((sample_session gatt_static None)\<lparr>
      client := snd (ble_gatt_start_advertising OK (snd (ble_gatt_init True gatt_static))),
      uar := snd (uart_meshtastic_init True True OK OK uart_static),
      s_serve_cb := Some (ble_gatt_replay_cached_burst sample_pb)\<rparr>)"
    by (simp add: booted_def proxy_main_def sample_platform_def Let_def split_beta ble_gatt_init_def
        ble_gatt_start_advertising_def uart_meshtastic_init_def upstream_set_serve_cb_def sample_session_def)
  have n: "fetch_nonce 5 = 5" by (simp add: fetch_nonce_def)
  have enc: "fst (pb_encode_toradio sample_pb (want_config_msg 5) (pb_toradio_size sample_pb))"
    by (simp add: sample_pb_def want_config_msg_def)
  show "s_state (up booted) = UPSTREAM_FETCHING" "s_nonce (up booted) = 5" "s_pending_count (up booted) = 0"
    using enc by (simp_all add: b upstream_session_start_def fetch_retry_arm_def Let_def split_beta n)
  show "frames (cch booted) = []"
    using enc cache_begin_inv(2) cache_inv_sizes [OF cache_static_inv]
    by (simp add: b upstream_session_start_def fetch_retry_arm_def Let_def split_beta n sample_session_def)
  show "rx_sm (uar booted) = rx_sm uart_static" "rx_ring_buf (uar booted) = []"
    by (simp_all add: b upstream_session_start_def fetch_retry_arm_def Let_def split_beta uart_meshtastic_tx_def
        uart_meshtastic_init_def uart_static_def)
  show "conns (client booted) = conns gatt_static"
    by (simp add: b upstream_session_start_def fetch_retry_arm_def Let_def split_beta ble_gatt_init_def
        static_conns slot_static_def)
qed

text \<open>A phone connects.\<close>

definition with_phone :: "gatt session" where
  "with_phone = booted\<lparr>client := on_connected OK (Some 7) 0 (client booted)\<rparr>"

lemma with_phone_step: "fw_step sample_pb booted (Fw_connected (Some 7) 0) with_phone"
proof -
  have "Some 7 \<notin> set (tracked_conns (client booted))"
    by (simp add: tracked_conns_def booted_state static_conns)
  then show ?thesis unfolding with_phone_def by (intro fw_step.fw_connected) simp_all
qed

text \<open>A frame of the node arrives over the UART and is processed.\<close>

definition rung_in :: "u8 list \<Rightarrow> gatt session \<Rightarrow> gatt session" where
  "rung_in p w = w\<lparr>uar := uart_cb OK (UART_RX_RDY (mesh_frame p)) (uar w)\<rparr>"

definition fed :: "u8 list \<Rightarrow> gatt session \<Rightarrow> gatt session" where
  "fed p w = fw_rx_work sample_pb (\<lambda>_. 9)
     ((rung_in p w)\<lparr>uar := (uar (rung_in p w))\<lparr>rx_work_pending := False\<rparr>\<rparr>)"

lemma fed_steps:
  "fw_step sample_pb w (Fw_uart (UART_RX_RDY (mesh_frame p))) (rung_in p w)"
  "fw_step sample_pb (rung_in p w) Fw_rx_work (fed p w)"
proof -
  show "fw_step sample_pb w (Fw_uart (UART_RX_RDY (mesh_frame p))) (rung_in p w)"
    unfolding rung_in_def by (rule fw_step.fw_uart) simp
  have "rx_work_pending (uar (rung_in p w))" by (simp add: rung_in_def split_beta Let_def)
  then show "fw_step sample_pb (rung_in p w) Fw_rx_work (fed p w)"
    unfolding fed_def by (rule fw_step.fw_rx)
qed

lemma fed_reachable:
  "reachable init (fw_step sample_pb) w \<Longrightarrow> reachable init (fw_step sample_pb) (fed p w)"
  using fed_steps reach_step by metis

text \<open>A frame of the burst, while the session fetches.\<close>

lemma fed_fetching:
  assumes "reachable (\<lambda>w. pb_bounded sample_pb \<and> fw_boot sample_pb w) (fw_step sample_pb) w" and "fetching (up w)"
    and "rx_st (rx_sm (uar w)) = RX_WAIT_MAGIC1" and "rx_ring_buf (uar w) = []" and "1 \<le> length p" and "length p \<le> 512"
    and "proto_decode_fromradio sample_pb p = (OK, info)" and "which_variant info \<noteq> FromRadio_packet_tag"
  shows "\<exists>u u'. fed p w = (snd (upstream_on_fromradio sample_pb p info (w\<lparr>uar := u\<rparr>)))\<lparr>uar := u'\<rparr> \<and>
    rx_ring_buf u' = [] \<and> rx_st (rx_sm u') = RX_WAIT_MAGIC1"
proof -
  let ?v = "(rung_in p w)\<lparr>uar := (uar (rung_in p w))\<lparr>rx_work_pending := False\<rparr>\<rparr>"
  have v: "?v\<lparr>uar := u\<rparr> = w\<lparr>uar := u\<rparr>" for u by (simp add: rung_in_def)
  have uart: "uart_ok (uar w)" using firmware.reachable_inv [OF assms(1)] by (simp add: fw_inv_def)
  have rx: "rx_inv (rx_sm (uar ?v))" "rx_st (rx_sm (uar ?v)) = RX_WAIT_MAGIC1" "rx_ring_buf (uar ?v) = mesh_frame p"
    using uart assms(3,4,6)
    by (simp_all add: rung_in_def uart_ok_def ring_buf_put_def mesh_frame_def Let_def layout_consts)
  have on: "on_fromradio_uart sample_pb r p (w\<lparr>uar := u\<rparr>) = snd (upstream_on_fromradio sample_pb p info (w\<lparr>uar := u\<rparr>))" for r u
    using assms(2,7,8) by (simp add: on_fromradio_uart_def dispatch_other fetching_def)
  have "\<exists>u u'. fw_rx_work sample_pb (\<lambda>_. 9) ?v = (on_fromradio_uart sample_pb 9 p (?v\<lparr>uar := u\<rparr>))\<lparr>uar := u'\<rparr> \<and>
      rx_ring_buf u' = [] \<and> rx_st (rx_sm u') = RX_WAIT_MAGIC1"
    by (rule rx_work_one_frame [OF rx assms(5,6)]) (simp add: v on)
  then show ?thesis by (simp add: v on fed_def)
qed

text \<open>The node sends one frame of its config and the closing frame.\<close>

definition cached_one :: "gatt session" where "cached_one = fed [4] with_phone"

definition went_live :: "gatt session" where "went_live = fed [7, 5] cached_one"

lemma with_phone_reachable:
  "reachable (\<lambda>w. pb_bounded sample_pb \<and> fw_boot sample_pb w) (fw_step sample_pb) with_phone"
  by (rule reach_step [OF booted_reachable with_phone_step])

lemma went_live_reachable:
  "reachable (\<lambda>w. pb_bounded sample_pb \<and> fw_boot sample_pb w) (fw_step sample_pb) went_live"
  unfolding went_live_def cached_one_def by (intro fed_reachable with_phone_reachable)

lemma with_phone_slot: "find_slot (Some 7) (client with_phone) = Some 0"
  by (simp add: with_phone_def on_connected_def alloc_slot_def booted_state static_conns put_slot_def find_slot_def Let_def)

lemma cached_one_state:
  "s_state (up cached_one) = UPSTREAM_FETCHING" "s_nonce (up cached_one) = 5"
  "frames (cch cached_one) = [(FromRadio_node_info_tag, [4])]" "client cached_one = client with_phone"
  "rx_st (rx_sm (uar cached_one)) = RX_WAIT_MAGIC1" "rx_ring_buf (uar cached_one) = []"
proof -
  let ?info = "fromradio_info_zero\<lparr>which_variant := FromRadio_node_info_tag\<rparr>"
  have w: "s_state (up with_phone) = UPSTREAM_FETCHING" "s_nonce (up with_phone) = 5" "cch with_phone = cch booted"
    "rx_st (rx_sm (uar with_phone)) = RX_WAIT_MAGIC1" "rx_ring_buf (uar with_phone) = []"
    by (simp_all add: with_phone_def booted_state uart_static_def)
  have dec: "proto_decode_fromradio sample_pb [4] = (OK, ?info)"
    by (simp add: proto_decode_fromradio_def sample_pb_def Let_def)
  have fe: "fetching (up with_phone)" using w(1) by (simp add: fetching_def)
  obtain u u' where c: "cached_one = (snd (upstream_on_fromradio sample_pb [4] ?info (with_phone\<lparr>uar := u\<rparr>)))\<lparr>uar := u'\<rparr>"
    and u': "rx_ring_buf u' = []" "rx_st (rx_sm u') = RX_WAIT_MAGIC1"
    using fed_fetching [OF with_phone_reachable fe w(4,5) _ _ dec] by (auto simp: cached_one_def)
  have st: "snd (upstream_on_fromradio sample_pb [4] ?info (with_phone\<lparr>uar := u\<rparr>)) =
      stored_frame [4] FromRadio_node_info_tag (with_phone\<lparr>uar := u\<rparr>)"
    using on_fromradio_burst [of "with_phone\<lparr>uar := u\<rparr>" ?info sample_pb "[4]"] w(1)
    by (simp add: fetching_def burst_tag_def)
  have inv: "cache_inv (cch booted)"
    using firmware.reachable_inv [OF booted_reachable] by (simp add: fw_inv_def cache_ok_def)
  have "frames (snd (cache_add_frame [4] FromRadio_node_info_tag (cch booted))) = [(FromRadio_node_info_tag, [4])]"
    using cache_log.contents_add [OF inv, of "(FromRadio_node_info_tag, [4])"] booted_state(4)
    by (simp add: frame_fits_def frames_size_def layout_consts cache_add_def)
  then show "s_state (up cached_one) = UPSTREAM_FETCHING" "s_nonce (up cached_one) = 5"
    "frames (cch cached_one) = [(FromRadio_node_info_tag, [4])]" "client cached_one = client with_phone"
    "rx_st (rx_sm (uar cached_one)) = RX_WAIT_MAGIC1" "rx_ring_buf (uar cached_one) = []"
    using w(1-3) u' by (simp_all add: c st stored_frame_def fetch_retry_arm_def Let_def cache_add_def)
qed

lemma went_live_state:
  "s_state (up went_live) = UPSTREAM_LIVE" "frames (cch went_live) = [(FromRadio_node_info_tag, [4])]"
  "find_slot (Some 7) (client went_live) = Some 0" "client went_live = client with_phone"
proof -
  let ?info = "fromradio_info_zero\<lparr>which_variant := FromRadio_config_complete_id_tag\<rparr>"
  have reach: "reachable (\<lambda>w. pb_bounded sample_pb \<and> fw_boot sample_pb w) (fw_step sample_pb) cached_one"
    unfolding cached_one_def by (intro fed_reachable with_phone_reachable)
  have inv: "fw_inv sample_pb cached_one" by (rule firmware.reachable_inv [OF reach])
  have dec: "proto_decode_fromradio sample_pb [7, 5] = (OK, ?info)"
    by (simp add: proto_decode_fromradio_def sample_pb_def config_complete_msg_def Let_def)
  have fe: "fetching (up cached_one)" using cached_one_state(1) by (simp add: fetching_def)
  obtain u u' where l: "went_live = (snd (upstream_on_fromradio sample_pb [7, 5] ?info (cached_one\<lparr>uar := u\<rparr>)))\<lparr>uar := u'\<rparr>"
    using fed_fetching [OF reach fe cached_one_state(5,6) _ _ dec] by (auto simp: went_live_def)
  have nonce: "decode_config_complete_nonce sample_pb [7, 5] = Some 5"
    by (simp add: sample_pb_def decode_config_complete_nonce_def config_complete_msg_def)
  have pend: "pending_inv (up cached_one)" "pending_phones (up cached_one) = []"
    using inv by (simp_all add: fw_inv_def session_inv_def upstream_inv_def pending_phones_def)
  have "snd (upstream_on_fromradio sample_pb [7, 5] ?info (cached_one\<lparr>uar := u\<rparr>)) = boot_closed [7, 5] (cached_one\<lparr>uar := u\<rparr>)"
    using on_fromradio_boot_close [of "cached_one\<lparr>uar := u\<rparr>" ?info sample_pb "[7, 5]"] cached_one_state(1,2) nonce pend(1)
    by simp
  then show "s_state (up went_live) = UPSTREAM_LIVE" "frames (cch went_live) = [(FromRadio_node_info_tag, [4])]"
    "find_slot (Some 7) (client went_live) = Some 0" "client went_live = client with_phone"
    using cached_one_state(3,4) pend(2) with_phone_slot
    by (simp_all add: l boot_closed_def serve_all_def split: option.split)
qed

text \<open>The booted firmware with a phone that has registered its identifier.\<close>

lemma booted_tx: "tx_msgq (uar booted) = [[3, 5]]" "\<not> tx_in_progress (uar booted)"
proof -
  have enc: "pb_encode_toradio sample_pb (want_config_msg (fetch_nonce (boot_rand sample_platform)))
      (pb_toradio_size sample_pb) = (True, [3, 5])"
    by (simp add: sample_pb_def want_config_msg_def fetch_nonce_def sample_platform_def)
  show "tx_msgq (uar booted) = [[3, 5]]" "\<not> tx_in_progress (uar booted)"
    using enc
    by (simp_all add: booted_def proxy_main_def Let_def split_beta ble_gatt_init_def sample_platform_def
        ble_gatt_start_advertising_def uart_meshtastic_init_def upstream_set_serve_cb_def sample_session_def
        upstream_session_start_def fetch_retry_arm_def uart_meshtastic_tx_def uart_static_def layout_consts)
qed

definition registered :: "gatt session" where
  "registered = with_phone\<lparr>client := snd (node_reg_write (Some 7) [1, 2, 3, 4] 0 (client with_phone))\<rparr>"

lemma registered_reachable:
  "reachable (\<lambda>w. pb_bounded sample_pb \<and> fw_boot sample_pb w) (fw_step sample_pb) registered"
proof -
  have "fw_step sample_pb with_phone (Fw_node_reg (Some 7) [1, 2, 3, 4] 0) registered"
    unfolding registered_def by (rule fw_step.fw_node_reg) simp
  from reach_step [OF reach_step [OF booted_reachable with_phone_step] this] show ?thesis .
qed

lemma registered_state:
  "conns (client registered) = slot_static\<lparr>pc_conn := Some 7, pc_proxy_id := \<lparr>id_bytes = [1, 2, 3, 4]\<rparr>\<rparr> #
     replicate 5 slot_static"
  "find_slot (Some 7) (client registered) = Some 0"
  "ble_gatt_get_conn_by_proxy_id \<lparr>id_bytes = [1, 2, 3, 4]\<rparr> (client registered) = Some 7"
  "rx_sm (uar registered) = rx_sm uart_static" "rx_ring_buf (uar registered) = []"
proof -
  have p: "conns (client with_phone) = slot_static\<lparr>pc_conn := Some 7\<rparr> # replicate 5 slot_static"
    by (simp add: with_phone_def on_connected_def alloc_slot_def booted_state static_conns put_slot_def Let_def
        slot_static_def numeral_eq_Suc)
  have z: "\<not> proxy_id_is_zero \<lparr>id_bytes = [1, 2, 3, 4]\<rparr>"
    by (simp add: proxy_id_is_zero_iff wf_id_def PROXY_ID_SIZE_def numeral_eq_Suc)
  show c: "conns (client registered) = slot_static\<lparr>pc_conn := Some 7, pc_proxy_id := \<lparr>id_bytes = [1, 2, 3, 4]\<rparr>\<rparr> #
     replicate 5 slot_static"
    by (simp add: registered_def node_reg_write_def ble_gatt_register_proxy_id_def find_slot_def p put_slot_def
        PROXY_ID_SIZE_def Let_def)
  show "find_slot (Some 7) (client registered) = Some 0" by (simp add: find_slot_def c)
  show "ble_gatt_get_conn_by_proxy_id \<lparr>id_bytes = [1, 2, 3, 4]\<rparr> (client registered) = Some 7"
    using z by (simp add: ble_gatt_get_conn_by_proxy_id_def c proxy_id_equal_def PROXY_ID_SIZE_def)
  show "rx_sm (uar registered) = rx_sm uart_static" "rx_ring_buf (uar registered) = []"
    by (simp_all add: registered_def with_phone_def booted_state)
qed

end
