(* ===== verification/Gatt_Service.thy ===== *)
theory Gatt_Service
  imports Proxy_System
begin

text \<open>
  The static tables of \<^verbatim>\<open>src/src/ble_gatt.c\<close>: the UUIDs, the service definition and the advertising
  data; and the doorbell, which names an attribute of the service by its index. The macros that expand the service
  definition into the attribute array belong to the Bluetooth stack: the expansion is a parameter
  whose documented behaviour (one attribute for the service and for a CCC, a declaration and a value
  attribute for a characteristic, in order) is the hypothesis \<open>gatt_macros\<close>.
\<close>

section \<open>UUIDs\<close>

text \<open>The five fields given to the encoding macro.\<close>

record uuid128 =
  uuid_w32 :: u32
  uuid_w1 :: u16
  uuid_w2 :: u16
  uuid_w3 :: u16
  uuid_w48 :: "48 word"

definition BT_UUID_MESHTASTIC_SVC_VAL :: uuid128 where
  "BT_UUID_MESHTASTIC_SVC_VAL = \<lparr>uuid_w32 = 0x6ba1b218, uuid_w1 = 0x15a8, uuid_w2 = 0x461f, uuid_w3 = 0x9fa8, uuid_w48 = 0x5dcae273eafd\<rparr>"
definition BT_UUID_FROMNUM_VAL :: uuid128 where
  "BT_UUID_FROMNUM_VAL = \<lparr>uuid_w32 = 0xed9da18c, uuid_w1 = 0xa800, uuid_w2 = 0x4f66, uuid_w3 = 0xa670, uuid_w48 = 0xaa7547e34453\<rparr>"
definition BT_UUID_FROMRADIO_VAL :: uuid128 where
  "BT_UUID_FROMRADIO_VAL = \<lparr>uuid_w32 = 0x2c55e69e, uuid_w1 = 0x4993, uuid_w2 = 0x11ed, uuid_w3 = 0xb878, uuid_w48 = 0x0242ac120002\<rparr>"
definition BT_UUID_TORADIO_VAL :: uuid128 where
  "BT_UUID_TORADIO_VAL = \<lparr>uuid_w32 = 0xf75c76d2, uuid_w1 = 0x129e, uuid_w2 = 0x4dad, uuid_w3 = 0xa1dd, uuid_w48 = 0x7866124401e7\<rparr>"
definition BT_UUID_LOGRADIO_VAL :: uuid128 where
  "BT_UUID_LOGRADIO_VAL = \<lparr>uuid_w32 = 0x5a3d6e49, uuid_w1 = 0x06e6, uuid_w2 = 0x4423, uuid_w3 = 0x9944, uuid_w48 = 0xe9de8cdf9547\<rparr>"
definition BT_UUID_NODE_REG_VAL :: uuid128 where
  "BT_UUID_NODE_REG_VAL = \<lparr>uuid_w32 = 0x6ba10001, uuid_w1 = 0x15a8, uuid_w2 = 0x461f, uuid_w3 = 0x9fa8, uuid_w48 = 0x5dcae273eafd\<rparr>"

definition LOGRADIO_ATTR_IDX :: nat where "LOGRADIO_ATTR_IDX = 9"

section \<open>The service\<close>

datatype chrc_prop = BT_GATT_CHRC_READ | BT_GATT_CHRC_WRITE | BT_GATT_CHRC_WRITE_WITHOUT_RESP | BT_GATT_CHRC_NOTIFY
datatype attr_perm = BT_GATT_PERM_READ | BT_GATT_PERM_WRITE

text \<open>The callbacks the table points to, by name.\<close>

datatype read_cb = Fromnum_read_cb | Fromradio_read_cb | Logradio_read_cb
datatype write_cb = Toradio_write_cb | Node_reg_write_cb
datatype ccc_cb = Fromnum_ccc_changed | Logradio_ccc_changed

datatype svc_item =
    BT_GATT_PRIMARY_SERVICE uuid128
  | BT_GATT_CHARACTERISTIC uuid128 "chrc_prop set" "attr_perm set" "read_cb option" "write_cb option"
  | BT_GATT_CCC ccc_cb "attr_perm set"

definition meshtastic_svc :: "svc_item list" where
  "meshtastic_svc =
     [BT_GATT_PRIMARY_SERVICE BT_UUID_MESHTASTIC_SVC_VAL,
      BT_GATT_CHARACTERISTIC BT_UUID_FROMNUM_VAL {BT_GATT_CHRC_READ, BT_GATT_CHRC_NOTIFY} {BT_GATT_PERM_READ}
        (Some Fromnum_read_cb) None,
      BT_GATT_CCC Fromnum_ccc_changed {BT_GATT_PERM_READ, BT_GATT_PERM_WRITE},
      BT_GATT_CHARACTERISTIC BT_UUID_FROMRADIO_VAL {BT_GATT_CHRC_READ} {BT_GATT_PERM_READ}
        (Some Fromradio_read_cb) None,
      BT_GATT_CHARACTERISTIC BT_UUID_TORADIO_VAL {BT_GATT_CHRC_WRITE, BT_GATT_CHRC_WRITE_WITHOUT_RESP}
        {BT_GATT_PERM_WRITE} None (Some Toradio_write_cb),
      BT_GATT_CHARACTERISTIC BT_UUID_LOGRADIO_VAL {BT_GATT_CHRC_READ, BT_GATT_CHRC_NOTIFY} {BT_GATT_PERM_READ}
        (Some Logradio_read_cb) None,
      BT_GATT_CCC Logradio_ccc_changed {BT_GATT_PERM_READ, BT_GATT_PERM_WRITE},
      BT_GATT_CHARACTERISTIC BT_UUID_NODE_REG_VAL {BT_GATT_CHRC_WRITE} {BT_GATT_PERM_WRITE}
        None (Some Node_reg_write_cb)]"

text \<open>The attribute array the stack builds from the definition.\<close>

datatype svc_attr =
    Attr_service uuid128
  | Attr_chrc uuid128 "chrc_prop set"
  | Attr_value uuid128 "attr_perm set" "read_cb option" "write_cb option"
  | Attr_ccc ccc_cb "attr_perm set"

definition gatt_macros :: "(svc_item \<Rightarrow> svc_attr list) \<Rightarrow> bool" where
  "gatt_macros expand \<longleftrightarrow>
     (\<forall>u. expand (BT_GATT_PRIMARY_SERVICE u) = [Attr_service u]) \<and>
     (\<forall>u ps pm rd wr. expand (BT_GATT_CHARACTERISTIC u ps pm rd wr) = [Attr_chrc u ps, Attr_value u pm rd wr]) \<and>
     (\<forall>cb pm. expand (BT_GATT_CCC cb pm) = [Attr_ccc cb pm])"

fun sample_expand :: "svc_item \<Rightarrow> svc_attr list" where
  "sample_expand (BT_GATT_PRIMARY_SERVICE u) = [Attr_service u]"
| "sample_expand (BT_GATT_CHARACTERISTIC u ps pm rd wr) = [Attr_chrc u ps, Attr_value u pm rd wr]"
| "sample_expand (BT_GATT_CCC cb pm) = [Attr_ccc cb pm]"

lemma sample_expand_macros: "gatt_macros sample_expand"
  by (simp add: gatt_macros_def)

text \<open>
  What a phone's access to an attribute runs: the callback of a value attribute that permits the
  access. Every other access is answered by the stack and does not enter the firmware (the CCC
  callbacks only log).
\<close>

fun attr_read_access :: "svc_attr \<Rightarrow> attr_read \<Rightarrow> bt_conn \<Rightarrow> nat \<Rightarrow> nat \<Rightarrow> gatt session \<Rightarrow> gatt session" where
  "attr_read_access (Attr_value u pm (Some cb) wr) rd conn len off w =
     (if BT_GATT_PERM_READ \<in> pm then
        case cb of
          Fromnum_read_cb \<Rightarrow> w\<lparr>client := snd (fromnum_read rd conn len off (client w))\<rparr>
        | Fromradio_read_cb \<Rightarrow> w\<lparr>client := snd (fromradio_read rd (cch w) conn len off (client w))\<rparr>
        | Logradio_read_cb \<Rightarrow> w\<lparr>client := snd (logradio_read conn len off (client w))\<rparr>
      else w)"
| "attr_read_access a rd conn len off w = w"

fun attr_write_access :: "nanopb \<Rightarrow> svc_attr \<Rightarrow> bt_conn \<Rightarrow> u8 list \<Rightarrow> nat \<Rightarrow> gatt session \<Rightarrow> gatt session" where
  "attr_write_access pb (Attr_value u pm rd (Some cb)) conn buf off w =
     (if BT_GATT_PERM_WRITE \<in> pm then
        case cb of
          Toradio_write_cb \<Rightarrow> snd (toradio_write (Some (on_toradio_ble pb)) conn buf off w)
        | Node_reg_write_cb \<Rightarrow> w\<lparr>client := snd (node_reg_write conn buf off (client w))\<rparr>
      else w)"
| "attr_write_access pb a conn buf off w = w"

section \<open>Advertising\<close>

datatype bt_data = BT_DATA_FLAGS "string set" | BT_DATA_UUID128_ALL uuid128 | BT_DATA_NAME_COMPLETE string

definition CONFIG_BT_DEVICE_NAME :: string where "CONFIG_BT_DEVICE_NAME = ''Meshtastic_CA1E''"

definition ad :: "bt_data list" where
  "ad = [BT_DATA_FLAGS {''BT_LE_AD_GENERAL'', ''BT_LE_AD_NO_BREDR''}, BT_DATA_UUID128_ALL BT_UUID_MESHTASTIC_SVC_VAL]"

definition sd :: "bt_data list" where
  "sd = [BT_DATA_NAME_COMPLETE CONFIG_BT_DEVICE_NAME]"

section \<open>The attribute array\<close>

definition svc_attrs :: "(svc_item \<Rightarrow> svc_attr list) \<Rightarrow> svc_attr list" where
  "svc_attrs expand = concat (map expand meshtastic_svc)"

lemma svc_attrs_value:
  assumes "gatt_macros expand"
  shows "svc_attrs expand =
    [Attr_service BT_UUID_MESHTASTIC_SVC_VAL,
     Attr_chrc BT_UUID_FROMNUM_VAL {BT_GATT_CHRC_READ, BT_GATT_CHRC_NOTIFY},
     Attr_value BT_UUID_FROMNUM_VAL {BT_GATT_PERM_READ} (Some Fromnum_read_cb) None,
     Attr_ccc Fromnum_ccc_changed {BT_GATT_PERM_READ, BT_GATT_PERM_WRITE},
     Attr_chrc BT_UUID_FROMRADIO_VAL {BT_GATT_CHRC_READ},
     Attr_value BT_UUID_FROMRADIO_VAL {BT_GATT_PERM_READ} (Some Fromradio_read_cb) None,
     Attr_chrc BT_UUID_TORADIO_VAL {BT_GATT_CHRC_WRITE, BT_GATT_CHRC_WRITE_WITHOUT_RESP},
     Attr_value BT_UUID_TORADIO_VAL {BT_GATT_PERM_WRITE} None (Some Toradio_write_cb),
     Attr_chrc BT_UUID_LOGRADIO_VAL {BT_GATT_CHRC_READ, BT_GATT_CHRC_NOTIFY},
     Attr_value BT_UUID_LOGRADIO_VAL {BT_GATT_PERM_READ} (Some Logradio_read_cb) None,
     Attr_ccc Logradio_ccc_changed {BT_GATT_PERM_READ, BT_GATT_PERM_WRITE},
     Attr_chrc BT_UUID_NODE_REG_VAL {BT_GATT_CHRC_WRITE},
     Attr_value BT_UUID_NODE_REG_VAL {BT_GATT_PERM_WRITE} None (Some Node_reg_write_cb)]"
  using assms by (simp add: svc_attrs_def meshtastic_svc_def gatt_macros_def)

text \<open>
  The events of the firmware cover the service: whatever attribute a phone reads or writes, with
  any data, offset and buffer size, the firmware stays in a reachable state.
\<close>

lemma service_access_reachable:
  assumes "reachable init (fw_step pb) w" and "conn \<noteq> None"
    and "v = attr_read_access a rd conn len off w \<or> v = attr_write_access pb a conn buf off w"
  shows "reachable init (fw_step pb) v"
proof -
  have "v = w \<or> (\<exists>e. fw_step pb w e v)"
    using assms(3)
  proof
    assume "v = attr_read_access a rd conn len off w"
    then show ?thesis
      using fw_step.fw_fromnum [OF assms(2), of pb w rd len off] fw_step.fw_fromradio [OF assms(2), of pb w len off rd]
      by (cases "(a, rd, conn, len, off, w)" rule: attr_read_access.cases)
        (auto simp: logradio_read_def split: read_cb.splits)
  next
    assume "v = attr_write_access pb a conn buf off w"
    then show ?thesis
      using fw_step.fw_node_reg [OF assms(2), of pb w buf off] fw_step.fw_toradio [OF assms(2), of pb w buf off]
      by (cases "(pb, a, conn, buf, off, w)" rule: attr_write_access.cases) (auto split: write_cb.splits)
  qed
  then show ?thesis using reach_step [OF assms(1)] assms(1) by blast
qed

section \<open>The doorbell\<close>

text \<open>The values a connection has been notified of, in order.\<close>

definition bells :: "bt_conn \<Rightarrow> gatt \<Rightarrow> u32 list" where
  "bells c g = map (\<lambda>(d, k, v). v) (filter (\<lambda>(d, k, v). d = c) (notified g))"

text \<open>
  Every doorbell went to a connection through the FROMNUM attribute, and the last one of a
  connected phone whose counter has moved carried the counter.
\<close>

definition slot_rung :: "gatt \<Rightarrow> proxy_conn \<Rightarrow> bool" where
  "slot_rung g pc \<longleftrightarrow> pc_conn pc = None \<or> pc_fromnum pc = 0 \<or>
     bells (pc_conn pc) g \<noteq> [] \<and> last (bells (pc_conn pc) g) = pc_fromnum pc"

definition rung :: "gatt \<Rightarrow> bool" where
  "rung g \<longleftrightarrow> (\<forall>(c, k, v) \<in> set (notified g). c \<noteq> None \<and> k = FROMNUM_ATTR_IDX) \<and> (\<forall>pc \<in> set (conns g). slot_rung g pc)"

lemma bells_cong: "notified h = notified g \<Longrightarrow> bells c h = bells c g"
  by (simp add: bells_def)

lemma rung_same: "rung g \<Longrightarrow> notified h = notified g \<Longrightarrow> conns h = conns g \<Longrightarrow> rung h"
  by (simp add: rung_def slot_rung_def bells_cong [of h g])

lemma rung_put:
  assumes "rung g" and "notified h = notified g" and "conns h = conns (put_slot i pc g)"
    and "pc_conn pc = None \<or> pc_fromnum pc = 0 \<or> pc_conn pc = pc_conn (conns g ! i) \<and> pc_fromnum pc = pc_fromnum (conns g ! i)"
  shows "rung h"
proof -
  have "slot_rung h p" if "p \<in> set (conns h)" for p
  proof (cases "i < length (conns g)")
    case True
    then have "slot_rung g (conns g ! i)" using assms(1) by (simp add: rung_def)
    then have "slot_rung g pc" using assms(4) by (auto simp: slot_rung_def)
    then have "slot_rung g p"
      using that assms(1,3) set_update_subset_insert [of "conns g" i pc] by (auto simp: put_slot_def rung_def)
    then show ?thesis by (simp add: slot_rung_def bells_cong [OF assms(2)])
  next
    case False
    then have "p \<in> set (conns g)" using that assms(3) by (simp add: put_slot_def list_update_beyond)
    then show ?thesis using assms(1) by (simp add: rung_def slot_rung_def bells_cong [OF assms(2)])
  qed
  with assms(1,2) show ?thesis by (simp add: rung_def)
qed

lemma rung_write:
  assumes "rung g"
    and "pc_conn pc = None \<or> pc_fromnum pc = 0 \<or> pc_conn pc = pc_conn (conns g ! i) \<and> pc_fromnum pc = pc_fromnum (conns g ! i)"
  shows "rung (put_slot i pc g)"
  by (rule rung_put [OF assms(1) _ refl assms(2)]) simp

text \<open>A slot is written and the doorbell rings with its counter.\<close>

lemma rung_ring:
  assumes "rung g" and "gatt_inv g" and "find_slot c g = Some i" and "c \<noteq> None"
    and "conns h = conns (put_slot i pc g)" and "pc_conn pc = c"
    and "notified h = notified g @ [(c, FROMNUM_ATTR_IDX, pc_fromnum pc)]"
  shows "rung h"
proof -
  have b: "bells d h = (if d = c then bells d g @ [pc_fromnum pc] else bells d g)" for d
    by (simp add: bells_def assms(7))
  have i: "i < length (conns g)" by (rule find_slot_SomeD(1) [OF assms(3)])
  have "slot_rung h (conns h ! j)" if "j < length (conns h)" for j
  proof (cases "j = i")
    case True
    then show ?thesis using i by (simp add: assms(5,6) slot_rung_def b)
  next
    case False
    have j: "j < length (conns g)" "conns h ! j = conns g ! j" using that False by (simp_all add: assms(5))
    have "pc_conn (conns g ! j) \<noteq> c"
      using find_slot_own [OF assms(2), of j] j(1) assms(2-4) False by (auto simp: gatt_inv_def)
    moreover have "slot_rung g (conns g ! j)" using assms(1) j(1) by (simp add: rung_def)
    ultimately show ?thesis unfolding j(2) by (simp add: slot_rung_def b)
  qed
  then have "\<forall>p \<in> set (conns h). slot_rung h p" by (metis in_set_conv_nth)
  with assms(1,4,7) show ?thesis by (auto simp: rung_def)
qed

lemma enqueue_rung:
  assumes "rung g" and "gatt_inv g" and "c \<noteq> None"
  shows "rung (snd (ble_gatt_enqueue_fromradio c data g))"
proof (cases "find_slot c g")
  case None
  with assms(1) show ?thesis by (simp add: ble_gatt_enqueue_fromradio_def)
next
  case (Some i)
  let ?pc = "conns g ! i"
  let ?new = "(ring_put data ?pc)\<lparr>pc_fromnum := pc_fromnum (ring_put data ?pc) + 1\<rparr>"
  have c: "pc_conn ?pc = c" by (rule find_slot_SomeD(2) [OF Some])
  have "rung (notify_fromnum c (pc_fromnum ?pc) g)"
    by (rule rung_ring [OF assms(1,2) Some assms(3), of _ ?pc]) (simp_all add: c)
  moreover have "rung (notify_fromnum c (pc_fromnum ?new) (put_slot i ?new g))"
    by (rule rung_ring [OF assms(1,2) Some assms(3), of _ ?new]) (simp_all add: c)
  ultimately show ?thesis using assms(1) Some by (simp add: ble_gatt_enqueue_fromradio_def Let_def)
qed

lemma broadcast_rung:
  assumes "rung g" and "gatt_inv g"
  shows "rung (snd (ble_gatt_broadcast_fromradio data g))"
proof -
  have "rung h \<and> gatt_inv h" if "fold (broadcast_one data) js (n, g) = (m, h)" "rung g" "gatt_inv g" for js n m g h
    using that
  proof (induction js arbitrary: n g)
    case (Cons j js)
    let ?r = "broadcast_one data j (n, g)"
    have "rung (snd ?r) \<and> gatt_inv (snd ?r)"
      using Cons.prems(2,3) by (simp add: broadcast_one_other enqueue_rung enqueue_inv)
    moreover have "fold (broadcast_one data) js (fst ?r, snd ?r) = (m, h)" using Cons.prems(1) by simp
    ultimately show ?case using Cons.IH by blast
  qed simp
  with assms show ?thesis unfolding ble_gatt_broadcast_fromradio_def by (metis prod.collapse)
qed

lemma replay_rung:
  assumes "rung g" and "gatt_inv g" and "c \<noteq> None"
  shows "rung (ble_gatt_replay_cached_burst pb c nonce g)"
proof (cases "find_slot c g")
  case None
  with assms(1) show ?thesis by (simp add: ble_gatt_replay_cached_burst_def)
next
  case (Some i)
  let ?pc = "if nonce \<noteq> 0 then (conns g ! i)\<lparr>pc_nonce := nonce\<rparr> else conns g ! i"
  obtain enc buf n where e: "proto_encode_config_complete pb (pc_nonce ?pc) (pc_cc_frame ?pc) 16 0 = (enc, buf, n)"
    by (metis prod.exhaust)
  let ?fail = "?pc\<lparr>pc_cc_frame := buf\<rparr>"
  let ?new = "?fail\<lparr>pc_cc_len := n mod 2 ^ 8, pc_replay_cursor := 0, pc_state := PHONE_REPLAYING,
    pc_fromnum := pc_fromnum ?fail + 1\<rparr>"
  have c: "pc_conn (conns g ! i) = c" by (rule find_slot_SomeD(2) [OF Some])
  have "rung (put_slot i ?fail g)" by (rule rung_put [OF assms(1), of _ i ?fail]) simp_all
  moreover have "rung (notify_fromnum c (pc_fromnum ?new) (put_slot i ?new g))"
    by (rule rung_ring [OF assms(1,2) Some assms(3), of _ ?new]) (simp_all add: c)
  ultimately show ?thesis using Some e by (simp add: ble_gatt_replay_cached_burst_def Let_def split: if_splits)
qed

lemma queuestatus_rung:
  assumes "rung g" and "gatt_inv g" and "pb_bounded pb" and "c \<noteq> None"
  shows "rung (ble_gatt_reply_queuestatus pb c g)"
proof -
  obtain rc buf len where e: "proto_encode_queue_status pb (s_qs g) 16 (s_qs_len g) = (rc, buf, len)"
    by (cases "proto_encode_queue_status pb (s_qs g) 16 (s_qs_len g)")
  let ?g = "g\<lparr>s_qs := buf, s_qs_len := (if rc \<noteq> OK then 0 else len)\<rparr>"
  have "rung ?g" by (rule rung_same [OF assms(1)]) simp_all
  moreover from this have "rung (snd (ble_gatt_enqueue_fromradio c d ?g))" for d
    by (rule enqueue_rung [OF _ queuestatus_stored_inv [OF assms(2,3) e] assms(4)])
  ultimately show ?thesis
    using e enqueue_rung [OF assms(1,2,4)] by (cases "s_qs_len g = 0") (auto simp: ble_gatt_reply_queuestatus_def Let_def)
qed

text \<open>The operations that write a slot without moving its counter.\<close>

lemma stage_next_counter: "pc_conn (stage_next c pc) = pc_conn pc \<and> pc_fromnum (stage_next c pc) = pc_fromnum pc"
  by (auto simp: stage_next_def stage_bytes_def ring_get_def Let_def split: option.splits if_splits)

lemma fromradio_read_rung: "rung g \<Longrightarrow> rung (snd (fromradio_read rd cc c len off g))"
  by (cases "find_slot c g") (simp_all add: fromradio_read_def Let_def stage_next_counter rung_write)

lemma fromnum_read_rung: "rung g \<Longrightarrow> rung (snd (fromnum_read rd c len off g))"
  by (auto simp: fromnum_read_def intro: rung_same split: option.split)

lemma node_reg_rung: "rung g \<Longrightarrow> rung (snd (node_reg_write c buf off g))"
  by (simp add: node_reg_write_def ble_gatt_register_proxy_id_def Let_def rung_write split: option.split)

lemma request_teardown_rung: "rung g \<Longrightarrow> rung (snd (ble_gatt_request_teardown c g))"
  by (simp add: ble_gatt_request_teardown_def rung_write split: option.split)

lemma teardown_handler_rung: "rung g \<Longrightarrow> rung (teardown_work_handler i g)"
  by (auto simp: teardown_work_handler_def bt_conn_disconnect_def bt_conn_ref_def bt_conn_unref_def Let_def intro: rung_same)

lemma fire_teardown_rung: "rung g \<Longrightarrow> rung (fire_teardown i g)"
  by (simp add: fire_teardown_def teardown_handler_rung rung_write)

lemma on_connected_rung: "rung g \<Longrightarrow> rung (on_connected adv c err g)"
  by (auto simp: on_connected_def alloc_slot_def bt_conn_ref_def bt_conn_disconnect_def ble_gatt_start_advertising_def Let_def
      put_slot_def intro: rung_same rung_put split: option.split)

lemma on_disconnected_rung: "rung g \<Longrightarrow> rung (on_disconnected adv c reason g)"
  by (auto simp: on_disconnected_def free_slot_def bt_conn_unref_def ble_gatt_start_advertising_def Let_def
      put_slot_def intro: rung_same rung_put split: option.split)

lemma led_rung: "rung g \<Longrightarrow> rung (led_blink_work g)"
  by (auto simp: led_blink_work_def Let_def split_beta intro: rung_same)

text \<open>The handlers of the whole firmware. The session's timers and its start do not touch the phones.\<close>

lemma session_timers_client:
  "client (keepalive_work_handler pb w) = client w" "client (fetch_retry_handler pb w) = client w"
  "client (liveness_handler pb rnd w) = client w" "client (upstream_session_start pb rnd w) = client w"
  by (simp_all add: keepalive_work_handler_def fetch_retry_handler_def liveness_handler_def upstream_session_start_def
      fetch_retry_arm_def Let_def split_beta)

lemma on_fromradio_uart_rung:
  assumes "fw_inv pb w" and "rung (client w)"
  shows "rung (client (on_fromradio_uart pb rnd p w))"
proof -
  have g: "gatt_inv (client w)" using assms(1) by (simp add: fw_inv_def)
  have b: "rung (client (broadcast p v))" if "client v = client w" for v
    using broadcast_rung [OF assms(2) g] that by (simp add: broadcast_def)
  have "rung (client (router_dispatch pb rnd p info w))" for info
  proof (cases "which_variant info = FromRadio_packet_tag")
    case True
    then show ?thesis
      using b enqueue_rung [OF assms(2) g] by (simp add: dispatch_packet split: option.split)
  next
    case False
    then show ?thesis
      using b assms(2) fw_on_fromradio_client [OF assms(1), of p info]
      by (simp add: dispatch_other)
  qed
  with b show ?thesis by (simp add: on_fromradio_uart_def split_beta Let_def)
qed

lemma toradio_write_rung:
  assumes "fw_inv pb w" and "rung (client w)" and "c \<noteq> None"
  shows "rung (client (snd (toradio_write (Some (on_toradio_ble pb)) c data off w)))"
proof -
  have "rung (client (on_toradio_ble pb c data v))" if g: "gatt_inv (client v)" and r: "rung (client v)" for v
  proof -
    have b: "pb_bounded pb" using assms(1) by (simp add: fw_inv_def)
    show ?thesis
      using r replay_rung [OF r g assms(3)] queuestatus_rung [OF r g b assms(3)] request_teardown_rung [OF r]
      by (auto simp: on_toradio_ble_def Let_def split_beta)
  qed
  moreover have "rung ((client w)\<lparr>led_toradio_active := True\<rparr>)" by (rule rung_same [OF assms(2)]) simp_all
  ultimately show ?thesis using assms(1,2) by (simp add: toradio_write_def Let_def fw_inv_def)
qed

lemma fw_boot_rung: "fw_boot pb w \<Longrightarrow> rung (client w)"
  by (auto simp: fw_boot_def proxy_main_def Let_def split_beta ble_gatt_init_def ble_gatt_start_advertising_def
      gatt_static_def rung_def slot_rung_def session_timers_client
      upstream_set_serve_cb_def split: if_splits)

lemma fw_step_rung:
  assumes "fw_inv pb w" and "rung (client w)" and "fw_step pb w e v"
  shows "rung (client v)"
  using assms(3)
proof cases
  case (fw_rx rng)
  have "fw_inv pb (w\<lparr>uar := (uar w)\<lparr>rx_work_pending := False\<rparr>\<rparr>)"
    using fw_uar [OF assms(1)] uart_ok_misc(3) assms(1) by (simp add: fw_inv_def)
  from fw_rx_work_keeps [OF this, of rung] on_fromradio_uart_rung show ?thesis
    using assms(2) fw_rx by simp
qed (use assms(1,2) in \<open>simp_all add: on_connected_rung on_disconnected_rung fromnum_read_rung fromradio_read_rung node_reg_rung
    toradio_write_rung fire_teardown_rung teardown_handler_rung led_rung session_timers_client\<close>)

interpretation doorbell: safe_system "\<lambda>w. pb_bounded pb \<and> fw_boot pb w" "fw_step pb" "\<lambda>w. fw_inv pb w \<and> rung (client w)"
proof
  show "fw_inv pb w \<and> rung (client w)" if "pb_bounded pb \<and> fw_boot pb w" for w
    using that fw_boot_inv fw_boot_rung by blast
  show "fw_inv pb v \<and> rung (client v)" if "fw_inv pb w \<and> rung (client w)" "fw_step pb w e v" for w e v
    using that fw_step_inv fw_step_rung by blast
qed

text \<open>
  C40: the doorbell is wired to the right attribute and never stale, in every state the firmware can
  reach when its handlers run one after the other. Each notification sent so far went to a connection, and the index it named is, in the table
  that the service definition expands to, the value attribute of FROMNUM: the attribute before it
  declares the characteristic with the notify property and the attribute after it is its CCC. For a
  connected phone whose counter is not zero (it has been offered something since it connected, and
  the 32-bit counter has not just wrapped), the last value notified to its connection is its
  counter, and that is what reading FROMNUM answers, whatever the buffer size and offset.
\<close>

theorem fromnum_doorbell:
  assumes "reachable (\<lambda>w. pb_bounded pb \<and> fw_boot pb w) (fw_step pb) w"
    and "gatt_macros expand" and "attrs = svc_attrs expand"
  shows "(\<forall>(c, k, v) \<in> set (notified (client w)). c \<noteq> None \<and> 0 < k \<and> k + 1 < length attrs \<and>
      attrs ! (k - 1) = Attr_chrc BT_UUID_FROMNUM_VAL {BT_GATT_CHRC_READ, BT_GATT_CHRC_NOTIFY} \<and>
      attrs ! k = Attr_value BT_UUID_FROMNUM_VAL {BT_GATT_PERM_READ} (Some Fromnum_read_cb) None \<and>
      attrs ! (k + 1) = Attr_ccc Fromnum_ccc_changed {BT_GATT_PERM_READ, BT_GATT_PERM_WRITE}) \<and>
    (\<forall>c i. c \<noteq> None \<and> find_slot c (client w) = Some i \<and> pc_fromnum (conns (client w) ! i) \<noteq> 0 \<longrightarrow>
      bells c (client w) \<noteq> [] \<and> last (bells c (client w)) = pc_fromnum (conns (client w) ! i) \<and>
      (\<forall>rd len off. fst (fromnum_read rd c len off (client w)) = rd len off (u32_bytes (last (bells c (client w))))))"
proof -
  have r: "rung (client w)" using doorbell.reachable_inv [OF assms(1)] by simp
  have "c \<noteq> None \<and> 0 < k \<and> k + 1 < length attrs \<and>
      attrs ! (k - 1) = Attr_chrc BT_UUID_FROMNUM_VAL {BT_GATT_CHRC_READ, BT_GATT_CHRC_NOTIFY} \<and>
      attrs ! k = Attr_value BT_UUID_FROMNUM_VAL {BT_GATT_PERM_READ} (Some Fromnum_read_cb) None \<and>
      attrs ! (k + 1) = Attr_ccc Fromnum_ccc_changed {BT_GATT_PERM_READ, BT_GATT_PERM_WRITE}"
    if "(c, k, v) \<in> set (notified (client w))" for c k v
  proof -
    have "c \<noteq> None" "k = FROMNUM_ATTR_IDX" using r that by (auto simp: rung_def)
    then show ?thesis by (simp add: assms(3) svc_attrs_value [OF assms(2)] FROMNUM_ATTR_IDX_def)
  qed
  moreover have "bells c (client w) \<noteq> [] \<and> last (bells c (client w)) = pc_fromnum (conns (client w) ! i) \<and>
      (\<forall>rd len off. fst (fromnum_read rd c len off (client w)) = rd len off (u32_bytes (last (bells c (client w)))))"
    if "c \<noteq> None" "find_slot c (client w) = Some i" "pc_fromnum (conns (client w) ! i) \<noteq> 0" for c i
  proof -
    have "slot_rung (client w) (conns (client w) ! i)"
      using r find_slot_SomeD(1) [OF that(2)] by (simp add: rung_def)
    then show ?thesis
      using that find_slot_SomeD(2) [OF that(2)] by (auto simp: slot_rung_def fromnum_read_def)
  qed
  ultimately show ?thesis by blast
qed

text \<open>The phone of the sample run asks for its config.\<close>

definition asked :: "gatt session" where
  "asked = snd (toradio_write (Some (on_toradio_ble sample_pb)) (Some 7) [3, 42] 0 went_live)"

lemma asked_reachable: "reachable (\<lambda>w. pb_bounded sample_pb \<and> fw_boot sample_pb w) (fw_step sample_pb) asked"
  unfolding asked_def by (rule reach_step [OF went_live_reachable fw_step.fw_toradio]) simp

lemma asked_slot: "find_slot (Some 7) (client asked) = Some 0" "pc_fromnum (conns (client asked) ! 0) = 1"
proof -
  have d: "proto_decode_toradio sample_pb [3, 42] = (OK, toradio_info_zero\<lparr>has_want_config := True, want_config_id := 42\<rparr>)"
    by (simp add: proto_decode_toradio_def sample_pb_def toradio_zero_def)
  have e: "fst (proto_encode_config_complete sample_pb 42 buf 16 0) = OK" for buf
    by (simp add: proto_encode_config_complete_def encode_result_cases sample_pb_def config_complete_msg_def)
  have c: "conns (client went_live) = slot_static\<lparr>pc_conn := Some 7\<rparr> # replicate 5 slot_static"
    by (simp add: went_live_state(4) with_phone_def on_connected_def alloc_slot_def booted_state static_conns put_slot_def
        Let_def slot_static_def numeral_eq_Suc)
  show "find_slot (Some 7) (client asked) = Some 0" "pc_fromnum (conns (client asked) ! 0) = 1"
    using e went_live_state(1)
    by (simp_all add: asked_def toradio_write_def on_toradio_ble_def d upstream_get_state_def Let_def split_beta
        ble_gatt_replay_cached_burst_def find_slot_def c notify_fromnum_def put_slot_def)
qed

theorem fromnum_doorbell_witness:
  "last (bells (Some 7) (client asked)) = 1 \<and> bells (Some 7) (client asked) \<noteq> [] \<and>
   fst (fromnum_read sample_attr_read (Some 7) 22 0 (client asked)) = sample_attr_read 22 0 [1, 0, 0, 0]"
proof -
  have "bells (Some 7) (client asked) \<noteq> [] \<and> last (bells (Some 7) (client asked)) = 1 \<and>
      (\<forall>rd len off. fst (fromnum_read rd (Some 7) len off (client asked)) =
        rd len off (u32_bytes (last (bells (Some 7) (client asked)))))"
    using fromnum_doorbell [OF asked_reachable sample_expand_macros refl, THEN conjunct2, THEN spec, of "Some 7",
        THEN spec, of 0] asked_slot by simp
  then show ?thesis by (simp add: u32_bytes_def)
qed

end
