(* ===== verification/Gatt_Threads.thy ===== *)
theory Gatt_Threads
  imports Ble_Gatt
begin

text \<open>
  The GATT server under concurrency. Two threads act on the slot table of \<^verbatim>\<open>src/src/ble_gatt.c\<close>: the
  Bluetooth thread (connections, reads, writes) and the system work queue (frames from the node,
  teardowns). The operations are split where the code gives up atomicity: a lookup of the slot
  table takes no lock, a section between \<open>k_mutex_lock\<close> and \<open>k_mutex_unlock\<close> is one step, a call
  into the stack is one step. Between two steps of one thread the other may take any number.

  The stores of \<open>alloc_slot\<close>, which takes no lock, are one step. The work queue runs one handler at
  a time and so does the Bluetooth thread.
\<close>

section \<open>The operations, split\<close>

text \<open>\<open>ble_gatt_enqueue_fromradio\<close>: the checks and the lookup, then the critical section.\<close>

definition enqueue_lookup :: "bt_conn \<Rightarrow> u8 list \<Rightarrow> gatt \<Rightarrow> rc + nat" where
  "enqueue_lookup conn data g =
     (if length data > FROMRADIO_MAX_PKT_SIZE then Inl (Err EMSGSIZE)
      else case find_slot conn g of None \<Rightarrow> Inl (Err ENOENT) | Some i \<Rightarrow> Inr i)"

definition enqueue_locked :: "u8 list \<Rightarrow> nat \<Rightarrow> gatt \<Rightarrow> (rc \<times> u32 option) \<times> gatt" where
  "enqueue_locked data i g =
     (let pc = conns g ! i in
      if pc_leaving pc then ((Err ESHUTDOWN, None), g)
      else if pc_count pc \<ge> FROMRADIO_QUEUE_DEPTH then ((Err ENOMEM, Some (pc_fromnum pc)), g)
      else
        let pc = ring_put data pc;
            pc = pc\<lparr>pc_fromnum := pc_fromnum pc + 1\<rparr>
        in ((OK, Some (pc_fromnum pc)), put_slot i pc g))"

text \<open>\<open>teardown_work_handler\<close>: the critical section, then the call into the stack.\<close>

definition teardown_grab :: "nat \<Rightarrow> gatt \<Rightarrow> bt_conn \<times> gatt" where
  "teardown_grab i g =
     (let pc = conns g ! i in
      if pc_conn pc \<noteq> None \<and> pc_leaving pc then (pc_conn pc, bt_conn_ref (pc_conn pc) g) else (None, g))"

definition teardown_drop :: "bt_conn \<Rightarrow> gatt \<Rightarrow> gatt" where
  "teardown_drop conn g =
     (if conn = None then g
      else bt_conn_unref conn (bt_conn_disconnect conn BT_HCI_ERR_REMOTE_USER_TERM_CONN g))"

text \<open>\<open>free_slot\<close>: the cancellation, then the critical section.\<close>

definition free_cancel :: "nat \<Rightarrow> gatt \<Rightarrow> gatt" where
  "free_cancel i g = put_slot i ((conns g ! i)\<lparr>pc_teardown_work := None\<rparr>) g"

definition free_locked :: "nat \<Rightarrow> gatt \<Rightarrow> gatt" where
  "free_locked i g =
     (let pc = conns g ! i;
          (pc, g) = (if pc_conn pc \<noteq> None then (pc\<lparr>pc_conn := None\<rparr>, bt_conn_unref (pc_conn pc) g) else (pc, g));
          pc = pc\<lparr>pc_proxy_id := zero_id, pc_fromnum := 0, pc_head := 0, pc_tail := 0, pc_count := 0,
                  pc_staged_len := 0, pc_state := PHONE_CONNECTED, pc_leaving := False, pc_nonce := 0,
                  pc_replay_cursor := 0\<rparr>
      in put_slot i pc g)"

text \<open>\<open>ble_gatt_request_teardown\<close>: the critical section, then the scheduling.\<close>

definition leave_locked :: "nat \<Rightarrow> gatt \<Rightarrow> gatt" where
  "leave_locked i g = put_slot i ((conns g ! i)\<lparr>pc_leaving := True\<rparr>) g"

definition leave_schedule :: "nat \<Rightarrow> gatt \<Rightarrow> gatt" where
  "leave_schedule i g = put_slot i ((conns g ! i)\<lparr>pc_teardown_work := Some TEARDOWN_DELAY_MS\<rparr>) g"

text \<open>
  \<open>ble_gatt_replay_cached_burst\<close>: the lookup, the nonce and the encoding of the closing frame into
  the slot, without the lock, then the critical section, which returns the doorbell's value.
\<close>

definition replay_prepare :: "nanopb \<Rightarrow> bt_conn \<Rightarrow> u32 \<Rightarrow> gatt \<Rightarrow> (nat \<times> nat) option \<times> gatt" where
  "replay_prepare pb conn nonce g =
     (case find_slot conn g of
        None \<Rightarrow> (None, g)
      | Some i \<Rightarrow>
          let pc = conns g ! i;
              pc = (if nonce \<noteq> 0 then pc\<lparr>pc_nonce := nonce\<rparr> else pc);
              (enc, buf, cc_len) = proto_encode_config_complete pb (pc_nonce pc) (pc_cc_frame pc) 16 0
          in (if enc \<noteq> OK then None else Some (i, cc_len), put_slot i (pc\<lparr>pc_cc_frame := buf\<rparr>) g))"

definition replay_locked :: "nat \<Rightarrow> nat \<Rightarrow> gatt \<Rightarrow> u32 \<times> gatt" where
  "replay_locked i cc_len g =
     (let pc = conns g ! i;
          pc = pc\<lparr>pc_cc_len := cc_len mod 2 ^ 8, pc_replay_cursor := 0, pc_state := PHONE_REPLAYING,
                  pc_fromnum := pc_fromnum pc + 1\<rparr>
      in (pc_fromnum pc, put_slot i pc g))"

text \<open>
  \<open>ble_gatt_reply_queuestatus\<close>: the lazy encoding of the reply into the shared buffer, without a
  lock; then the reply is enqueued.
\<close>

definition queuestatus_prepare :: "nanopb \<Rightarrow> gatt \<Rightarrow> rc \<times> gatt" where
  "queuestatus_prepare pb g =
     (if s_qs_len g = 0 then
        let (rc, buf, len) = proto_encode_queue_status pb (s_qs g) 16 (s_qs_len g)
        in (rc, g\<lparr>s_qs := buf, s_qs_len := (if rc \<noteq> OK then 0 else len)\<rparr>)
      else (OK, g))"

text \<open>\<open>ble_gatt_park_pending\<close>: the stores to the slot, without the lock.\<close>

definition park_mark :: "bt_conn \<Rightarrow> u32 \<Rightarrow> gatt \<Rightarrow> gatt" where
  "park_mark conn nonce g =
     (case find_slot conn g of
        None \<Rightarrow> g
      | Some i \<Rightarrow> put_slot i ((conns g ! i)\<lparr>pc_state := PHONE_PENDING, pc_nonce := nonce\<rparr>) g)"

text \<open>Run without interruption, the parts are the operations.\<close>

lemma enqueue_split:
  "ble_gatt_enqueue_fromradio conn data g =
     (case enqueue_lookup conn data g of
        Inl r \<Rightarrow> (r, g)
      | Inr i \<Rightarrow>
          (case enqueue_locked data i g of
             ((r, None), h) \<Rightarrow> (r, h)
           | ((r, Some n), h) \<Rightarrow> (r, notify_fromnum conn n h)))"
  by (simp add: ble_gatt_enqueue_fromradio_def enqueue_lookup_def enqueue_locked_def Let_def split: option.split)

lemma teardown_split:
  "teardown_work_handler i g = (case teardown_grab i g of (conn, h) \<Rightarrow> teardown_drop conn h)"
  by (simp add: teardown_work_handler_def teardown_grab_def teardown_drop_def Let_def)

lemma free_slot_split:
  assumes "i < length (conns g)"
  shows "free_slot i g = free_locked i (free_cancel i g)"
  using assms
  by (simp add: free_slot_def free_locked_def free_cancel_def put_slot_def bt_conn_unref_def Let_def split_beta)

lemma request_teardown_split:
  "ble_gatt_request_teardown conn g =
     (case find_slot conn g of
        None \<Rightarrow> (Err ENOENT, g)
      | Some i \<Rightarrow> (OK, leave_schedule i (leave_locked i g)))"
proof (cases "find_slot conn g")
  case (Some i)
  with find_slot_SomeD(1) [OF Some] show ?thesis
    by (simp add: ble_gatt_request_teardown_def leave_schedule_def leave_locked_def put_slot_def)
qed (simp add: ble_gatt_request_teardown_def)

lemma replay_split:
  "ble_gatt_replay_cached_burst pb conn nonce g =
     (case replay_prepare pb conn nonce g of
        (None, h) \<Rightarrow> h
      | (Some (i, n), h) \<Rightarrow> (case replay_locked i n h of (v, k) \<Rightarrow> notify_fromnum conn v k))"
proof (cases "find_slot conn g")
  case (Some i)
  with find_slot_SomeD(1) [OF Some] show ?thesis
    by (simp add: ble_gatt_replay_cached_burst_def replay_prepare_def replay_locked_def put_slot_def Let_def split_beta)
qed (simp add: ble_gatt_replay_cached_burst_def replay_prepare_def)

lemma queuestatus_split:
  "ble_gatt_reply_queuestatus pb conn g =
     (case queuestatus_prepare pb g of
        (rc, h) \<Rightarrow> if rc \<noteq> OK then h else snd (ble_gatt_enqueue_fromradio conn (take (s_qs_len h) (s_qs h)) h))"
  by (simp add: ble_gatt_reply_queuestatus_def queuestatus_prepare_def)

lemma park_split:
  "ble_gatt_park_pending conn nonce w =
     (if find_slot conn (client w) = None then w
      else upstream_on_pending_phone conn (w\<lparr>client := park_mark conn nonce (client w)\<rparr>))"
  by (simp add: ble_gatt_park_pending_def park_mark_def split: option.split)

section \<open>The threads\<close>

text \<open>
  Where the work queue is: between two calls, in the broadcast loop before slot \<open>k\<close>, before the
  lookup of an enqueue, between that lookup and the lock, before the doorbell, before the critical
  section of a replay, before or after the critical section of a teardown. \<open>wq_ret\<close> is what the caller of an enqueue does next.
\<close>

datatype wq_ret = Wq_return | Wq_continue "u8 list" nat

datatype wq_pc =
    Wq_idle
  | Wq_broadcast "u8 list" nat
  | Wq_call bt_conn "u8 list" wq_ret
  | Wq_enqueue bt_conn "u8 list" nat wq_ret
  | Wq_notify bt_conn u32 wq_ret
  | Wq_arm bt_conn nat nat
  | Wq_teardown nat
  | Wq_disconnect bt_conn

fun wq_resume :: "wq_ret \<Rightarrow> wq_pc" where
  "wq_resume Wq_return = Wq_idle"
| "wq_resume (Wq_continue data k) = Wq_broadcast data k"

text \<open>
  Where the Bluetooth thread is: between two calls, in a disconnection, in a departure, before the
  critical section of a replay, in the enqueue of a queueStatus reply, before the doorbell.
\<close>

datatype bt_pc =
    Bt_idle
  | Bt_reset nat
  | Bt_finish
  | Bt_schedule nat
  | Bt_arm bt_conn nat nat
  | Bt_call bt_conn "u8 list"
  | Bt_enqueue bt_conn "u8 list" nat
  | Bt_notify bt_conn u32

text \<open>
  Besides the server and the two program points the state has three history variables: how many
  connections a connection object has carried, the connections (object and count) that asked to
  be torn down, and those the teardown handler dropped.
\<close>

record threads =
  srv :: gatt
  wq :: wq_pc
  bt :: bt_pc
  gen :: "bt_conn \<Rightarrow> nat"
  asked :: "(bt_conn \<times> nat) set"
  dropped :: "(bt_conn \<times> nat) list"

datatype thread = WQ | BT

text \<open>
  The steps of the work queue: frames routed to one phone or to all, the replay to a phone that was
  waiting for the cache (any connection object, as the session keeps it without a reference) and
  the teardowns that are due. The destination of a routed frame is looked up in one step and the
  enqueue starts with the connection found.
\<close>

inductive wq_step :: "nanopb \<Rightarrow> threads \<Rightarrow> threads \<Rightarrow> bool" for pb where
  wq_route: "wq t = Wq_idle \<Longrightarrow> ble_gatt_get_conn_by_proxy_id pid (srv t) = conn \<Longrightarrow> conn \<noteq> None \<Longrightarrow>
    wq_step pb t (t\<lparr>wq := Wq_call conn data Wq_return\<rparr>)"
| wq_broadcast: "wq t = Wq_idle \<Longrightarrow> wq_step pb t (t\<lparr>wq := Wq_broadcast data 0\<rparr>)"
| wq_slot: "wq t = Wq_broadcast data k \<Longrightarrow> k < MAX_BLE_CONNECTIONS \<Longrightarrow>
    wq_step pb t (t\<lparr>wq := (case pc_conn (conns (srv t) ! k) of
      None \<Rightarrow> Wq_broadcast data (k + 1)
    | Some c \<Rightarrow> Wq_call (Some c) data (Wq_continue data (k + 1)))\<rparr>)"
| wq_end: "wq t = Wq_broadcast data k \<Longrightarrow> MAX_BLE_CONNECTIONS \<le> k \<Longrightarrow> wq_step pb t (t\<lparr>wq := Wq_idle\<rparr>)"
| wq_call: "wq t = Wq_call conn data ret \<Longrightarrow>
    wq_step pb t (t\<lparr>wq := (case enqueue_lookup conn data (srv t) of
      Inl r \<Rightarrow> wq_resume ret | Inr i \<Rightarrow> Wq_enqueue conn data i ret)\<rparr>)"
| wq_lock: "wq t = Wq_enqueue conn data i ret \<Longrightarrow> enqueue_locked data i (srv t) = ((r, n), g) \<Longrightarrow>
    wq_step pb t (t\<lparr>srv := g, wq := (case n of None \<Rightarrow> wq_resume ret | Some v \<Rightarrow> Wq_notify conn v ret)\<rparr>)"
| wq_notify: "wq t = Wq_notify conn v ret \<Longrightarrow>
    wq_step pb t (t\<lparr>srv := notify_fromnum conn v (srv t), wq := wq_resume ret\<rparr>)"
| wq_serve: "wq t = Wq_idle \<Longrightarrow> conn \<noteq> None \<Longrightarrow> replay_prepare pb conn 0 (srv t) = (r, g) \<Longrightarrow>
    wq_step pb t (t\<lparr>srv := g, wq := (case r of None \<Rightarrow> Wq_idle | Some (i, n) \<Rightarrow> Wq_arm conn i n)\<rparr>)"
| wq_arm: "wq t = Wq_arm conn i n \<Longrightarrow> replay_locked i n (srv t) = (v, g) \<Longrightarrow>
    wq_step pb t (t\<lparr>srv := g, wq := Wq_notify conn v Wq_return\<rparr>)"
| wq_teardown: "wq t = Wq_idle \<Longrightarrow> i < MAX_BLE_CONNECTIONS \<Longrightarrow> pc_teardown_work (conns (srv t) ! i) \<noteq> None \<Longrightarrow>
    wq_step pb t (t\<lparr>srv := free_cancel i (srv t), wq := Wq_teardown i\<rparr>)"
| wq_grab: "wq t = Wq_teardown i \<Longrightarrow> teardown_grab i (srv t) = (conn, g) \<Longrightarrow>
    wq_step pb t (t\<lparr>srv := g, wq := (if conn = None then Wq_idle else Wq_disconnect conn)\<rparr>)"
| wq_drop: "wq t = Wq_disconnect conn \<Longrightarrow>
    wq_step pb t (t\<lparr>srv := teardown_drop conn (srv t), wq := Wq_idle, dropped := dropped t @ [(conn, gen t conn)]\<rparr>)"

text \<open>
  The steps of the Bluetooth thread. The stack hands out a connection object only when no
  reference to it is left. The cache a read walks is the work queue's; here it is any cache that
  satisfies its invariant.
\<close>

inductive bt_step :: "nanopb \<Rightarrow> threads \<Rightarrow> threads \<Rightarrow> bool" for pb where
  bt_connect: "bt t = Bt_idle \<Longrightarrow> conn \<noteq> None \<Longrightarrow> conn_refs (srv t) conn = 0 \<Longrightarrow>
    bt_step pb t (t\<lparr>srv := on_connected adv conn err (srv t), gen := (gen t)(conn := gen t conn + 1)\<rparr>)"
| bt_lost: "bt t = Bt_idle \<Longrightarrow> conn \<noteq> None \<Longrightarrow> find_slot conn (srv t) = Some i \<Longrightarrow>
    bt_step pb t (t\<lparr>srv := free_cancel i (srv t), bt := Bt_reset i\<rparr>)"
| bt_unknown: "bt t = Bt_idle \<Longrightarrow> conn \<noteq> None \<Longrightarrow> find_slot conn (srv t) = None \<Longrightarrow>
    bt_step pb t (t\<lparr>srv := snd (ble_gatt_start_advertising adv (srv t))\<rparr>)"
| bt_reset: "bt t = Bt_reset i \<Longrightarrow> bt_step pb t (t\<lparr>srv := free_locked i (srv t), bt := Bt_finish\<rparr>)"
| bt_finish: "bt t = Bt_finish \<Longrightarrow>
    bt_step pb t (t\<lparr>srv := snd (ble_gatt_start_advertising adv
      ((srv t)\<lparr>active_conn_count := active_conn_count (srv t) - 1\<rparr>)), bt := Bt_idle\<rparr>)"
| bt_fromnum: "bt t = Bt_idle \<Longrightarrow> conn \<noteq> None \<Longrightarrow>
    bt_step pb t (t\<lparr>srv := snd (fromnum_read rd conn len off (srv t))\<rparr>)"
| bt_fromradio: "bt t = Bt_idle \<Longrightarrow> conn \<noteq> None \<Longrightarrow> cache_ok c \<Longrightarrow>
    bt_step pb t (t\<lparr>srv := snd (fromradio_read rd c conn len off (srv t))\<rparr>)"
| bt_node_reg: "bt t = Bt_idle \<Longrightarrow> conn \<noteq> None \<Longrightarrow>
    bt_step pb t (t\<lparr>srv := snd (node_reg_write conn buf off (srv t))\<rparr>)"
| bt_replay: "bt t = Bt_idle \<Longrightarrow> conn \<noteq> None \<Longrightarrow> replay_prepare pb conn nonce (srv t) = (r, g) \<Longrightarrow>
    bt_step pb t (t\<lparr>srv := g, bt := (case r of None \<Rightarrow> Bt_idle | Some (i, n) \<Rightarrow> Bt_arm conn i n)\<rparr>)"
| bt_arm: "bt t = Bt_arm conn i n \<Longrightarrow> replay_locked i n (srv t) = (v, g) \<Longrightarrow>
    bt_step pb t (t\<lparr>srv := g, bt := Bt_notify conn v\<rparr>)"
| bt_park: "bt t = Bt_idle \<Longrightarrow> conn \<noteq> None \<Longrightarrow> bt_step pb t (t\<lparr>srv := park_mark conn nonce (srv t)\<rparr>)"
| bt_queuestatus: "bt t = Bt_idle \<Longrightarrow> conn \<noteq> None \<Longrightarrow> queuestatus_prepare pb (srv t) = (r, g) \<Longrightarrow>
    bt_step pb t (t\<lparr>srv := g, bt := (if r \<noteq> OK then Bt_idle else Bt_call conn (take (s_qs_len g) (s_qs g)))\<rparr>)"
| bt_call: "bt t = Bt_call conn data \<Longrightarrow>
    bt_step pb t (t\<lparr>bt := (case enqueue_lookup conn data (srv t) of Inl r \<Rightarrow> Bt_idle | Inr i \<Rightarrow> Bt_enqueue conn data i)\<rparr>)"
| bt_lock: "bt t = Bt_enqueue conn data i \<Longrightarrow> enqueue_locked data i (srv t) = ((r, n), g) \<Longrightarrow>
    bt_step pb t (t\<lparr>srv := g, bt := (case n of None \<Rightarrow> Bt_idle | Some v \<Rightarrow> Bt_notify conn v)\<rparr>)"
| bt_notify: "bt t = Bt_notify conn v \<Longrightarrow>
    bt_step pb t (t\<lparr>srv := notify_fromnum conn v (srv t), bt := Bt_idle\<rparr>)"
| bt_leave: "bt t = Bt_idle \<Longrightarrow> conn \<noteq> None \<Longrightarrow> find_slot conn (srv t) = Some i \<Longrightarrow>
    bt_step pb t (t\<lparr>srv := leave_locked i (srv t), bt := Bt_schedule i, asked := insert (conn, gen t conn) (asked t)\<rparr>)"
| bt_schedule: "bt t = Bt_schedule i \<Longrightarrow> bt_step pb t (t\<lparr>srv := leave_schedule i (srv t), bt := Bt_idle\<rparr>)"

fun thread_step :: "nanopb \<Rightarrow> threads \<Rightarrow> thread \<Rightarrow> threads \<Rightarrow> bool" where
  "thread_step pb t WQ t' = wq_step pb t t'"
| "thread_step pb t BT t' = bt_step pb t t'"

definition thread_start :: "nanopb \<Rightarrow> threads \<Rightarrow> bool" where
  "thread_start pb t \<longleftrightarrow> pb_bounded pb \<and> srv t = gatt_static \<and> wq t = Wq_idle \<and> bt t = Bt_idle \<and>
     asked t = {} \<and> dropped t = []"

section \<open>The invariant\<close>

text \<open>
  What is in flight: the reference a teardown handler holds, and the connection that has left
  its slot but is still counted. Without them the server is in a state the sequential operations
  know.
\<close>

definition held :: "wq_pc \<Rightarrow> bt_conn \<Rightarrow> int" where
  "held p c = (if p = Wq_disconnect c then 1 else 0)"

definition unfinished :: "bt_pc \<Rightarrow> nat" where
  "unfinished b = (if b = Bt_finish then 1 else 0)"

definition quiet :: "(bt_conn \<Rightarrow> int) \<Rightarrow> nat \<Rightarrow> gatt \<Rightarrow> gatt" where
  "quiet h k g = g\<lparr>conn_refs := (\<lambda>c. conn_refs g c - h c), active_conn_count := active_conn_count g - k\<rparr>"

definition slot_id :: "proxy_conn \<Rightarrow> bt_conn \<times> bool \<times> nat option" where
  "slot_id pc = (pc_conn pc, pc_leaving pc, pc_teardown_work pc)"

fun wq_ok :: "threads \<Rightarrow> wq_pc \<Rightarrow> bool" where
  "wq_ok t (Wq_enqueue c d i r) \<longleftrightarrow> i < MAX_BLE_CONNECTIONS \<and> length d \<le> FROMRADIO_MAX_PKT_SIZE"
| "wq_ok t (Wq_arm c i n) \<longleftrightarrow> i < MAX_BLE_CONNECTIONS \<and> n \<le> 16"
| "wq_ok t (Wq_teardown i) \<longleftrightarrow> i < MAX_BLE_CONNECTIONS"
| "wq_ok t (Wq_disconnect c) \<longleftrightarrow> c \<noteq> None \<and> (c, gen t c) \<in> asked t"
| "wq_ok t p \<longleftrightarrow> True"

fun bt_ok :: "gatt \<Rightarrow> bt_pc \<Rightarrow> bool" where
  "bt_ok g (Bt_reset i) \<longleftrightarrow> i < MAX_BLE_CONNECTIONS \<and> pc_conn (conns g ! i) \<noteq> None \<and> pc_teardown_work (conns g ! i) = None"
| "bt_ok g (Bt_schedule i) \<longleftrightarrow> i < MAX_BLE_CONNECTIONS \<and> pc_leaving (conns g ! i)"
| "bt_ok g (Bt_arm c i n) \<longleftrightarrow> i < MAX_BLE_CONNECTIONS \<and> n \<le> 16"
| "bt_ok g (Bt_enqueue c d i) \<longleftrightarrow> i < MAX_BLE_CONNECTIONS \<and> length d \<le> FROMRADIO_MAX_PKT_SIZE"
| "bt_ok g b \<longleftrightarrow> True"

definition leavers_asked :: "threads \<Rightarrow> gatt \<Rightarrow> bool" where
  "leavers_asked t g \<longleftrightarrow> (\<forall>pc \<in> set (conns g). pc_leaving pc \<longrightarrow> (pc_conn pc, gen t (pc_conn pc)) \<in> asked t)"

definition thread_inv :: "nanopb \<Rightarrow> threads \<Rightarrow> bool" where
  "thread_inv pb t \<longleftrightarrow> pb_bounded pb \<and> gatt_inv (quiet (held (wq t)) (unfinished (bt t)) (srv t)) \<and>
     unfinished (bt t) \<le> active_conn_count (srv t) \<and> leavers_asked t (srv t) \<and> wq_ok t (wq t) \<and>
     bt_ok (srv t) (bt t) \<and> set (dropped t) \<subseteq> asked t"

lemma quiet_simps [simp]:
  "conns (quiet h k g) = conns g" "tracked_conns (quiet h k g) = tracked_conns g"
  "find_slot c (quiet h k g) = find_slot c g" "put_slot i pc (quiet h k g) = quiet h k (put_slot i pc g)"
  "notify_fromnum c n (quiet h k g) = quiet h k (notify_fromnum c n g)"
  "s_qs (quiet h k g) = s_qs g" "s_qs_len (quiet h k g) = s_qs_len g"
  "(quiet h k g)\<lparr>led_fromradio_active := b\<rparr> = quiet h k (g\<lparr>led_fromradio_active := b\<rparr>)"
  "(quiet h k g)\<lparr>s_qs := q\<rparr> = quiet h k (g\<lparr>s_qs := q\<rparr>)"
  "(quiet h k g)\<lparr>s_qs_len := m\<rparr> = quiet h k (g\<lparr>s_qs_len := m\<rparr>)"
  "(quiet h k g)\<lparr>adv_starts := m\<rparr> = quiet h k (g\<lparr>adv_starts := m\<rparr>)" "adv_starts (quiet h k g) = adv_starts g"
  "(quiet h k g)\<lparr>disconnects := d\<rparr> = quiet h k (g\<lparr>disconnects := d\<rparr>)" "disconnects (quiet h k g) = disconnects g"
  by (simp_all add: quiet_def tracked_conns_def find_slot_def put_slot_def notify_fromnum_def)

lemma held_simps [simp]:
  "held Wq_idle = (\<lambda>_. 0)" "held (Wq_broadcast d k) = (\<lambda>_. 0)" "held (Wq_call c d r) = (\<lambda>_. 0)"
  "held (Wq_enqueue c d i r) = (\<lambda>_. 0)" "held (Wq_notify c n r) = (\<lambda>_. 0)" "held (Wq_arm c i m) = (\<lambda>_. 0)" "held (Wq_teardown i) = (\<lambda>_. 0)"
  "held (wq_resume r) = (\<lambda>_. 0)" "wq_ok t (wq_resume r)"
  by (auto simp: held_def fun_eq_iff) (cases r; simp add: held_def)+

lemma quiet_length: "gatt_inv (quiet h k g) \<Longrightarrow> length (conns g) = MAX_BLE_CONNECTIONS"
  by (simp add: gatt_inv_def)

lemma slot_ids_nth:
  assumes "map slot_id (conns g) = map slot_id (conns h)" and "i < length (conns h)"
  shows "pc_conn (conns g ! i) = pc_conn (conns h ! i)" "pc_leaving (conns g ! i) = pc_leaving (conns h ! i)"
    "pc_teardown_work (conns g ! i) = pc_teardown_work (conns h ! i)"
proof -
  have "slot_id (conns g ! i) = slot_id (conns h ! i)"
    using assms by (metis length_map nth_map)
  then show "pc_conn (conns g ! i) = pc_conn (conns h ! i)" "pc_leaving (conns g ! i) = pc_leaving (conns h ! i)"
    "pc_teardown_work (conns g ! i) = pc_teardown_work (conns h ! i)"
    by (simp_all add: slot_id_def)
qed

lemma leavers_ids:
  assumes "map slot_id (conns g) = map slot_id (conns h)" and "leavers_asked t h"
  shows "leavers_asked t g"
  unfolding leavers_asked_def
proof (intro ballI impI)
  fix pc
  assume "pc \<in> set (conns g)" "pc_leaving pc"
  moreover have "slot_id ` set (conns g) = slot_id ` set (conns h)"
    using assms(1) by (metis set_map)
  ultimately obtain pc' where "pc' \<in> set (conns h)" "slot_id pc' = slot_id pc" by (metis imageE imageI)
  with \<open>pc_leaving pc\<close> assms(2) show "(pc_conn pc, gen t (pc_conn pc)) \<in> asked t"
    by (auto simp: leavers_asked_def slot_id_def)
qed

section \<open>Operations that need no care\<close>

text \<open>
  An operation that looks at the slots only, keeps the sequential invariant and leaves every
  slot's owner, mark and timer alone is safe at any point of the other thread.
\<close>

locale slot_operation =
  fixes op :: "gatt \<Rightarrow> gatt"
  assumes op_quiet: "op (quiet h k g) = quiet h k (op g)"
    and op_inv: "gatt_inv g \<Longrightarrow> gatt_inv (op g)"
    and op_ids: "map slot_id (conns (op g)) = map slot_id (conns g)"
    and op_count: "active_conn_count (op g) = active_conn_count g"
begin

lemma op_bt_ok: "length (conns g) = MAX_BLE_CONNECTIONS \<Longrightarrow> bt_ok g b \<Longrightarrow> bt_ok (op g) b"
  using slot_ids_nth [OF op_ids, of _ g] by (cases b) simp_all

lemma op_step:
  assumes "thread_inv pb t" and "held p = held (wq t)" and "wq_ok t p"
  shows "thread_inv pb (t\<lparr>srv := op (srv t), wq := p\<rparr>)"
proof -
  have q: "gatt_inv (quiet (held (wq t)) (unfinished (bt t)) (srv t))" using assms(1) by (simp add: thread_inv_def)
  have "wq_ok (t\<lparr>srv := op (srv t), wq := p\<rparr>) p" using assms(3) by (cases p) simp_all
  moreover have "leavers_asked (t\<lparr>srv := op (srv t), wq := p\<rparr>) (op (srv t))"
    using leavers_ids [OF op_ids, of t "srv t"] assms(1) by (simp add: thread_inv_def leavers_asked_def)
  ultimately show ?thesis
    using op_inv [OF q] op_bt_ok [OF quiet_length [OF q]] assms(1,2)
    by (simp add: thread_inv_def op_quiet op_count)
qed

lemma op_bt_step:
  assumes "thread_inv pb t" and "unfinished b = unfinished (bt t)" and "bt_ok (op (srv t)) b"
  shows "thread_inv pb (t\<lparr>srv := op (srv t), bt := b\<rparr>)"
proof -
  have "thread_inv pb (t\<lparr>srv := op (srv t), wq := wq t\<rparr>)"
    by (rule op_step [OF assms(1)]) (use assms(1) in \<open>simp_all add: thread_inv_def\<close>)
  then have "thread_inv pb (t\<lparr>srv := op (srv t)\<rparr>)" by simp
  moreover have "wq_ok (t\<lparr>srv := op (srv t), bt := b\<rparr>) p = wq_ok (t\<lparr>srv := op (srv t)\<rparr>) p" for p by (cases p) simp_all
  ultimately show ?thesis using assms(2,3) by (simp add: thread_inv_def leavers_asked_def)
qed

lemma op_alone: "thread_inv pb t \<Longrightarrow> thread_inv pb (t\<lparr>srv := op (srv t)\<rparr>)"
  using op_step [of pb t "wq t"] by (simp add: thread_inv_def)

end

lemma put_slot_ids:
  "slot_id pc = slot_id (conns g ! i) \<Longrightarrow> map slot_id (conns (put_slot i pc g)) = map slot_id (conns g)"
proof (rule nth_equalityI)
  fix j
  assume "slot_id pc = slot_id (conns g ! i)" "j < length (map slot_id (conns (put_slot i pc g)))"
  then show "map slot_id (conns (put_slot i pc g)) ! j = map slot_id (conns g) ! j"
    by (cases "j = i") (simp_all add: put_slot_def)
qed (simp add: put_slot_def)

interpretation op_nothing: slot_operation "\<lambda>g. g"
  by unfold_locales simp_all

interpretation op_notify: slot_operation "notify_fromnum conn n"
  by unfold_locales simp_all

interpretation op_fromnum: slot_operation "\<lambda>g. snd (fromnum_read rd conn len off g)"
  by unfold_locales (auto simp: fromnum_read_def split: option.split)

interpretation op_node_reg: slot_operation "\<lambda>g. snd (node_reg_write conn buf off g)"
proof
  fix h k g
  show "snd (node_reg_write conn buf off (quiet h k g)) = quiet h k (snd (node_reg_write conn buf off g))"
    by (simp add: node_reg_write_def ble_gatt_register_proxy_id_def Let_def split: option.split)
  show "map slot_id (conns (snd (node_reg_write conn buf off g))) = map slot_id (conns g)"
    by (auto simp: node_reg_write_def ble_gatt_register_proxy_id_def Let_def slot_id_def put_slot_ids split: option.split)
  show "active_conn_count (snd (node_reg_write conn buf off g)) = active_conn_count g"
    by (simp add: node_reg_write_def ble_gatt_register_proxy_id_def Let_def split: option.split)
qed (rule node_reg_inv)

lemma stage_next_ids: "slot_id (stage_next c pc) = slot_id pc"
  by (auto simp: stage_next_def stage_bytes_def ring_get_def slot_id_def Let_def split: option.split)

lemma op_fromradio:
  assumes "cache_ok c"
  shows "slot_operation (\<lambda>g. snd (fromradio_read rd c conn len off g))"
proof
  fix h k g
  show "snd (fromradio_read rd c conn len off (quiet h k g)) = quiet h k (snd (fromradio_read rd c conn len off g))"
    by (simp add: fromradio_read_def Let_def split: option.split)
  show "map slot_id (conns (snd (fromradio_read rd c conn len off g))) = map slot_id (conns g)"
    by (auto simp: fromradio_read_def Let_def stage_next_ids intro!: put_slot_ids split: option.split)
  show "active_conn_count (snd (fromradio_read rd c conn len off g)) = active_conn_count g"
    by (simp add: fromradio_read_def Let_def split: option.split)
qed (rule fromradio_read_inv [OF assms])

lemma encode_close_bounds:
  assumes "pb_bounded pb" and "length frame = 16" and "proto_encode_config_complete pb nonce frame 16 0 = (r, buf, n)"
  shows "length buf = 16" and "r = OK \<Longrightarrow> n \<le> 16"
proof -
  have l: "length (snd (pb_encode_fromradio pb (config_complete_msg nonce) 16)) \<le> 16"
    using assms(1) by (simp add: pb_bounded_def)
  have e: "buf = memcpy_at frame 0 (snd (pb_encode_fromradio pb (config_complete_msg nonce) 16))"
    "r = OK \<longrightarrow> n = length (snd (pb_encode_fromradio pb (config_complete_msg nonce) 16)) mod 2 ^ 16"
    using assms(3) by (auto simp: proto_encode_config_complete_def encode_result_cases split: if_splits)
  show "length buf = 16" using l assms(2) by (simp add: e(1))
  show "n \<le> 16" if "r = OK" using l e(2) that by simp
qed

lemma replay_prepare_bounds:
  assumes "pb_bounded pb" and "\<And>i. i < length (conns g) \<Longrightarrow> slot_inv (conns g ! i)"
    and "replay_prepare pb conn nonce g = (Some (i, n), h)"
  shows "i < length (conns g)" "n \<le> 16"
proof -
  have f: "find_slot conn g = Some i"
    using assms(3) by (auto simp: replay_prepare_def Let_def split_beta split: option.splits if_splits)
  let ?n = "if nonce \<noteq> 0 then nonce else pc_nonce (conns g ! i)"
  obtain r buf m where e: "proto_encode_config_complete pb ?n (pc_cc_frame (conns g ! i)) 16 0 = (r, buf, m)"
    by (metis prod.exhaust)
  show i: "i < length (conns g)" by (rule find_slot_SomeD(1) [OF f])
  have "length (pc_cc_frame (conns g ! i)) = 16" using assms(2) [OF i] by (simp add: slot_inv_def)
  moreover have "r = OK" "m = n"
    using assms(3) f e by (cases "nonce = 0"; auto simp: replay_prepare_def Let_def split: if_splits)+
  ultimately show "n \<le> 16" using encode_close_bounds(2) [OF assms(1) _ e] by simp
qed

lemma op_prepare:
  assumes "pb_bounded pb"
  shows "slot_operation (\<lambda>g. snd (replay_prepare pb conn nonce g))"
proof
  fix h k g
  show "snd (replay_prepare pb conn nonce (quiet h k g)) = quiet h k (snd (replay_prepare pb conn nonce g))"
    by (simp add: replay_prepare_def Let_def split_beta split: option.split)
  show "map slot_id (conns (snd (replay_prepare pb conn nonce g))) = map slot_id (conns g)"
    by (auto simp: replay_prepare_def Let_def split_beta slot_id_def put_slot_ids split: option.split)
  show "active_conn_count (snd (replay_prepare pb conn nonce g)) = active_conn_count g"
    by (simp add: replay_prepare_def Let_def split_beta split: option.split)
  show "gatt_inv (snd (replay_prepare pb conn nonce g))" if "gatt_inv g"
  proof (cases "find_slot conn g")
    case (Some i)
    let ?pc = "if nonce \<noteq> 0 then (conns g ! i)\<lparr>pc_nonce := nonce\<rparr> else conns g ! i"
    obtain r buf n where e: "proto_encode_config_complete pb (pc_nonce ?pc) (pc_cc_frame ?pc) 16 0 = (r, buf, n)"
      by (metis prod.exhaust)
    have "slot_inv (?pc\<lparr>pc_cc_frame := buf\<rparr>)"
      using gatt_inv_find(2) [OF that Some] encode_close_bounds(1) [OF assms _ e] by (auto simp: slot_inv_def ring_inv_def)
    then show ?thesis using Some e that by (auto simp: replay_prepare_def Let_def intro!: gatt_inv_put)
  qed (use that in \<open>simp add: replay_prepare_def\<close>)
qed

lemma op_arm:
  assumes "i < MAX_BLE_CONNECTIONS" and "n \<le> 16"
  shows "slot_operation (\<lambda>g. snd (replay_locked i n g))"
proof
  fix h k g
  show "gatt_inv (snd (replay_locked i n g))" if "gatt_inv g"
    using gatt_inv_slot [OF that assms(1)] that assms(2)
    by (auto simp: replay_locked_def Let_def slot_inv_def ring_inv_def intro!: gatt_inv_put)
qed (simp_all add: replay_locked_def Let_def slot_id_def put_slot_ids)

interpretation op_park: slot_operation "park_mark conn nonce"
proof
  fix h k g
  show "gatt_inv (park_mark conn nonce g)" if "gatt_inv g"
  proof (cases "find_slot conn g")
    case (Some i)
    then show ?thesis
      using gatt_inv_find(2) [OF that Some] that
      by (auto simp: park_mark_def slot_inv_def ring_inv_def intro!: gatt_inv_put)
  qed (use that in \<open>simp add: park_mark_def\<close>)
  show "map slot_id (conns (park_mark conn nonce g)) = map slot_id (conns g)"
    by (auto simp: park_mark_def slot_id_def put_slot_ids split: option.split)
qed (simp_all add: park_mark_def split: option.split)

lemma op_queuestatus:
  assumes "pb_bounded pb"
  shows "slot_operation (\<lambda>g. snd (queuestatus_prepare pb g))"
proof
  fix h k g
  show "snd (queuestatus_prepare pb (quiet h k g)) = quiet h k (snd (queuestatus_prepare pb g))"
    by (simp add: queuestatus_prepare_def Let_def split_beta)
  show "map slot_id (conns (snd (queuestatus_prepare pb g))) = map slot_id (conns g)"
    by (simp add: queuestatus_prepare_def Let_def split_beta)
  show "active_conn_count (snd (queuestatus_prepare pb g)) = active_conn_count g"
    by (simp add: queuestatus_prepare_def Let_def split_beta)
  show "gatt_inv (snd (queuestatus_prepare pb g))" if "gatt_inv g"
    using that assms
    by (auto simp: queuestatus_prepare_def proto_encode_queue_status_def encode_result_cases gatt_inv_def tracked_conns_def
        pb_bounded_def Let_def split_beta intro: order_trans [OF mod_less_eq_dividend])
qed

lemma enqueue_locked_offer:
  assumes "length data \<le> FROMRADIO_MAX_PKT_SIZE"
  shows "snd (enqueue_locked data i g) = put_slot i (snd (phone_offer data (conns g ! i))) g"
  using assms by (auto simp: enqueue_locked_def phone_offer_def Let_def)

lemma op_locked:
  assumes "length data \<le> FROMRADIO_MAX_PKT_SIZE" and "i < MAX_BLE_CONNECTIONS"
  shows "slot_operation (\<lambda>g. snd (enqueue_locked data i g))"
  unfolding enqueue_locked_offer [OF assms(1)]
proof
  fix h k g
  show "put_slot i (snd (phone_offer data (conns (quiet h k g) ! i))) (quiet h k g) =
      quiet h k (put_slot i (snd (phone_offer data (conns g ! i))) g)"
    by simp
  show "gatt_inv (put_slot i (snd (phone_offer data (conns g ! i))) g)" if "gatt_inv g"
    using gatt_inv_put [OF that phone_offer_inv [OF gatt_inv_slot [OF that assms(2)]]] by simp
  show "map slot_id (conns (put_slot i (snd (phone_offer data (conns g ! i))) g)) = map slot_id (conns g)"
    by (rule put_slot_ids) (simp add: slot_id_def phone_offer_def)
  show "active_conn_count (put_slot i (snd (phone_offer data (conns g ! i))) g) = active_conn_count g"
    by simp
qed

section \<open>The other steps\<close>

lemma leavers_put:
  assumes "leavers_asked t g" and "pc_leaving pc \<longrightarrow> (pc_conn pc, gen t (pc_conn pc)) \<in> asked t"
  shows "leavers_asked t (put_slot i pc g)"
  using assms set_update_subset_insert [of "conns g" i pc] by (auto simp: leavers_asked_def put_slot_def)

lemma leavers_nth:
  assumes "leavers_asked t g" and "i < length (conns g)" and "pc_leaving (conns g ! i)"
  shows "(pc_conn (conns g ! i), gen t (pc_conn (conns g ! i))) \<in> asked t"
  using assms nth_mem unfolding leavers_asked_def by blast

lemma thread_invD:
  assumes "thread_inv pb t"
  shows "gatt_inv (quiet (held (wq t)) (unfinished (bt t)) (srv t))" and "length (conns (srv t)) = MAX_BLE_CONNECTIONS"
    and "\<And>i. i < MAX_BLE_CONNECTIONS \<Longrightarrow> slot_inv (conns (srv t) ! i)"
    and "conn_refs (srv t) c = (if c \<in> set (tracked_conns (srv t)) then 1 else 0) + held (wq t) c"
    and "active_conn_count (srv t) = length (tracked_conns (srv t)) + unfinished (bt t)"
proof -
  show q: "gatt_inv (quiet (held (wq t)) (unfinished (bt t)) (srv t))" using assms by (simp add: thread_inv_def)
  then show "length (conns (srv t)) = MAX_BLE_CONNECTIONS" by (rule quiet_length)
  show "slot_inv (conns (srv t) ! i)" if "i < MAX_BLE_CONNECTIONS" for i
    using gatt_inv_slot [OF q that] by simp
  have "conn_refs (srv t) c - held (wq t) c = (if c \<in> set (tracked_conns (srv t)) then 1 else 0)"
    "active_conn_count (srv t) - unfinished (bt t) = length (tracked_conns (srv t))"
    using q by (simp_all add: gatt_inv_def quiet_def tracked_conns_def)
  moreover have "unfinished (bt t) \<le> active_conn_count (srv t)" using assms by (simp add: thread_inv_def)
  ultimately show "conn_refs (srv t) c = (if c \<in> set (tracked_conns (srv t)) then 1 else 0) + held (wq t) c"
    "active_conn_count (srv t) = length (tracked_conns (srv t)) + unfinished (bt t)"
    by linarith+
qed

text \<open>Taking a timer off a slot, on either thread.\<close>

lemma cancel_step:
  assumes "thread_inv pb t" and "i < MAX_BLE_CONNECTIONS"
    and "bt_ok (free_cancel i (srv t)) b" and "unfinished b = unfinished (bt t)"
    and "wq_ok t p" and "held p = held (wq t)"
  shows "thread_inv pb (t\<lparr>srv := free_cancel i (srv t), wq := p, bt := b\<rparr>)"
proof -
  let ?t = "t\<lparr>srv := free_cancel i (srv t), wq := p, bt := b\<rparr>"
  note inv = thread_invD [OF assms(1)]
  have "slot_inv ((conns (srv t) ! i)\<lparr>pc_teardown_work := None\<rparr>)"
    using inv(3) [OF assms(2)] by (auto simp: slot_inv_def ring_inv_def)
  then have "gatt_inv (quiet (held (wq t)) (unfinished (bt t)) (free_cancel i (srv t)))"
    using gatt_inv_put [OF inv(1)] by (simp add: free_cancel_def)
  moreover have "leavers_asked ?t (free_cancel i (srv t))"
    using leavers_put [of t "srv t" "(conns (srv t) ! i)\<lparr>pc_teardown_work := None\<rparr>" i]
      leavers_nth [of t "srv t" i] assms(1,2) inv(2)
    by (simp add: thread_inv_def free_cancel_def leavers_asked_def)
  moreover have "wq_ok ?t p" using assms(5) by (cases p) simp_all
  ultimately show ?thesis
    using assms by (simp add: thread_inv_def free_cancel_def)
qed

lemma leave_step:
  assumes "thread_inv pb t" and "bt t = Bt_idle" and "find_slot conn (srv t) = Some i" and "conn \<noteq> None"
  shows "thread_inv pb (t\<lparr>srv := leave_locked i (srv t), bt := Bt_schedule i, asked := insert (conn, gen t conn) (asked t)\<rparr>)"
proof -
  let ?t = "t\<lparr>srv := leave_locked i (srv t), bt := Bt_schedule i, asked := insert (conn, gen t conn) (asked t)\<rparr>"
  note inv = thread_invD [OF assms(1)]
  have i: "i < MAX_BLE_CONNECTIONS" "pc_conn (conns (srv t) ! i) = conn"
    using find_slot_SomeD [OF assms(3)] inv(2) by simp_all
  have "slot_inv ((conns (srv t) ! i)\<lparr>pc_leaving := True\<rparr>)"
    using inv(3) [OF i(1)] i(2) assms(4) by (auto simp: slot_inv_def ring_inv_def)
  then have "gatt_inv (quiet (held (wq t)) (unfinished (bt t)) (leave_locked i (srv t)))"
    using gatt_inv_put [OF inv(1)] by (simp add: leave_locked_def)
  moreover have "leavers_asked ?t (leave_locked i (srv t))"
    unfolding leave_locked_def
    by (rule leavers_put) (use assms(1) i(2) in \<open>auto simp: thread_inv_def leavers_asked_def\<close>)
  moreover have "wq_ok ?t (wq t)" using assms(1) by (cases "wq t") (auto simp: thread_inv_def)
  moreover have "unfinished (Bt_schedule i) = unfinished (bt t)" by (simp add: unfinished_def assms(2))
  ultimately show ?thesis
    using assms(1) i(1) inv(2) by (auto simp: thread_inv_def leave_locked_def)
qed

lemma schedule_step:
  assumes "thread_inv pb t" and "bt t = Bt_schedule i"
  shows "thread_inv pb (t\<lparr>srv := leave_schedule i (srv t), bt := Bt_idle\<rparr>)"
proof -
  let ?t = "t\<lparr>srv := leave_schedule i (srv t), bt := Bt_idle\<rparr>"
  note inv = thread_invD [OF assms(1)]
  have i: "i < MAX_BLE_CONNECTIONS" "pc_leaving (conns (srv t) ! i)"
    using assms by (simp_all add: thread_inv_def)
  have "slot_inv ((conns (srv t) ! i)\<lparr>pc_teardown_work := Some TEARDOWN_DELAY_MS\<rparr>)"
    using inv(3) [OF i(1)] i(2) by (auto simp: slot_inv_def ring_inv_def)
  then have "gatt_inv (quiet (held (wq t)) (unfinished (bt t)) (leave_schedule i (srv t)))"
    using gatt_inv_put [OF inv(1)] by (simp add: leave_schedule_def)
  moreover have "leavers_asked ?t (leave_schedule i (srv t))"
    unfolding leave_schedule_def
    by (rule leavers_put)
      (use assms(1) leavers_nth [of t "srv t" i] i inv(2) in \<open>auto simp: thread_inv_def leavers_asked_def\<close>)
  moreover have "wq_ok ?t (wq t)" using assms(1) by (cases "wq t") (auto simp: thread_inv_def)
  moreover have "unfinished Bt_idle = unfinished (bt t)" by (simp add: unfinished_def assms(2))
  ultimately show ?thesis using assms(1) by (simp add: thread_inv_def leave_schedule_def)
qed

text \<open>The teardown handler: the reference it takes is the one in flight until it is given back.\<close>

lemma grab_step:
  assumes "thread_inv pb t" and "wq t = Wq_teardown i" and "teardown_grab i (srv t) = (conn, g)"
  shows "thread_inv pb (t\<lparr>srv := g, wq := (if conn = None then Wq_idle else Wq_disconnect conn)\<rparr>)"
proof (cases "conn = None")
  case True
  then have "g = srv t" using assms(3) by (auto simp: teardown_grab_def Let_def split: if_splits)
  with True op_nothing.op_step [OF assms(1), of Wq_idle] assms(2) show ?thesis by simp
next
  case False
  note inv = thread_invD [OF assms(1)]
  have i: "i < MAX_BLE_CONNECTIONS" using assms(1,2) by (simp add: thread_inv_def)
  have g: "g = bt_conn_ref conn (srv t)" "pc_conn (conns (srv t) ! i) = conn" "pc_leaving (conns (srv t) ! i)"
    using assms(3) False by (auto simp: teardown_grab_def Let_def split: if_splits)
  have "quiet (held (Wq_disconnect conn)) k g = quiet (held (wq t)) k (srv t)" for k
    by (simp add: quiet_def g(1) bt_conn_ref_def assms(2)) (auto simp: held_def fun_eq_iff)
  moreover have "(conn, gen t conn) \<in> asked t"
    using leavers_nth [of t "srv t" i] g(2,3) i inv(2) assms(1) by (simp add: thread_inv_def)
  moreover have "conns g = conns (srv t)" "active_conn_count g = active_conn_count (srv t)"
    by (simp_all add: g(1) bt_conn_ref_def)
  moreover have "bt_ok g b = bt_ok (srv t) b" for b using calculation(3) by (cases b) simp_all
  ultimately show ?thesis
    using assms(1) False by (cases conn) (simp_all add: thread_inv_def leavers_asked_def)
qed

lemma drop_step:
  assumes "thread_inv pb t" and "wq t = Wq_disconnect conn"
  shows "thread_inv pb (t\<lparr>srv := teardown_drop conn (srv t), wq := Wq_idle, dropped := dropped t @ [(conn, gen t conn)]\<rparr>)"
proof -
  let ?g = "teardown_drop conn (srv t)"
  have c: "conn \<noteq> None" "(conn, gen t conn) \<in> asked t" using assms by (simp_all add: thread_inv_def)
  have g: "?g = (srv t)\<lparr>disconnects := disconnects ?g, conn_refs := (conn_refs (srv t))(conn := conn_refs (srv t) conn - 1)\<rparr>"
    using c(1) by (cases conn) (simp_all add: teardown_drop_def bt_conn_unref_def bt_conn_disconnect_def)
  have "(\<lambda>d. ((conn_refs (srv t))(conn := conn_refs (srv t) conn - 1)) d - held Wq_idle d) =
      (\<lambda>d. conn_refs (srv t) d - held (wq t) d)"
    by (rule ext) (simp add: held_def assms(2))
  then have q: "quiet (held Wq_idle) (unfinished (bt t)) ?g =
      (quiet (held (wq t)) (unfinished (bt t)) (srv t))\<lparr>disconnects := disconnects ?g\<rparr>"
    by (subst g) (simp add: quiet_def del: quiet_simps held_simps)
  have "gatt_inv (quiet (held Wq_idle) (unfinished (bt t)) ?g)"
    unfolding q gatt_inv_frame by (rule thread_invD(1) [OF assms(1)])
  moreover have "conns ?g = conns (srv t)" "active_conn_count ?g = active_conn_count (srv t)"
    using c(1) by (simp_all add: teardown_drop_def bt_conn_unref_def bt_conn_disconnect_def)
  moreover have "bt_ok ?g b = bt_ok (srv t) b" for b using calculation(2) by (cases b) simp_all
  ultimately show ?thesis using assms(1) c(2) by (simp add: thread_inv_def leavers_asked_def)
qed

text \<open>A new connection gets an object nobody refers to, so no mark of an old one applies to it.\<close>

lemma connect_quiet: "on_connected adv conn err (quiet h 0 g) = quiet h 0 (on_connected adv conn err g)"
  by (auto simp: on_connected_def alloc_slot_def bt_conn_disconnect_def bt_conn_ref_def put_slot_def Let_def quiet_def
      fun_eq_iff split: option.split)

lemma connect_slots:
  assumes "pc \<in> set (conns (on_connected adv conn err g))" and "pc_leaving pc"
  shows "pc \<in> set (conns g)"
proof (cases "err = 0")
  case True
  show ?thesis
  proof (cases "slot_index (\<lambda>pc. pc_conn pc = None) (conns g)")
    case None
    with True assms(1) show ?thesis by (simp add: on_connected_def alloc_slot_def bt_conn_disconnect_def)
  next
    case (Some i)
    let ?pc = "(conns g ! i)\<lparr>pc_conn := conn, pc_proxy_id := zero_id, pc_fromnum := 0, pc_head := 0,
       pc_tail := 0, pc_count := 0, pc_staged_len := 0, pc_state := PHONE_CONNECTED,
       pc_leaving := False, pc_nonce := 0, pc_replay_cursor := 0\<rparr>"
    have "conns (on_connected adv conn err g) = (conns g)[i := ?pc]"
      using True Some by (simp add: on_connected_def alloc_slot_def bt_conn_ref_def put_slot_def Let_def)
    with assms set_update_subset_insert [of "conns g" i ?pc] show ?thesis by auto
  qed
qed (use assms(1) in \<open>simp add: on_connected_def\<close>)

lemma connect_step:
  assumes "thread_inv pb t" and "bt t = Bt_idle" and "conn \<noteq> None" and "conn_refs (srv t) conn = 0"
  shows "thread_inv pb (t\<lparr>srv := on_connected adv conn err (srv t), gen := (gen t)(conn := gen t conn + 1)\<rparr>)"
proof -
  let ?g = "on_connected adv conn err (srv t)"
  let ?t = "t\<lparr>srv := ?g, gen := (gen t)(conn := gen t conn + 1)\<rparr>"
  note inv = thread_invD [OF assms(1)]
  have k: "unfinished (bt t) = 0" by (simp add: assms(2) unfinished_def)
  have new: "conn \<notin> set (tracked_conns (srv t))" "wq t \<noteq> Wq_disconnect conn"
    using inv(4) [of conn] assms(4) by (auto simp: held_def split: if_splits)
  have "gatt_inv (quiet (held (wq t)) 0 ?g)"
    using on_connected_inv [OF inv(1) assms(3), of adv err] new(1) by (simp add: k connect_quiet)
  moreover have "leavers_asked ?t ?g"
    unfolding leavers_asked_def
  proof (intro ballI impI)
    fix pc
    assume "pc \<in> set (conns ?g)" "pc_leaving pc"
    then have pc: "pc \<in> set (conns (srv t))" by (rule connect_slots)
    have "slot_inv pc" using inv(1) pc by (simp add: gatt_inv_def)
    then have "pc_conn pc \<in> set (tracked_conns (srv t))"
      using pc \<open>pc_leaving pc\<close> by (auto simp: tracked_conns_def slot_inv_def)
    with new(1) have "pc_conn pc \<noteq> conn" by metis
    with pc \<open>pc_leaving pc\<close> assms(1) show "(pc_conn pc, gen ?t (pc_conn pc)) \<in> asked ?t"
      by (simp add: thread_inv_def leavers_asked_def)
  qed
  moreover have "wq_ok ?t (wq t)" using assms(1) new(2) by (cases "wq t") (auto simp: thread_inv_def)
  ultimately show ?thesis using assms(1) by (simp add: thread_inv_def assms(2) unfinished_def)
qed

text \<open>The reset of a slot and the end of a disconnection.\<close>

lemma reset_step:
  assumes "thread_inv pb t" and "bt t = Bt_reset i"
  shows "thread_inv pb (t\<lparr>srv := free_locked i (srv t), bt := Bt_finish\<rparr>)"
proof -
  let ?h = "held (wq t)" and ?g = "free_locked i (srv t)"
  let ?t = "t\<lparr>srv := ?g, bt := Bt_finish\<rparr>"
  note inv = thread_invD [OF assms(1)]
  define conn where "conn = pc_conn (conns (srv t) ! i)"
  have i: "i < MAX_BLE_CONNECTIONS" "conn \<noteq> None" "pc_teardown_work (conns (srv t) ! i) = None"
    using assms by (auto simp: thread_inv_def conn_def)
  have k: "unfinished (bt t) = 0" by (simp add: assms(2) unfinished_def)
  have q: "gatt_inv (quiet ?h 0 (srv t))" using inv(1) k by simp
  have f: "find_slot conn (quiet ?h 0 (srv t)) = Some i"
    using find_slot_own [OF q i(1)] i(2) by (simp add: conn_def)
  have pc: "(conns (srv t) ! i)\<lparr>pc_teardown_work := None\<rparr> = conns (srv t) ! i" using i(3) by simp
  have same: "free_slot i (quiet ?h 0 (srv t)) = quiet ?h 0 ?g"
    using i(2) pc
    by (simp add: free_slot_def free_locked_def Let_def conn_def [symmetric] bt_conn_unref_def put_slot_def)
      (auto simp: quiet_def fun_eq_iff)
  have c: "active_conn_count ?g = active_conn_count (srv t)" "conns ?g = (conns (srv t))[i := conns ?g ! i]"
    "\<not> pc_leaving (conns ?g ! i)"
    using i(1) inv(2) by (simp_all add: free_locked_def Let_def split_beta bt_conn_unref_def put_slot_def)
  have "quiet ?h 1 ?g = (quiet ?h 0 ?g)\<lparr>active_conn_count := active_conn_count (quiet ?h 0 (srv t)) - 1\<rparr>"
    by (simp add: quiet_def c(1))
  then have "gatt_inv (quiet ?h 1 ?g)"
    using free_slot_correct(3) [OF q i(2) f refl] unfolding same by (simp del: quiet_simps)
  moreover have "1 \<le> active_conn_count ?g"
  proof -
    have "conn \<in> set (tracked_conns (srv t))"
      using i(1,2) inv(2) nth_mem [of i "conns (srv t)"] by (auto simp: tracked_conns_def conn_def)
    then have "0 < length (tracked_conns (srv t))" by (rule length_pos_if_in_set)
    then show ?thesis using inv(5) c(1) by linarith
  qed
  moreover have "leavers_asked ?t ?g"
  proof -
    have "set (conns ?g) \<subseteq> insert (conns ?g ! i) (set (conns (srv t)))"
      by (subst c(2)) (rule set_update_subset_insert)
    then show ?thesis using assms(1) c(3) by (auto simp: thread_inv_def leavers_asked_def)
  qed
  moreover have "wq_ok ?t (wq t)" using assms(1) by (cases "wq t") (auto simp: thread_inv_def)
  ultimately show ?thesis using assms(1) by (simp add: thread_inv_def unfinished_def)
qed

lemma finish_step:
  assumes "thread_inv pb t" and "bt t = Bt_finish"
  shows "thread_inv pb (t\<lparr>srv := snd (ble_gatt_start_advertising adv
      ((srv t)\<lparr>active_conn_count := active_conn_count (srv t) - 1\<rparr>)), bt := Bt_idle\<rparr>)"
proof -
  let ?g = "snd (ble_gatt_start_advertising adv ((srv t)\<lparr>active_conn_count := active_conn_count (srv t) - 1\<rparr>))"
  let ?t = "t\<lparr>srv := ?g, bt := Bt_idle\<rparr>"
  have "quiet (held (wq t)) 0 ?g = (quiet (held (wq t)) 1 (srv t))\<lparr>adv_starts := adv_starts (srv t) + 1\<rparr>"
    by (simp add: quiet_def)
  then have "gatt_inv (quiet (held (wq t)) 0 ?g)"
    using thread_invD(1) [OF assms(1)] by (simp add: assms(2) unfinished_def del: quiet_simps)
  moreover have "wq_ok ?t (wq t)" using assms(1) by (cases "wq t") (auto simp: thread_inv_def)
  ultimately show ?thesis using assms(1) by (simp add: thread_inv_def unfinished_def leavers_asked_def)
qed

lemma wq_step_inv:
  assumes "thread_inv pb t" and "wq_step pb t t'"
  shows "thread_inv pb t'"
  using assms(2)
proof cases
  case (wq_route pid conn data)
  then show ?thesis using op_nothing.op_step [OF assms(1), of "Wq_call conn data Wq_return"] by simp
next
  case (wq_broadcast data)
  then show ?thesis using op_nothing.op_step [OF assms(1), of "Wq_broadcast data 0"] by simp
next
  case (wq_slot data k)
  then show ?thesis
    using op_nothing.op_step [OF assms(1), of "wq t'"] by (auto split: option.splits)
next
  case (wq_end data k)
  then show ?thesis using op_nothing.op_step [OF assms(1), of Wq_idle] by simp
next
  case (wq_call conn data ret)
  have "wq_ok t (wq t')"
    using wq_call thread_invD(2) [OF assms(1)] find_slot_SomeD(1) [of conn "srv t"]
    by (auto simp: enqueue_lookup_def split: option.splits if_splits)
  moreover have "held (wq t') = held (wq t)" using wq_call by (simp split: sum.split)
  ultimately show ?thesis using op_nothing.op_step [OF assms(1), of "wq t'"] wq_call by simp
next
  case (wq_lock conn data i ret r n g)
  have ok: "i < MAX_BLE_CONNECTIONS" "length data \<le> FROMRADIO_MAX_PKT_SIZE"
    using assms(1) wq_lock by (simp_all add: thread_inv_def)
  have "held (wq t') = held (wq t)" "wq_ok t (wq t')" using wq_lock by (simp_all split: option.split)
  moreover have "g = snd (enqueue_locked data i (srv t))" using wq_lock by simp
  ultimately show ?thesis
    using slot_operation.op_step [OF op_locked [OF ok(2,1)] assms(1), of "wq t'"] wq_lock(1) by simp
next
  case (wq_notify conn v ret)
  then show ?thesis using op_notify.op_step [OF assms(1), of "wq_resume ret"] by simp
next
  case (wq_serve conn r g)
  have b: "pb_bounded pb" using assms(1) by (simp add: thread_inv_def)
  have "i < MAX_BLE_CONNECTIONS \<and> n \<le> 16" if "r = Some (i, n)" for i n
    using replay_prepare_bounds [OF b _ wq_serve(4) [unfolded that]] thread_invD(2,3) [OF assms(1)] by simp
  then have "wq_ok t (wq t')" using wq_serve(1) by (auto split: option.split)
  moreover have "held (wq t') = held (wq t)" "g = snd (replay_prepare pb conn 0 (srv t))"
    using wq_serve by (simp_all split: option.split)
  ultimately show ?thesis
    using slot_operation.op_step [OF op_prepare [OF b] assms(1), of "wq t'"] wq_serve(1) by simp
next
  case (wq_arm conn i n v g)
  have ok: "i < MAX_BLE_CONNECTIONS" "n \<le> 16" using assms(1) wq_arm by (simp_all add: thread_inv_def)
  have "g = snd (replay_locked i n (srv t))" using wq_arm by simp
  then show ?thesis
    using slot_operation.op_step [OF op_arm [OF ok] assms(1), of "Wq_notify conn v Wq_return"] wq_arm(1,2) by simp
next
  case (wq_teardown i)
  have "bt_ok (free_cancel i (srv t)) (bt t)"
    using assms(1) thread_invD(2) [OF assms(1)] wq_teardown(3)
    by (cases "bt t") (auto simp: thread_inv_def free_cancel_def put_slot_def nth_list_update)
  with wq_teardown cancel_step [OF assms(1) wq_teardown(3), of "bt t" "Wq_teardown i"] show ?thesis by simp
next
  case (wq_grab i conn g)
  then show ?thesis using grab_step [OF assms(1)] by simp
next
  case (wq_drop conn)
  then show ?thesis using drop_step [OF assms(1)] by simp
qed

lemma bt_step_inv:
  assumes "thread_inv pb t" and "bt_step pb t t'"
  shows "thread_inv pb t'"
proof -
  have b: "pb_bounded pb" using assms(1) by (simp add: thread_inv_def)
  from assms(2) show ?thesis
  proof cases
    case (bt_connect conn adv err)
    then show ?thesis using connect_step [OF assms(1)] by simp
  next
    case (bt_lost conn i)
    note f = find_slot_SomeD [OF bt_lost(4)]
    have i: "i < MAX_BLE_CONNECTIONS" using f(1) thread_invD(2) [OF assms(1)] by simp
    have "bt_ok (free_cancel i (srv t)) (Bt_reset i)"
      using i f bt_lost(3) by (simp add: free_cancel_def)
    with cancel_step [OF assms(1) i, of "Bt_reset i" "wq t"] bt_lost(1,2) assms(1) show ?thesis
      by (simp add: unfinished_def thread_inv_def)
  next
    case (bt_unknown conn adv)
    have "slot_operation (\<lambda>g. snd (ble_gatt_start_advertising adv g))" by unfold_locales simp_all
    from slot_operation.op_alone [OF this assms(1)] bt_unknown show ?thesis by simp
  next
    case (bt_reset i)
    then show ?thesis using reset_step [OF assms(1)] by simp
  next
    case (bt_finish adv)
    then show ?thesis using finish_step [OF assms(1)] by simp
  next
    case (bt_fromnum conn rd len off)
    then show ?thesis using op_fromnum.op_alone [OF assms(1)] by simp
  next
    case (bt_fromradio conn c rd len off)
    then show ?thesis using slot_operation.op_alone [OF op_fromradio assms(1)] by simp
  next
    case (bt_node_reg conn buf off)
    then show ?thesis using op_node_reg.op_alone [OF assms(1)] by simp
  next
    case (bt_replay conn nonce r g)
    have "i < MAX_BLE_CONNECTIONS \<and> n \<le> 16" if "r = Some (i, n)" for i n
      using replay_prepare_bounds [OF b _ bt_replay(4) [unfolded that]] thread_invD(2,3) [OF assms(1)] by simp
    then have "bt_ok g (bt t')" using bt_replay(1) by (auto split: option.split)
    moreover have "unfinished (bt t') = unfinished (bt t)" "g = snd (replay_prepare pb conn nonce (srv t))"
      using bt_replay by (simp_all add: unfinished_def split: option.split)
    ultimately show ?thesis
      using slot_operation.op_bt_step [OF op_prepare [OF b] assms(1), of "bt t'"] bt_replay(1) by simp
  next
    case (bt_arm conn i n v g)
    have ok: "i < MAX_BLE_CONNECTIONS" "n \<le> 16" using assms(1) bt_arm by (simp_all add: thread_inv_def)
    have "g = snd (replay_locked i n (srv t))" using bt_arm by simp
    then show ?thesis
      using slot_operation.op_bt_step [OF op_arm [OF ok] assms(1), of "Bt_notify conn v"] bt_arm(1,2)
      by (simp add: unfinished_def)
  next
    case (bt_park conn nonce)
    then show ?thesis using op_park.op_alone [OF assms(1)] by simp
  next
    case (bt_queuestatus conn r g)
    have "unfinished (bt t') = unfinished (bt t)" "bt_ok g (bt t')" "g = snd (queuestatus_prepare pb (srv t))"
      using bt_queuestatus by (simp_all add: unfinished_def)
    then show ?thesis
      using slot_operation.op_bt_step [OF op_queuestatus [OF b] assms(1), of "bt t'"] bt_queuestatus(1) by simp
  next
    case (bt_call conn data)
    have "bt_ok (srv t) (bt t')"
      using bt_call thread_invD(2) [OF assms(1)] find_slot_SomeD(1) [of conn "srv t"]
      by (auto simp: enqueue_lookup_def split: option.splits if_splits)
    moreover have "unfinished (bt t') = unfinished (bt t)" using bt_call by (simp add: unfinished_def split: sum.split)
    ultimately show ?thesis using op_nothing.op_bt_step [OF assms(1), of "bt t'"] bt_call(1) by simp
  next
    case (bt_lock conn data i r n g)
    have ok: "i < MAX_BLE_CONNECTIONS" "length data \<le> FROMRADIO_MAX_PKT_SIZE"
      using assms(1) bt_lock by (simp_all add: thread_inv_def)
    have "unfinished (bt t') = unfinished (bt t)" "bt_ok g (bt t')" "g = snd (enqueue_locked data i (srv t))"
      using bt_lock by (simp_all add: unfinished_def split: option.split)
    then show ?thesis
      using slot_operation.op_bt_step [OF op_locked [OF ok(2,1)] assms(1), of "bt t'"] bt_lock(1) by simp
  next
    case (bt_notify conn v)
    then show ?thesis using op_notify.op_bt_step [OF assms(1), of Bt_idle] by (simp add: unfinished_def)
  next
    case (bt_leave conn i)
    then show ?thesis using leave_step [OF assms(1)] by simp
  next
    case (bt_schedule i)
    then show ?thesis using schedule_step [OF assms(1)] by simp
  qed
qed

interpretation interleaving: safe_system "thread_start pb" "thread_step pb" "thread_inv pb"
proof
  show "thread_inv pb t" if "thread_start pb t" for t
  proof -
    have "gatt_inv (quiet (\<lambda>_. 0) 0 gatt_static)" using gatt_static_inv by (simp add: quiet_def)
    moreover have "leavers_asked t gatt_static"
      by (simp add: leavers_asked_def gatt_static_def slot_static_def)
    ultimately show ?thesis using that by (simp add: thread_start_def thread_inv_def unfinished_def)
  qed
  show "thread_inv pb t'" if "thread_inv pb t" "thread_step pb t e t'" for t e t'
    using that(2) wq_step_inv [OF that(1), of t'] bt_step_inv [OF that(1), of t'] by (cases e) simp_all
qed

section \<open>What holds under any interleaving\<close>

text \<open>
  C6: memory safety of the slot table under concurrency: whatever the interleaving of the Bluetooth
  thread and the work queue, every ring, staging buffer and closing frame stays in bounds, a
  connection is in at most one slot, the references held on connection objects are those of the
  slots plus the one a teardown handler has in hand, and the count of connections is that of the
  slots in use plus the disconnection being finished.
\<close>

theorem threads_safe:
  assumes "reachable (thread_start pb) (thread_step pb) t"
  shows "length (conns (srv t)) = 6 \<and>
    (\<forall>pc \<in> set (conns (srv t)). length (pkts pc) \<le> 16 \<and> (\<forall>p \<in> set (pkts pc). length p \<le> 512) \<and>
      pc_staged_len pc \<le> 512 \<and> pc_cc_len pc \<le> 16 \<and> pc_replay_cursor pc \<le> 129) \<and>
    distinct (tracked_conns (srv t)) \<and>
    (\<forall>c. conn_refs (srv t) c = (if c \<in> set (tracked_conns (srv t)) then 1 else 0) + (if wq t = Wq_disconnect c then 1 else 0)) \<and>
    active_conn_count (srv t) = length (tracked_conns (srv t)) + (if bt t = Bt_finish then 1 else 0)"
proof -
  have inv: "thread_inv pb t" by (rule interleaving.reachable_inv [OF assms])
  note i = thread_invD [OF inv]
  have "length (pkts pc) \<le> 16 \<and> (\<forall>p \<in> set (pkts pc). length p \<le> 512) \<and>
      pc_staged_len pc \<le> 512 \<and> pc_cc_len pc \<le> 16 \<and> pc_replay_cursor pc \<le> 129" if "pc \<in> set (conns (srv t))" for pc
    using that i(1) pkts_small [of pc] by (auto simp: gatt_inv_def slot_inv_def ring_inv_def layout_consts)
  moreover have "distinct (tracked_conns (srv t))" using i(1) by (simp add: gatt_inv_def)
  ultimately show ?thesis using i(2,4,5) by (simp add: held_def unfinished_def layout_consts)
qed

text \<open>
  C7: the teardown never hits a phone that did not ask for it: whatever the interleaving, every
  connection the teardown handler has dropped, and the one it is about to drop, is a connection
  that itself asked to be torn down, even if the connection object carried other connections before
  or since, and even if its slot now belongs to another phone.
\<close>

theorem teardown_drops_only_leavers:
  assumes "reachable (thread_start pb) (thread_step pb) t"
  shows "set (dropped t) \<subseteq> asked t \<and> (\<forall>c. wq t = Wq_disconnect c \<longrightarrow> (c, gen t c) \<in> asked t)"
  using interleaving.reachable_inv [OF assms] by (auto simp: thread_inv_def)

text \<open>
  C24: an enqueue on the work queue takes effect at its critical section: if the slot found by the
  lookup still belongs to the phone when the lock is taken, then whatever the Bluetooth thread did in
  between, the critical section and the doorbell do exactly what the uninterrupted operation would do
  at that moment.
\<close>

theorem enqueue_takes_effect_at_lock:
  assumes "reachable (thread_start pb) (thread_step pb) t" and "wq t = Wq_enqueue conn data i ret" and "conn \<noteq> None"
    and "pc_conn (conns (srv t) ! i) = conn" and "thread_step pb t WQ t'"
  shows "(wq t' = wq_resume ret \<and> srv t' = snd (ble_gatt_enqueue_fromradio conn data (srv t))) \<or>
    (\<exists>v. wq t' = Wq_notify conn v ret \<and> notify_fromnum conn v (srv t') = snd (ble_gatt_enqueue_fromradio conn data (srv t)))"
proof -
  have inv: "thread_inv pb t" by (rule interleaving.reachable_inv [OF assms(1)])
  have ok: "i < MAX_BLE_CONNECTIONS" "length data \<le> FROMRADIO_MAX_PKT_SIZE"
    using inv assms(2) by (simp_all add: thread_inv_def)
  have "find_slot conn (srv t) = Some i"
    using find_slot_own [OF thread_invD(1) [OF inv] ok(1)] assms(3,4) by simp
  then have l: "enqueue_lookup conn data (srv t) = Inr i" using ok(2) by (simp add: enqueue_lookup_def)
  obtain r n g where e: "enqueue_locked data i (srv t) = ((r, n), g)" by (metis prod.exhaust)
  have t': "t' = t\<lparr>srv := g, wq := (case n of None \<Rightarrow> wq_resume ret | Some v \<Rightarrow> Wq_notify conn v ret)\<rparr>"
    using assms(2,5) e by (auto elim: wq_step.cases)
  show ?thesis by (cases n) (simp_all add: t' enqueue_split l e)
qed

text \<open>
  C26: the enqueue does not check, once it has the lock, that the slot is still the phone's: if
  between the lookup and the lock the phone disconnects and the slot is given to another one, the
  packet, even one routed to the first phone alone, is queued for the newcomer.
\<close>

theorem stale_enqueue_reaches_newcomer:
  assumes "reachable (thread_start pb) (thread_step pb) t" and "wq t = Wq_enqueue conn data i ret"
    and "pc_conn (conns (srv t) ! i) = Some other" and "Some other \<noteq> conn" and "\<not> pc_leaving (conns (srv t) ! i)"
    and "length (pkts (conns (srv t) ! i)) < 16" and "thread_step pb t WQ t'"
  shows "pc_conn (conns (srv t') ! i) = Some other \<and> pkts (conns (srv t') ! i) = pkts (conns (srv t) ! i) @ [data]"
proof -
  have inv: "thread_inv pb t" by (rule interleaving.reachable_inv [OF assms(1)])
  have ok: "i < MAX_BLE_CONNECTIONS" "length data \<le> FROMRADIO_MAX_PKT_SIZE"
    using inv assms(2) by (simp_all add: thread_inv_def)
  have "slot_inv (conns (srv t) ! i)" by (rule thread_invD(3) [OF inv ok(1)])
  then have p: "pkts (snd (phone_offer data (conns (srv t) ! i))) = pkts (conns (srv t) ! i) @ [data]"
    using phone_ring.contents_add [of "conns (srv t) ! i" data] assms(5,6) ok(2)
    by (simp add: slot_inv_def pkt_fits_def layout_consts)
  have "srv t' = snd (enqueue_locked data i (srv t))"
    using assms(2,7) by (auto elim: wq_step.cases)
  then show ?thesis
    using p assms(3) ok(1) thread_invD(2) [OF inv] by (simp add: enqueue_locked_offer [OF ok(2)])
qed

section \<open>A run in which the slot changes hands\<close>

definition threads_zero :: threads where
  "threads_zero = \<lparr>srv = gatt_static, wq = Wq_idle, bt = Bt_idle, gen = (\<lambda>_. 0), asked = {}, dropped = []\<rparr>"

text \<open>
  Phone 7 connects and registers; a frame for it is looked up; it disconnects and phone 8 takes
  the slot; the frame reaches the critical section.
\<close>

definition race_connected :: threads where
  "race_connected = threads_zero\<lparr>srv := on_connected OK (Some 7) 0 gatt_static, gen := (\<lambda>_. 0)(Some 7 := 1)\<rparr>"

definition race_registered :: threads where
  "race_registered = race_connected\<lparr>srv := snd (node_reg_write (Some 7) [1, 2, 3, 4] 0 (srv race_connected))\<rparr>"

definition race_found :: threads where
  "race_found = race_registered\<lparr>wq := Wq_enqueue (Some 7) [42] 0 Wq_return\<rparr>"

definition race_freed :: threads where
  "race_freed = race_found\<lparr>srv := (free_locked 0 (free_cancel 0 (srv race_found)))
     \<lparr>active_conn_count := 0, adv_starts := adv_starts (srv race_found) + 1\<rparr>\<rparr>"

definition race_recycled :: threads where
  "race_recycled = race_freed\<lparr>srv := on_connected OK (Some 8) 0 (srv race_freed), gen := (gen race_freed)(Some 8 := gen race_freed (Some 8) + 1)\<rparr>"

lemma race_slots:
  "conns (srv race_connected) = slot_static\<lparr>pc_conn := Some 7\<rparr> # replicate 5 slot_static"
  "conns (srv race_registered) =
     slot_static\<lparr>pc_conn := Some 7, pc_proxy_id := \<lparr>id_bytes = [1, 2, 3, 4]\<rparr>\<rparr> # replicate 5 slot_static"
  "conns (srv race_freed) = replicate 6 slot_static"
  "conns (srv race_recycled) = slot_static\<lparr>pc_conn := Some 8\<rparr> # replicate 5 slot_static"
proof -
  show c: "conns (srv race_connected) = slot_static\<lparr>pc_conn := Some 7\<rparr> # replicate 5 slot_static"
    by (simp add: race_connected_def on_connected_def alloc_slot_def static_conns put_slot_def bt_conn_ref_def Let_def
        slot_static_def numeral_eq_Suc)
  show r: "conns (srv race_registered) =
     slot_static\<lparr>pc_conn := Some 7, pc_proxy_id := \<lparr>id_bytes = [1, 2, 3, 4]\<rparr>\<rparr> # replicate 5 slot_static"
    by (simp add: race_registered_def node_reg_write_def ble_gatt_register_proxy_id_def find_slot_def c put_slot_def
        PROXY_ID_SIZE_def Let_def)
  show f: "conns (srv race_freed) = replicate 6 slot_static"
    by (simp add: race_freed_def race_found_def free_locked_def free_cancel_def r put_slot_def bt_conn_unref_def Let_def
        slot_static_def numeral_eq_Suc)
  show "conns (srv race_recycled) = slot_static\<lparr>pc_conn := Some 8\<rparr> # replicate 5 slot_static"
    by (simp add: race_recycled_def on_connected_def alloc_slot_def f put_slot_def bt_conn_ref_def Let_def
        slot_static_def numeral_eq_Suc)
qed

lemma race_counts:
  "conn_refs (srv race_registered) = (\<lambda>_. 0)(Some 7 := 1)" "active_conn_count (srv race_registered) = 1"
  "conn_refs (srv race_freed) (Some 8) = 0"
proof -
  have z: "conn_refs gatt_static = (\<lambda>_. 0)" "active_conn_count gatt_static = 0" by (simp_all add: gatt_static_def)
  have "conn_refs (srv race_connected) = (\<lambda>_. 0)(Some 7 := 1)" "active_conn_count (srv race_connected) = 1"
    by (simp_all add: race_connected_def on_connected_def alloc_slot_def static_conns put_slot_def bt_conn_ref_def Let_def z)
  then show r: "conn_refs (srv race_registered) = (\<lambda>_. 0)(Some 7 := 1)"
    and c: "active_conn_count (srv race_registered) = 1"
    by (simp_all add: race_registered_def node_reg_write_def ble_gatt_register_proxy_id_def find_slot_def race_slots
        put_slot_def PROXY_ID_SIZE_def Let_def)
  show "conn_refs (srv race_freed) (Some 8) = 0"
    by (simp add: race_freed_def race_found_def free_locked_def free_cancel_def race_slots put_slot_def bt_conn_unref_def
        Let_def r)
qed

lemma race_registered_reachable: "reachable (thread_start sample_pb) (thread_step sample_pb) race_registered"
proof -
  have "thread_step sample_pb threads_zero BT race_connected"
    using bt_connect [of threads_zero "Some 7" sample_pb OK 0]
    by (simp add: threads_zero_def race_connected_def gatt_static_def)
  moreover have "thread_step sample_pb race_connected BT race_registered"
    using bt_node_reg [of race_connected "Some 7" sample_pb "[1, 2, 3, 4]" 0]
    by (simp add: race_registered_def race_connected_def threads_zero_def)
  moreover have "thread_start sample_pb threads_zero"
    by (simp add: thread_start_def threads_zero_def sample_pb_bounded)
  ultimately show ?thesis by (meson reach_start reach_step)
qed

lemma race_idle: "wq race_registered = Wq_idle" "bt race_registered = Bt_idle" "gen race_registered (Some 7) = 1"
  by (simp_all add: race_registered_def race_connected_def threads_zero_def)

lemma race_found_reachable: "reachable (thread_start sample_pb) (thread_step sample_pb) race_found"
proof -
  let ?t = "race_registered\<lparr>wq := Wq_call (Some 7) [42] Wq_return\<rparr>"
  have z: "\<not> proxy_id_is_zero \<lparr>id_bytes = [1, 2, 3, 4]\<rparr>"
    by (simp add: proxy_id_is_zero_iff wf_id_def PROXY_ID_SIZE_def numeral_eq_Suc)
  then have "ble_gatt_get_conn_by_proxy_id \<lparr>id_bytes = [1, 2, 3, 4]\<rparr> (srv race_registered) = Some 7"
    by (simp add: ble_gatt_get_conn_by_proxy_id_def race_slots proxy_id_equal_def PROXY_ID_SIZE_def)
  then have s1: "thread_step sample_pb race_registered WQ ?t"
    using wq_route [OF race_idle(1), where pb = sample_pb] by simp
  have "enqueue_lookup (Some 7) [42] (srv race_registered) = Inr 0"
    by (simp add: enqueue_lookup_def find_slot_def race_slots layout_consts)
  then have s2: "thread_step sample_pb ?t WQ race_found"
    using wq_call [of ?t "Some 7" "[42]" Wq_return sample_pb] by (simp add: race_found_def)
  show ?thesis by (rule reach_step [OF reach_step [OF race_registered_reachable s1] s2])
qed

lemma race_recycled_reachable: "reachable (thread_start sample_pb) (thread_step sample_pb) race_recycled"
proof -
  let ?a = "race_found\<lparr>srv := free_cancel 0 (srv race_found), bt := Bt_reset 0\<rparr>"
  let ?b = "?a\<lparr>srv := free_locked 0 (srv ?a), bt := Bt_finish\<rparr>"
  have i: "bt race_found = Bt_idle" "find_slot (Some 7) (srv race_found) = Some 0"
    using race_idle by (simp_all add: race_found_def find_slot_def race_slots)
  have s1: "thread_step sample_pb race_found BT ?a"
    using bt_lost [OF i(1), of "Some 7" 0 sample_pb] i(2) by simp
  have s2: "thread_step sample_pb ?a BT ?b" using bt_reset [of ?a 0 sample_pb] by simp
  have c: "active_conn_count (srv ?b) = 1"
    by (simp add: free_locked_def free_cancel_def put_slot_def bt_conn_unref_def Let_def split_beta race_found_def race_counts)
  have "race_freed = ?b\<lparr>srv := (srv ?b)\<lparr>active_conn_count := 0, adv_starts := adv_starts (srv race_found) + 1\<rparr>, bt := Bt_idle\<rparr>"
    using i(1) by (simp add: race_freed_def)
  moreover have "adv_starts (srv ?b) = adv_starts (srv race_found)"
    by (simp add: free_locked_def free_cancel_def put_slot_def bt_conn_unref_def Let_def split_beta)
  ultimately have s3: "thread_step sample_pb ?b BT race_freed"
    using bt_finish [of ?b sample_pb OK] c by simp
  have "bt race_freed = Bt_idle" using i(1) by (simp add: race_freed_def)
  then have s4: "thread_step sample_pb race_freed BT race_recycled"
    using bt_connect [of race_freed "Some 8" sample_pb OK 0] race_counts(3) by (simp add: race_recycled_def)
  show ?thesis by (rule reach_step [OF reach_step [OF reach_step [OF reach_step [OF race_found_reachable s1] s2] s3] s4])
qed

theorem threads_safe_witness:
  "active_conn_count (srv race_recycled) = length (tracked_conns (srv race_recycled)) + (if bt race_recycled = Bt_finish then 1 else 0)"
  using threads_safe [OF race_recycled_reachable] by blast

theorem enqueue_takes_effect_at_lock_witness:
  "\<exists>t' v. thread_step sample_pb race_found WQ t' \<and> wq t' = Wq_notify (Some 7) v Wq_return \<and>
     notify_fromnum (Some 7) v (srv t') = snd (ble_gatt_enqueue_fromradio (Some 7) [42] (srv race_found))"
proof -
  obtain r n g where e: "enqueue_locked [42] 0 (srv race_found) = ((r, n), g)" by (metis prod.exhaust)
  have w: "wq race_found = Wq_enqueue (Some 7) [42] 0 Wq_return" by (simp add: race_found_def)
  from wq_lock [OF w e, of sample_pb] obtain t' where s: "thread_step sample_pb race_found WQ t'"
    and t': "wq t' = (case n of None \<Rightarrow> Wq_idle | Some v \<Rightarrow> Wq_notify (Some 7) v Wq_return)"
    by (metis thread_step.simps(1) threads.select_convs(2) threads.surjective threads.update_convs(1,2) wq_resume.simps(1))
  have "n \<noteq> None" using e by (auto simp: enqueue_locked_def race_found_def race_slots Let_def slot_static_def layout_consts)
  with t' have "wq t' \<noteq> Wq_idle" by auto
  moreover have "pc_conn (conns (srv race_found) ! 0) = Some 7" by (simp add: race_found_def race_slots)
  ultimately show ?thesis
    using enqueue_takes_effect_at_lock [OF race_found_reachable w _ _ s] s by auto
qed

theorem stale_enqueue_reaches_newcomer_witness:
  "\<exists>t'. thread_step sample_pb race_recycled WQ t' \<and> pc_conn (conns (srv t') ! 0) = Some 8 \<and>
     pkts (conns (srv t') ! 0) = [[42]]"
proof -
  obtain r n g where e: "enqueue_locked [42] 0 (srv race_recycled) = ((r, n), g)" by (metis prod.exhaust)
  have w: "wq race_recycled = Wq_enqueue (Some 7) [42] 0 Wq_return"
    by (simp add: race_recycled_def race_freed_def race_found_def)
  have s: "\<exists>t'. thread_step sample_pb race_recycled WQ t'"
    unfolding thread_step.simps by (rule exI, rule wq_lock [OF w e])
  then obtain t' where s: "thread_step sample_pb race_recycled WQ t'" ..
  have "conns (srv race_recycled) ! 0 = slot_static\<lparr>pc_conn := Some 8\<rparr>" by (simp add: race_slots)
  then have "pc_conn (conns (srv race_recycled) ! 0) = Some 8" "\<not> pc_leaving (conns (srv race_recycled) ! 0)"
    "pkts (conns (srv race_recycled) ! 0) = []" by (simp_all add: pkts_def)
  with stale_enqueue_reaches_newcomer [OF race_recycled_reachable w _ _ _ _ s, of 8]
  have "pc_conn (conns (srv t') ! 0) = Some 8 \<and> pkts (conns (srv t') ! 0) = [[42]]" by simp
  with s show ?thesis by blast
qed

text \<open>Phone 7 leaves, and the handler has taken its reference.\<close>

definition race_leaving :: threads where
  "race_leaving = race_registered\<lparr>wq := Wq_disconnect (Some 7), asked := {(Some 7, 1)},
     srv := snd (teardown_grab 0 (free_cancel 0 (leave_schedule 0 (leave_locked 0 (srv race_registered)))))\<rparr>"

lemma race_leaving_reachable: "reachable (thread_start sample_pb) (thread_step sample_pb) race_leaving"
proof -
  let ?a = "race_registered\<lparr>srv := leave_locked 0 (srv race_registered), bt := Bt_schedule 0, asked := {(Some 7, 1)}\<rparr>"
  let ?b = "?a\<lparr>srv := leave_schedule 0 (srv ?a), bt := Bt_idle\<rparr>"
  let ?c = "?b\<lparr>srv := free_cancel 0 (srv ?b), wq := Wq_teardown 0\<rparr>"
  have a: "asked race_registered = {}" by (simp add: race_registered_def race_connected_def threads_zero_def)
  have f: "find_slot (Some 7) (srv race_registered) = Some 0" by (simp add: find_slot_def race_slots)
  have s1: "thread_step sample_pb race_registered BT ?a"
    using bt_leave [OF race_idle(2) _ f, of sample_pb] a race_idle(3) by simp
  have s2: "thread_step sample_pb ?a BT ?b" using bt_schedule [of ?a 0 sample_pb] by simp
  have "pc_teardown_work (conns (srv ?b) ! 0) \<noteq> None"
    by (simp add: leave_schedule_def leave_locked_def put_slot_def race_slots)
  then have s3: "thread_step sample_pb ?b WQ ?c"
    using wq_teardown [of ?b 0 sample_pb] race_idle(1) by (simp add: layout_consts)
  have g: "fst (teardown_grab 0 (srv ?c)) = Some 7"
    by (simp add: teardown_grab_def free_cancel_def leave_schedule_def leave_locked_def put_slot_def race_slots Let_def)
  have "race_leaving = ?c\<lparr>srv := snd (teardown_grab 0 (srv ?c)), wq := Wq_disconnect (Some 7)\<rparr>"
    using race_idle(2) by (simp add: race_leaving_def)
  then have s4: "thread_step sample_pb ?c WQ race_leaving"
    using wq_grab [of ?c 0 "Some 7" "snd (teardown_grab 0 (srv ?c))" sample_pb] g by (simp add: prod_eq_iff)
  let ?r = "reachable (thread_start sample_pb) (thread_step sample_pb)"
  have "?r ?a" by (rule reach_step [where s = race_registered]) (rule race_registered_reachable, rule s1)
  then have "?r ?b" by (rule reach_step [where s = ?a]) (rule s2)
  then have "?r ?c" by (rule reach_step [where s = ?b]) (rule s3)
  then show ?thesis by (rule reach_step [where s = ?c]) (rule s4)
qed

theorem teardown_drops_only_leavers_witness:
  "wq race_leaving = Wq_disconnect (Some 7) \<and> (Some 7, gen race_leaving (Some 7)) \<in> asked race_leaving"
  using teardown_drops_only_leavers [OF race_leaving_reachable] by (simp add: race_leaving_def)

end
