(* ===== verification/Uart_Threads.thy ===== *)
theory Uart_Threads
  imports Uart_Meshtastic
begin

text \<open>
  The UART driver of \<^verbatim>\<open>src/src/uart_meshtastic.c\<close> under preemption. The driver's callback runs in the
  interrupt, at any point of a handler of the work queue; any thread may submit a payload at any
  point. The handlers are split where another context can see a difference: before every access to
  a variable the interrupt writes (the ring, the state of the receive machine, the transfer flag)
  and around the call into the driver. An interrupt is one step, as nothing preempts it; the message
  queue and the ring are the kernel's and their operations are one step.
\<close>

section \<open>The handlers, split\<close>

text \<open>
  The work of \<open>rx_process_byte\<close> in the state it read: the data it updates, the frame it delivers
  and the state it stores at the end, if it stores one.
\<close>

definition rx_switch :: "u8 \<Rightarrow> rx_state \<Rightarrow> rx_machine \<Rightarrow> (u8 list option \<times> rx_state option) \<times> rx_machine" where
  "rx_switch byte st sm =
     (case st of
        RX_WAIT_MAGIC1 \<Rightarrow> ((None, if byte = MESHTASTIC_MAGIC1 then Some RX_WAIT_MAGIC2 else None), sm)
      | RX_WAIT_MAGIC2 \<Rightarrow>
          ((None, Some (if byte = MESHTASTIC_MAGIC2 then RX_WAIT_LEN_HI
                        else if byte = MESHTASTIC_MAGIC1 then RX_WAIT_MAGIC2 else RX_WAIT_MAGIC1)), sm)
      | RX_WAIT_LEN_HI \<Rightarrow> ((None, Some RX_WAIT_LEN_LO), sm\<lparr>expected_len := push_bit 8 (ucast byte)\<rparr>)
      | RX_WAIT_LEN_LO \<Rightarrow>
          let sm = sm\<lparr>expected_len := or (expected_len sm) (ucast byte)\<rparr> in
          if expected_len sm = 0 \<or> unat (expected_len sm) > MESHTASTIC_MAX_PAYLOAD
          then ((None, Some RX_WAIT_MAGIC1), sm)
          else ((None, Some RX_WAIT_PAYLOAD), sm\<lparr>received_len := 0\<rparr>)
      | RX_WAIT_PAYLOAD \<Rightarrow>
          let sm = sm\<lparr>rx_payload := (rx_payload sm)[unat (received_len sm) := byte],
                      received_len := received_len sm + 1\<rparr> in
          if received_len sm = expected_len sm
          then ((Some (take (unat (received_len sm)) (rx_payload sm)), Some RX_WAIT_MAGIC1), sm)
          else ((None, None), sm))"

definition rx_stored :: "rx_state option \<Rightarrow> rx_machine \<Rightarrow> rx_machine" where
  "rx_stored n sm = (case n of None \<Rightarrow> sm | Some s \<Rightarrow> sm\<lparr>rx_st := s\<rparr>)"

lemma rx_byte_split:
  "rx_process_byte byte sm =
     (case rx_switch byte (rx_st sm) sm of ((f, n), sm') \<Rightarrow> (f, rx_stored n sm'))"
  by (simp add: rx_process_byte_def rx_switch_def rx_stored_def Let_def split: rx_state.split)

text \<open>The end of \<open>rx_work_handler\<close>: the watchdog, then the overrun counter.\<close>

definition rx_watch :: "uart \<Rightarrow> uart" where
  "rx_watch u =
     (if rx_st (rx_sm u) \<noteq> RX_WAIT_MAGIC1 then u\<lparr>rx_resync_dwork := Some RX_RESYNC_TIMEOUT_MS\<rparr>
      else u\<lparr>rx_resync_dwork := None\<rparr>)"

text \<open>\<open>tx_work_handler\<close>: the entry framed in the buffer, the claim, the outcome of \<open>uart_tx\<close>.\<close>

definition tx_load :: "u8 list \<Rightarrow> uart \<Rightarrow> uart" where
  "tx_load entry u = u\<lparr>tx_frame_buf := build_tx_frame (tx_frame_buf u) entry\<rparr>"

definition tx_claim :: "uart \<Rightarrow> uart" where
  "tx_claim u = u\<lparr>tx_in_progress := True\<rparr>"

definition tx_started :: "u8 list \<Rightarrow> uart \<Rightarrow> uart" where
  "tx_started entry u = u\<lparr>tx_wire := tx_wire u @ [take (length entry + 4) (tx_frame_buf u)]\<rparr>"

definition tx_failed :: "uart \<Rightarrow> uart" where
  "tx_failed u = u\<lparr>tx_in_progress := False, tx_work_pending := True\<rparr>"

lemma tx_work_split:
  "tx_work_handler err u =
     (if tx_in_progress u then u
      else case tx_dequeue u of
          None \<Rightarrow> u
        | Some (entry, v) \<Rightarrow>
            let v = tx_claim (tx_load entry v) in if err \<noteq> OK then tx_failed v else tx_started entry v)"
  by (simp add: tx_work_handler_def tx_load_def tx_claim_def tx_failed_def tx_started_def Let_def
      split: option.split prod.split)

section \<open>The system\<close>

datatype uart_pc =
    U_idle
  | Rx_loop
  | Rx_byte u8
  | Rx_work u8 rx_state
  | Rx_store rx_state
  | Rx_watch
  | Rx_report
  | Tx_check
  | Tx_get
  | Tx_claim "u8 list"
  | Tx_send "u8 list"
  | Tx_failed "u8 list"

text \<open>
  The driver, where the work queue is, whether the hardware owns the frame buffer, and history
  variables: the bytes put into the ring, the bytes taken from it, the frames delivered, how often
  the receive machine was reset, the payloads accepted, and for those taken from the queue whether
  the hardware took them.
\<close>

record uart_threads =
  drv :: uart
  upc :: uart_pc
  inflight :: bool
  rx_in :: "u8 list"
  rx_eaten :: "u8 list"
  rx_out :: "u8 list list"
  resets :: nat
  tx_in :: "u8 list list"
  tx_log :: "(u8 list \<times> bool) list"

datatype uart_thread = Isr | Work | App

fun taken :: "uart_event \<Rightarrow> uart \<Rightarrow> u8 list" where
  "taken (UART_RX_RDY d) u = take (fst (ring_buf_put (rx_ring_buf u) d)) d"
| "taken e u = []"

inductive rx_step :: "uart_threads \<Rightarrow> uart_threads \<Rightarrow> bool" where
  rx_start: "upc t = U_idle \<Longrightarrow> rx_work_pending (drv t) \<Longrightarrow>
    rx_step t (t\<lparr>drv := (drv t)\<lparr>rx_work_pending := False\<rparr>, upc := Rx_loop\<rparr>)"
| rx_get: "upc t = Rx_loop \<Longrightarrow> rx_ring_buf (drv t) = b # bs \<Longrightarrow>
    rx_step t (t\<lparr>drv := (drv t)\<lparr>rx_ring_buf := bs\<rparr>, upc := Rx_byte b, rx_eaten := rx_eaten t @ [b]\<rparr>)"
| rx_empty: "upc t = Rx_loop \<Longrightarrow> rx_ring_buf (drv t) = [] \<Longrightarrow> rx_step t (t\<lparr>upc := Rx_watch\<rparr>)"
| rx_read: "upc t = Rx_byte b \<Longrightarrow> rx_step t (t\<lparr>upc := Rx_work b (rx_st (rx_sm (drv t)))\<rparr>)"
| rx_work: "upc t = Rx_work b st \<Longrightarrow> rx_switch b st (rx_sm (drv t)) = ((f, n), sm) \<Longrightarrow>
    rx_step t (t\<lparr>drv := (drv t)\<lparr>rx_sm := sm\<rparr>, upc := (case n of None \<Rightarrow> Rx_loop | Some s \<Rightarrow> Rx_store s),
      rx_out := rx_out t @ (case f of None \<Rightarrow> [] | Some p \<Rightarrow> [p])\<rparr>)"
| rx_store: "upc t = Rx_store s \<Longrightarrow>
    rx_step t (t\<lparr>drv := (drv t)\<lparr>rx_sm := (rx_sm (drv t))\<lparr>rx_st := s\<rparr>\<rparr>, upc := Rx_loop\<rparr>)"
| rx_watchdog: "upc t = Rx_watch \<Longrightarrow> rx_step t (t\<lparr>drv := rx_watch (drv t), upc := Rx_report\<rparr>)"
| rx_report: "upc t = Rx_report \<Longrightarrow> rx_step t (t\<lparr>drv := (drv t)\<lparr>rx_overrun_bytes := 0\<rparr>, upc := U_idle\<rparr>)"
| rx_resync: "upc t = U_idle \<Longrightarrow> rx_resync_dwork (drv t) \<noteq> None \<Longrightarrow>
    rx_step t (t\<lparr>drv := rx_resync_handler ((drv t)\<lparr>rx_resync_dwork := None\<rparr>), resets := resets t + 1\<rparr>)"

inductive tx_thread_step :: "uart_threads \<Rightarrow> uart_threads \<Rightarrow> bool" where
  tx_start: "upc t = U_idle \<Longrightarrow> tx_work_pending (drv t) \<Longrightarrow>
    tx_thread_step t (t\<lparr>drv := (drv t)\<lparr>tx_work_pending := False\<rparr>, upc := Tx_check\<rparr>)"
| tx_check: "upc t = Tx_check \<Longrightarrow>
    tx_thread_step t (t\<lparr>upc := (if tx_in_progress (drv t) then U_idle else Tx_get)\<rparr>)"
| tx_empty: "upc t = Tx_get \<Longrightarrow> tx_dequeue (drv t) = None \<Longrightarrow> tx_thread_step t (t\<lparr>upc := U_idle\<rparr>)"
| tx_get: "upc t = Tx_get \<Longrightarrow> tx_dequeue (drv t) = Some (e, u) \<Longrightarrow>
    tx_thread_step t (t\<lparr>drv := tx_load e u, upc := Tx_claim e\<rparr>)"
| tx_claim: "upc t = Tx_claim e \<Longrightarrow> tx_thread_step t (t\<lparr>drv := tx_claim (drv t), upc := Tx_send e\<rparr>)"
| tx_sent: "upc t = Tx_send e \<Longrightarrow>
    tx_thread_step t (t\<lparr>drv := tx_started e (drv t), upc := U_idle, inflight := True, tx_log := tx_log t @ [(e, True)]\<rparr>)"
| tx_error: "upc t = Tx_send e \<Longrightarrow> tx_thread_step t (t\<lparr>upc := Tx_failed e\<rparr>)"
| tx_retry: "upc t = Tx_failed e \<Longrightarrow>
    tx_thread_step t (t\<lparr>drv := tx_failed (drv t), upc := U_idle, tx_log := tx_log t @ [(e, False)]\<rparr>)"

text \<open>
  The interrupt: completions come only for a transfer the driver has. A payload may be submitted
  from any context.
\<close>

inductive uart_thread_step :: "uart_threads \<Rightarrow> uart_thread \<Rightarrow> uart_threads \<Rightarrow> bool" where
  isr: "ev \<noteq> UART_TX_DONE \<Longrightarrow> ev \<noteq> UART_TX_ABORTED \<Longrightarrow>
    uart_thread_step t Isr (t\<lparr>drv := uart_cb rerr ev (drv t), rx_in := rx_in t @ taken ev (drv t),
      resets := resets t + (if ev = UART_RX_DISABLED then 1 else 0)\<rparr>)"
| isr_tx: "ev = UART_TX_DONE \<or> ev = UART_TX_ABORTED \<Longrightarrow> inflight t \<Longrightarrow>
    uart_thread_step t Isr (t\<lparr>drv := uart_cb rerr ev (drv t), inflight := False\<rparr>)"
| work_rx: "rx_step t t' \<Longrightarrow> uart_thread_step t Work t'"
| work_tx: "tx_thread_step t t' \<Longrightarrow> uart_thread_step t Work t'"
| work_led: "upc t = U_idle \<Longrightarrow> uart_led_dwork (drv t) \<noteq> None \<Longrightarrow>
    uart_thread_step t Work (t\<lparr>drv := uart_led_blink_work (drv t)\<rparr>)"
| submit: "uart_meshtastic_tx p (drv t) = (r, u) \<Longrightarrow>
    uart_thread_step t App (t\<lparr>drv := u, tx_in := tx_in t @ (if r = OK then [p] else [])\<rparr>)"

definition uart_thread_start :: "uart_threads \<Rightarrow> bool" where
  "uart_thread_start t \<longleftrightarrow> (\<exists>leds. drv t = snd (uart_meshtastic_init leds True OK OK uart_static)) \<and>
     upc t = U_idle \<and> \<not> inflight t \<and> rx_in t = [] \<and> rx_eaten t = [] \<and> rx_out t = [] \<and> resets t = 0 \<and>
     tx_in t = [] \<and> tx_log t = []"

section \<open>The invariant\<close>

definition mid_payload :: "rx_machine \<Rightarrow> bool" where
  "mid_payload sm \<longleftrightarrow> unat (received_len sm) < unat (expected_len sm) \<and> unat (expected_len sm) \<le> MESHTASTIC_MAX_PAYLOAD"

lemma mid_payload_st [simp]: "mid_payload (sm\<lparr>rx_st := s\<rparr>) = mid_payload sm"
  by (simp add: mid_payload_def)

text \<open>
  The receive machine. The interrupt may have reset the state the handler read, and then the
  handler may store over the reset; in neither case does an index leave the buffer.
\<close>

fun rx_safe :: "uart_pc \<Rightarrow> rx_machine \<Rightarrow> bool" where
  "rx_safe (Rx_work b st) sm \<longleftrightarrow> (rx_st sm = st \<or> rx_st sm = RX_WAIT_MAGIC1) \<and> (st = RX_WAIT_PAYLOAD \<longrightarrow> mid_payload sm)"
| "rx_safe (Rx_store s) sm \<longleftrightarrow> (s = RX_WAIT_PAYLOAD \<longrightarrow> mid_payload sm)"
| "rx_safe pc sm \<longleftrightarrow> (rx_st sm = RX_WAIT_PAYLOAD \<longrightarrow> mid_payload sm)"

definition rx_ok :: "uart_threads \<Rightarrow> bool" where
  "rx_ok t \<longleftrightarrow> rx_safe (upc t) (rx_sm (drv t)) \<and> length (rx_payload (rx_sm (drv t))) = MESHTASTIC_MAX_PAYLOAD \<and>
     (\<forall>p \<in> set (rx_out t). 1 \<le> length p \<and> length p \<le> MESHTASTIC_MAX_PAYLOAD)"

definition ring_ok :: "uart_threads \<Rightarrow> bool" where
  "ring_ok t \<longleftrightarrow> rx_in t = rx_eaten t @ rx_ring_buf (drv t) \<and> length (rx_ring_buf (drv t)) \<le> RING_BUF_SIZE"

text \<open>As long as nothing reset the machine, it is where the bytes taken from the ring lead.\<close>

fun rx_at :: "uart_pc \<Rightarrow> u8 list \<Rightarrow> u8 list list \<Rightarrow> rx_machine \<Rightarrow> bool" where
  "rx_at (Rx_byte b) bs fs sm \<longleftrightarrow> (\<exists>cs. bs = cs @ [b] \<and> rx_run cs (rx_sm uart_static) = (fs, sm))"
| "rx_at (Rx_work b st) bs fs sm \<longleftrightarrow> (\<exists>cs. bs = cs @ [b] \<and> rx_run cs (rx_sm uart_static) = (fs, sm) \<and> st = rx_st sm)"
| "rx_at (Rx_store s) bs fs sm \<longleftrightarrow> rx_run bs (rx_sm uart_static) = (fs, sm\<lparr>rx_st := s\<rparr>)"
| "rx_at pc bs fs sm \<longleftrightarrow> rx_run bs (rx_sm uart_static) = (fs, sm)"

definition parse_ok :: "uart_threads \<Rightarrow> bool" where
  "parse_ok t \<longleftrightarrow> resets t = 0 \<longrightarrow> rx_at (upc t) (rx_eaten t) (rx_out t) (rx_sm (drv t))"

text \<open>The transmit side: who owns the frame buffer, and what became of the accepted payloads.\<close>

definition loaded :: "u8 list \<Rightarrow> uart \<Rightarrow> bool" where
  "loaded e u \<longleftrightarrow> length e \<le> MESHTASTIC_MAX_PAYLOAD \<and> take (length e + 4) (tx_frame_buf u) = mesh_frame e"

fun in_hand :: "uart_pc \<Rightarrow> u8 list list" where
  "in_hand (Tx_claim e) = [e]"
| "in_hand (Tx_send e) = [e]"
| "in_hand (Tx_failed e) = [e]"
| "in_hand pc = []"

fun tx_owns :: "uart_pc \<Rightarrow> uart \<Rightarrow> bool \<Rightarrow> bool" where
  "tx_owns Tx_get u hw \<longleftrightarrow> \<not> tx_in_progress u \<and> \<not> hw"
| "tx_owns (Tx_claim e) u hw \<longleftrightarrow> \<not> tx_in_progress u \<and> \<not> hw \<and> loaded e u"
| "tx_owns (Tx_send e) u hw \<longleftrightarrow> tx_in_progress u \<and> \<not> hw \<and> loaded e u"
| "tx_owns (Tx_failed e) u hw \<longleftrightarrow> tx_in_progress u \<and> \<not> hw \<and> loaded e u"
| "tx_owns pc u hw \<longleftrightarrow> tx_in_progress u = hw"

definition tx_ok :: "uart_threads \<Rightarrow> bool" where
  "tx_ok t \<longleftrightarrow> tx_inv (drv t) \<and> tx_owns (upc t) (drv t) (inflight t) \<and>
     (inflight t \<longrightarrow> (\<exists>e. last (tx_log t) = (e, True) \<and> tx_log t \<noteq> [] \<and> loaded e (drv t))) \<and>
     tx_in t = map fst (tx_log t) @ in_hand (upc t) @ tx_msgq (drv t) \<and>
     tx_wire (drv t) = map (\<lambda>x. mesh_frame (fst x)) (filter snd (tx_log t))"

text \<open>Whatever waits has something scheduled that will move it.\<close>

fun rx_busy :: "uart_pc \<Rightarrow> bool" where
  "rx_busy Rx_loop = True"
| "rx_busy (Rx_byte b) = True"
| "rx_busy (Rx_work b st) = True"
| "rx_busy (Rx_store s) = True"
| "rx_busy pc = False"

fun tx_busy :: "uart_pc \<Rightarrow> bool" where
  "tx_busy Tx_check = True"
| "tx_busy Tx_get = True"
| "tx_busy (Tx_claim e) = True"
| "tx_busy (Tx_send e) = True"
| "tx_busy (Tx_failed e) = True"
| "tx_busy pc = False"

definition awake :: "uart_threads \<Rightarrow> bool" where
  "awake t \<longleftrightarrow> (rx_ring_buf (drv t) \<noteq> [] \<longrightarrow> rx_work_pending (drv t) \<or> rx_busy (upc t)) \<and>
     (tx_msgq (drv t) \<noteq> [] \<longrightarrow> tx_work_pending (drv t) \<or> inflight t \<or> tx_busy (upc t))"

definition uart_threads_inv :: "uart_threads \<Rightarrow> bool" where
  "uart_threads_inv t \<longleftrightarrow> rx_ok t \<and> ring_ok t \<and> parse_ok t \<and> tx_ok t \<and> awake t"

section \<open>The receive handler\<close>

lemma rx_switch_safe:
  assumes "rx_safe (Rx_work b st) sm" and "length (rx_payload sm) = MESHTASTIC_MAX_PAYLOAD"
    and "rx_switch b st sm = ((f, n), sm')"
  shows "rx_safe (case n of None \<Rightarrow> Rx_loop | Some s \<Rightarrow> Rx_store s) sm'"
    and "length (rx_payload sm') = MESHTASTIC_MAX_PAYLOAD"
    and "f = Some p \<Longrightarrow> 1 \<le> length p \<and> length p \<le> MESHTASTIC_MAX_PAYLOAD"
proof -
  have "rx_safe (case n of None \<Rightarrow> Rx_loop | Some s \<Rightarrow> Rx_store s) sm' \<and>
      length (rx_payload sm') = MESHTASTIC_MAX_PAYLOAD \<and>
      (f = Some p \<longrightarrow> 1 \<le> length p \<and> length p \<le> MESHTASTIC_MAX_PAYLOAD)"
  proof (cases st)
    case RX_WAIT_PAYLOAD
    have m: "unat (received_len sm) < unat (expected_len sm)" "unat (expected_len sm) \<le> 512"
      using assms(1) RX_WAIT_PAYLOAD by (simp_all add: mid_payload_def layout_consts)
    have s: "unat (received_len sm + 1) = Suc (unat (received_len sm))" by (rule unat_u16_Suc) (use m in linarith)
    have "received_len sm + 1 \<noteq> expected_len sm \<Longrightarrow> Suc (unat (received_len sm)) < unat (expected_len sm)"
      using m(1) s by (metis Suc_lessI word_unat_eq_iff)
    with m s assms RX_WAIT_PAYLOAD show ?thesis
      by (auto simp: rx_switch_def Let_def mid_payload_def layout_consts split: if_splits)
  qed (use assms in \<open>auto simp: rx_switch_def Let_def mid_payload_def word_unat_eq_iff split: if_splits\<close>)
  then show "rx_safe (case n of None \<Rightarrow> Rx_loop | Some s \<Rightarrow> Rx_store s) sm'"
    and "length (rx_payload sm') = MESHTASTIC_MAX_PAYLOAD"
    and "f = Some p \<Longrightarrow> 1 \<le> length p \<and> length p \<le> MESHTASTIC_MAX_PAYLOAD" by simp_all
qed

lemma rx_at_work:
  assumes "rx_at (Rx_work b st) bs fs sm" and "rx_switch b st sm = ((f, n), sm')"
  shows "rx_at (case n of None \<Rightarrow> Rx_loop | Some s \<Rightarrow> Rx_store s) bs (fs @ (case f of None \<Rightarrow> [] | Some p \<Rightarrow> [p])) sm'"
proof -
  from assms(1) obtain cs where cs: "bs = cs @ [b]" "rx_run cs (rx_sm uart_static) = (fs, sm)" "st = rx_st sm" by auto
  have "rx_process_byte b sm = (f, rx_stored n sm')" using assms(2) cs(3) by (simp add: rx_byte_split)
  with cs show ?thesis by (cases n) (auto simp: rx_run_append rx_stored_def split: option.split)
qed

lemma rx_step_rx_ok:
  assumes "rx_ok t" and "rx_step t t'"
  shows "rx_ok t'"
  using assms(2)
proof cases
  case (rx_work b st f n sm)
  have "rx_safe (Rx_work b st) (rx_sm (drv t))" using assms(1) rx_work by (simp add: rx_ok_def)
  from rx_switch_safe [OF this _ rx_work(3)] rx_work assms(1) show ?thesis
    by (auto simp: rx_ok_def split: option.splits)
qed (use assms(1) in \<open>auto simp: rx_ok_def rx_watch_def rx_resync_handler_def\<close>)

lemma rx_step_ring_ok: "ring_ok t \<Longrightarrow> rx_step t t' \<Longrightarrow> ring_ok t'"
  by (erule rx_step.cases) (auto simp: ring_ok_def rx_watch_def rx_resync_handler_def)

lemma rx_step_parse_ok:
  assumes "parse_ok t" and "rx_step t t'"
  shows "parse_ok t'"
  using assms(2)
proof cases
  case (rx_work b st f n sm)
  show ?thesis
    unfolding parse_ok_def
  proof
    assume "resets t' = 0"
    then have "rx_at (Rx_work b st) (rx_eaten t) (rx_out t) (rx_sm (drv t))"
      using assms(1) rx_work by (simp add: parse_ok_def)
    from rx_at_work [OF this rx_work(3)] rx_work(1)
    show "rx_at (upc t') (rx_eaten t') (rx_out t') (rx_sm (drv t'))" by simp
  qed
qed (use assms(1) in \<open>auto simp: parse_ok_def rx_watch_def rx_resync_handler_def\<close>)

lemma tx_inv_rx [simp]:
  "tx_inv (u\<lparr>rx_work_pending := b\<rparr>) = tx_inv u" "tx_inv (u\<lparr>rx_ring_buf := r\<rparr>) = tx_inv u"
  "tx_inv (u\<lparr>rx_sm := m\<rparr>) = tx_inv u" "tx_inv (u\<lparr>rx_resync_dwork := d\<rparr>) = tx_inv u"
  "tx_inv (u\<lparr>rx_overrun_bytes := n\<rparr>) = tx_inv u"
  "tx_inv (rx_watch u) = tx_inv u" "tx_inv (rx_resync_handler u) = tx_inv u"
  by (simp_all add: tx_inv_def rx_watch_def rx_resync_handler_def)

lemma rx_keeps_tx [simp]:
  "tx_msgq (rx_watch u) = tx_msgq u" "tx_frame_buf (rx_watch u) = tx_frame_buf u" "tx_wire (rx_watch u) = tx_wire u"
  "tx_in_progress (rx_watch u) = tx_in_progress u" "tx_work_pending (rx_watch u) = tx_work_pending u"
  "tx_msgq (rx_resync_handler u) = tx_msgq u" "tx_frame_buf (rx_resync_handler u) = tx_frame_buf u"
  "tx_wire (rx_resync_handler u) = tx_wire u" "tx_in_progress (rx_resync_handler u) = tx_in_progress u"
  "tx_work_pending (rx_resync_handler u) = tx_work_pending u"
  by (simp_all add: rx_watch_def rx_resync_handler_def)

lemma rx_step_tx_ok: "tx_ok t \<Longrightarrow> rx_step t t' \<Longrightarrow> tx_ok t'"
  by (erule rx_step.cases) (auto simp: tx_ok_def loaded_def split: option.split)

lemma rx_step_awake: "awake t \<Longrightarrow> rx_step t t' \<Longrightarrow> awake t'"
  by (erule rx_step.cases)
    (auto simp: awake_def rx_watch_def rx_resync_handler_def split: option.split)

section \<open>The transmit handler\<close>

lemma load_loaded:
  assumes "tx_inv u" and "tx_dequeue u = Some (e, v)"
  shows "loaded e (tx_load e v)" and "tx_inv (tx_load e v)" and "tx_msgq u = e # tx_msgq (tx_load e v)"
    and "tx_in_progress (tx_load e v) = tx_in_progress u" and "tx_wire (tx_load e v) = tx_wire u"
proof -
  have q: "tx_msgq u = e # tx_msgq v" "v = u\<lparr>tx_msgq := tx_msgq v\<rparr>"
    using assms(2) by (auto simp: tx_dequeue_def split: list.splits)
  have l: "length (tx_frame_buf v) = 516" "length e \<le> 512"
    using assms(1) q(1) by (simp_all add: tx_inv_def layout_consts) (subst q(2), simp)
  from build_tx_frame_correct [OF l] q assms(1) l show "loaded e (tx_load e v)" "tx_inv (tx_load e v)"
    "tx_msgq u = e # tx_msgq (tx_load e v)"
    by (simp_all add: loaded_def tx_load_def tx_inv_def layout_consts)
  show "tx_in_progress (tx_load e v) = tx_in_progress u" "tx_wire (tx_load e v) = tx_wire u"
    by (simp_all add: tx_load_def) (subst q(2), simp)+
qed

lemma tx_step_rx_side:
  assumes "tx_thread_step t t'"
  shows "rx_sm (drv t') = rx_sm (drv t)" "rx_ring_buf (drv t') = rx_ring_buf (drv t)" "rx_eaten t' = rx_eaten t"
    "rx_in t' = rx_in t" "rx_out t' = rx_out t" "resets t' = resets t" "\<not> rx_busy (upc t)" "\<not> rx_busy (upc t')"
    "rx_work_pending (drv t') = rx_work_pending (drv t)"
  using assms
  by (cases; auto simp: tx_load_def tx_claim_def tx_started_def tx_failed_def tx_dequeue_def split: list.splits)+

lemma rx_pc_idle:
  assumes "\<not> rx_busy pc"
  shows "rx_safe pc sm \<longleftrightarrow> (rx_st sm = RX_WAIT_PAYLOAD \<longrightarrow> mid_payload sm)"
    and "rx_at pc bs fs sm \<longleftrightarrow> rx_run bs (rx_sm uart_static) = (fs, sm)"
  using assms by (cases pc; simp)+

lemma tx_step_tx_ok:
  assumes "tx_ok t" and "tx_thread_step t t'"
  shows "tx_ok t'"
  using assms(2)
proof cases
  case (tx_get e u)
  have "tx_inv (drv t)" using assms(1) by (simp add: tx_ok_def)
  from load_loaded [OF this tx_get(3)] tx_get assms(1) show ?thesis
    by (auto simp: tx_ok_def)
next
  case (tx_sent e)
  then show ?thesis using assms(1) by (auto simp: tx_ok_def tx_started_def loaded_def tx_inv_def)
qed (use assms(1) in \<open>auto simp: tx_ok_def tx_claim_def tx_failed_def loaded_def tx_inv_def split: if_splits\<close>)

lemma tx_step_awake:
  assumes "awake t" and "tx_ok t" and "tx_thread_step t t'"
  shows "awake t'"
  using assms(3)
proof cases
  case (tx_get e u)
  then show ?thesis
    using assms(1) by (auto simp: awake_def tx_load_def tx_dequeue_def split: list.splits)
qed (use assms(1,2) in \<open>auto simp: awake_def tx_ok_def tx_claim_def tx_started_def tx_failed_def tx_dequeue_def
      split: list.splits if_splits\<close>)

section \<open>Every step\<close>

lemma tx_step_inv:
  assumes "uart_threads_inv t" and "tx_thread_step t t'"
  shows "uart_threads_inv t'"
proof -
  note i = assms(1) [unfolded uart_threads_inv_def]
  note same = tx_step_rx_side [OF assms(2)] 
  have "rx_ok t'" using i same by (simp add: rx_ok_def rx_pc_idle)
  moreover have "ring_ok t'" using i same by (simp add: ring_ok_def)
  moreover have "parse_ok t'" using i same by (simp add: parse_ok_def rx_pc_idle)
  ultimately show ?thesis
    using i tx_step_tx_ok [of t t'] tx_step_awake [of t t'] assms(2) by (simp add: uart_threads_inv_def)
qed

text \<open>The interrupt: it puts bytes into the ring, or sets the machine back to the start.\<close>

lemma rx_safe_reset: "rx_safe pc sm \<Longrightarrow> rx_safe pc (sm\<lparr>rx_st := RX_WAIT_MAGIC1\<rparr>)"
  by (cases pc) simp_all

lemma uart_cb_tx_side:
  assumes "ev \<noteq> UART_TX_DONE" and "ev \<noteq> UART_TX_ABORTED"
  shows "tx_msgq (uart_cb rerr ev u) = tx_msgq u" "tx_frame_buf (uart_cb rerr ev u) = tx_frame_buf u"
    "tx_wire (uart_cb rerr ev u) = tx_wire u" "tx_in_progress (uart_cb rerr ev u) = tx_in_progress u"
    "tx_work_pending (uart_cb rerr ev u) = tx_work_pending u"
  using assms by (cases ev; simp add: ring_buf_put_def Let_def)+

lemma uart_cb_ring:
  assumes "length (rx_ring_buf u) \<le> RING_BUF_SIZE"
  shows "rx_ring_buf (uart_cb rerr ev u) = rx_ring_buf u @ taken ev u"
    and "length (rx_ring_buf (uart_cb rerr ev u)) \<le> RING_BUF_SIZE"
    and "taken ev u \<noteq> [] \<Longrightarrow> rx_work_pending (uart_cb rerr ev u)"
    and "rx_work_pending u \<Longrightarrow> rx_work_pending (uart_cb rerr ev u)"
    and "rx_sm (uart_cb rerr ev u) =
      (if ev = UART_RX_DISABLED then (rx_sm u)\<lparr>rx_st := RX_WAIT_MAGIC1\<rparr> else rx_sm u)"
proof -
  show "rx_ring_buf (uart_cb rerr ev u) = rx_ring_buf u @ taken ev u"
    by (cases ev) (simp_all add: ring_buf_put_def Let_def)
  then show "length (rx_ring_buf (uart_cb rerr ev u)) \<le> RING_BUF_SIZE"
    using assms by (cases ev) (simp_all add: ring_buf_put_def Let_def)
  show "rx_work_pending (uart_cb rerr ev u)" if "taken ev u \<noteq> []"
    using that by (cases ev) (simp_all add: Let_def split_beta)
  show "rx_work_pending (uart_cb rerr ev u)" if "rx_work_pending u"
    using that by (cases ev) (simp_all add: Let_def split_beta)
  show "rx_sm (uart_cb rerr ev u) =
      (if ev = UART_RX_DISABLED then (rx_sm u)\<lparr>rx_st := RX_WAIT_MAGIC1\<rparr> else rx_sm u)"
    by (cases ev) (simp_all add: Let_def split_beta)
qed

lemma tx_owns_cong:
  assumes "tx_in_progress v = tx_in_progress u" and "tx_frame_buf v = tx_frame_buf u"
  shows "tx_owns pc v hw = tx_owns pc u hw" and "loaded e v = loaded e u"
  using assms by (cases pc; simp add: loaded_def)+

lemma isr_inv:
  assumes "uart_threads_inv t" and "ev \<noteq> UART_TX_DONE" and "ev \<noteq> UART_TX_ABORTED"
  shows "uart_threads_inv (t\<lparr>drv := uart_cb rerr ev (drv t), rx_in := rx_in t @ taken ev (drv t),
      resets := resets t + (if ev = UART_RX_DISABLED then 1 else 0)\<rparr>)"
    (is "uart_threads_inv ?t")
proof -
  note i = assms(1) [unfolded uart_threads_inv_def]
  note tx = uart_cb_tx_side [OF assms(2,3)]
  have l: "length (rx_ring_buf (drv t)) \<le> RING_BUF_SIZE" using i by (simp add: ring_ok_def)
  note rx = uart_cb_ring [OF l]
  have "rx_ok ?t" using i rx_safe_reset by (auto simp: rx_ok_def rx(5))
  moreover have "ring_ok ?t" using i rx(1,2) by (simp add: ring_ok_def)
  moreover have "parse_ok ?t" using i by (simp add: parse_ok_def rx(5))
  moreover have "tx_ok ?t" using i by (simp add: tx_ok_def tx tx_owns_cong [OF tx(4,2)] tx_inv_def)
  moreover have "awake ?t" using i rx(1,3,4) by (auto simp: awake_def tx)
  ultimately show ?thesis by (simp add: uart_threads_inv_def)
qed

lemma isr_tx_inv:
  assumes "uart_threads_inv t" and "ev = UART_TX_DONE \<or> ev = UART_TX_ABORTED" and "inflight t"
  shows "uart_threads_inv (t\<lparr>drv := uart_cb rerr ev (drv t), inflight := False\<rparr>)" (is "uart_threads_inv ?t")
proof -
  note i = assms(1) [unfolded uart_threads_inv_def]
  obtain a where cb: "uart_cb rerr ev (drv t) =
      (drv t)\<lparr>tx_in_progress := False, uart_tx_active := a, tx_work_pending := True\<rparr>"
  proof -
    from assms(2) show thesis
    proof
      assume "ev = UART_TX_DONE"
      then show thesis using that [of True] by simp
    next
      assume "ev = UART_TX_ABORTED"
      then show thesis using that [of "uart_tx_active (drv t)"] by simp
    qed
  qed
  have "tx_owns (upc t) (drv t) True" using i assms(3) by (simp add: tx_ok_def)
  then have "tx_owns (upc t) (uart_cb rerr ev (drv t)) False"
    by (cases "upc t") (simp_all add: cb)
  with i show ?thesis
    by (simp add: uart_threads_inv_def rx_ok_def ring_ok_def parse_ok_def tx_ok_def awake_def cb tx_inv_def)
qed

lemma submit_inv:
  assumes "uart_threads_inv t" and "uart_meshtastic_tx p (drv t) = (r, u)"
  shows "uart_threads_inv (t\<lparr>drv := u, tx_in := tx_in t @ (if r = OK then [p] else [])\<rparr>)" (is "uart_threads_inv ?t")
proof (cases "r = OK")
  case True
  note i = assms(1) [unfolded uart_threads_inv_def]
  have u: "u = (drv t)\<lparr>tx_msgq := tx_msgq (drv t) @ [p], tx_work_pending := True\<rparr>"
    using assms(2) True by (auto simp: uart_meshtastic_tx_def split: if_splits)
  have "tx_inv u" using tx_queue.add_invar [of "drv t" p] i assms(2) by (simp add: tx_ok_def)
  with i True show ?thesis
    by (simp add: uart_threads_inv_def rx_ok_def ring_ok_def parse_ok_def tx_ok_def awake_def u
        tx_owns_cong [of "drv t\<lparr>tx_msgq := tx_msgq (drv t) @ [p], tx_work_pending := True\<rparr>" "drv t"])
next
  case False
  then have "u = drv t" using assms(2) by (auto simp: uart_meshtastic_tx_def split: if_splits)
  then show ?thesis using assms(1) False by simp
qed

lemma led_inv:
  assumes "uart_threads_inv t"
  shows "uart_threads_inv (t\<lparr>drv := uart_led_blink_work (drv t)\<rparr>)"
proof -
  let ?u = "uart_led_blink_work (drv t)"
  have same: "tx_msgq ?u = tx_msgq (drv t)" "tx_frame_buf ?u = tx_frame_buf (drv t)" "tx_wire ?u = tx_wire (drv t)"
    "tx_in_progress ?u = tx_in_progress (drv t)" "tx_work_pending ?u = tx_work_pending (drv t)"
    "rx_sm ?u = rx_sm (drv t)" "rx_ring_buf ?u = rx_ring_buf (drv t)" "rx_work_pending ?u = rx_work_pending (drv t)"
    by (simp_all add: uart_led_blink_work_def split_beta Let_def)
  show ?thesis
    using assms
    by (simp add: uart_threads_inv_def rx_ok_def ring_ok_def parse_ok_def tx_ok_def awake_def tx_inv_def same
        tx_owns_cong [OF same(4,2)])
qed

interpretation preempted: safe_system uart_thread_start uart_thread_step uart_threads_inv
proof
  show "uart_threads_inv t" if start: "uart_thread_start t" for t
  proof -
    obtain leds where d: "drv t = snd (uart_meshtastic_init leds True OK OK uart_static)"
      using start by (auto simp: uart_thread_start_def)
    have s: "rx_sm (drv t) = rx_sm uart_static" "rx_ring_buf (drv t) = []" "tx_msgq (drv t) = []"
      "tx_in_progress (drv t) = False" "tx_frame_buf (drv t) = tx_frame_buf uart_static" "tx_wire (drv t) = []"
      by (simp_all add: d uart_meshtastic_init_def uart_static_def Let_def)
    have "tx_inv (drv t)" using tx_static_inv s(3,5) by (simp add: tx_inv_def)
    then show ?thesis
      using start s
      by (simp add: uart_threads_inv_def uart_thread_start_def rx_ok_def ring_ok_def parse_ok_def tx_ok_def awake_def)
        (simp add: uart_static_def)
  qed
  show "uart_threads_inv t'" if inv: "uart_threads_inv t" and step: "uart_thread_step t e t'" for t e t'
    using step
  proof cases
    case work_rx
    then show ?thesis
      using inv rx_step_rx_ok rx_step_ring_ok rx_step_parse_ok rx_step_tx_ok rx_step_awake
      unfolding uart_threads_inv_def by blast
  next
    case work_tx
    then show ?thesis using tx_step_inv [OF inv] by blast
  qed (use inv isr_inv isr_tx_inv submit_inv led_inv in simp_all)
qed

section \<open>What holds under any preemption\<close>

text \<open>
  C8: memory safety of the UART driver under preemption: wherever the interrupt strikes, the ring and
  the transmit queue stay within their sizes, the index a payload byte is stored at is inside the
  buffer (also when the interrupt resets the receive machine in the middle of a byte), delivered
  frames have 1 to 512 bytes, and the handler never touches the frame buffer while the hardware has
  it: what the hardware was given last is still what the buffer holds.
\<close>

theorem uart_preempted_safe:
  assumes "reachable uart_thread_start uart_thread_step t"
  shows "length (rx_ring_buf (drv t)) \<le> 2048 \<and> length (tx_msgq (drv t)) \<le> 4 \<and>
    (\<forall>b. upc t = Rx_work b RX_WAIT_PAYLOAD \<longrightarrow>
       unat (received_len (rx_sm (drv t))) < length (rx_payload (rx_sm (drv t)))) \<and>
    (\<forall>p \<in> set (rx_out t). 1 \<le> length p \<and> length p \<le> 512) \<and>
    (inflight t \<longrightarrow> upc t \<noteq> Tx_get \<and> in_hand (upc t) = [] \<and> tx_wire (drv t) \<noteq> [] \<and>
       take (length (last (tx_wire (drv t)))) (tx_frame_buf (drv t)) = last (tx_wire (drv t)))"
proof -
  have inv: "rx_ok t" "ring_ok t" "tx_ok t"
    using preempted.reachable_inv [OF assms] by (simp_all add: uart_threads_inv_def)
  have "upc t \<noteq> Tx_get \<and> in_hand (upc t) = [] \<and> tx_wire (drv t) \<noteq> [] \<and>
      take (length (last (tx_wire (drv t)))) (tx_frame_buf (drv t)) = last (tx_wire (drv t))" if hw: "inflight t"
  proof -
    obtain e where e: "last (tx_log t) = (e, True)" "tx_log t \<noteq> []" "loaded e (drv t)"
      using inv(3) hw by (auto simp: tx_ok_def)
    then obtain l where "tx_log t = l @ [(e, True)]" by (metis append_butlast_last_id)
    then have w: "tx_wire (drv t) \<noteq> []" "last (tx_wire (drv t)) = mesh_frame e"
      using inv(3) by (simp_all add: tx_ok_def)
    have "tx_owns (upc t) (drv t) True" using inv(3) hw by (simp add: tx_ok_def)
    then have "upc t \<noteq> Tx_get \<and> in_hand (upc t) = []" by (cases "upc t") simp_all
    moreover have "length (mesh_frame e) = length e + 4" by (simp add: mesh_frame_def)
    ultimately show ?thesis using w e(3) by (simp add: loaded_def)
  qed
  moreover have "unat (received_len (rx_sm (drv t))) < length (rx_payload (rx_sm (drv t)))"
    if "upc t = Rx_work b RX_WAIT_PAYLOAD" for b
    using inv(1) that by (simp add: rx_ok_def mid_payload_def layout_consts)
  ultimately show ?thesis using inv by (simp add: rx_ok_def ring_ok_def tx_ok_def tx_inv_def layout_consts)
qed

text \<open>
  C23: what the phones and the session hand to the transmitter reaches the wire in order: wherever
  the interrupt strikes and whoever submits, the payloads accepted are those the handler has dealt
  with, in order, the one in its hands and those still queued; and the wire carries exactly the
  frames of those the hardware took.
\<close>

theorem uart_wire_order_preempted:
  assumes "reachable uart_thread_start uart_thread_step t"
  shows "tx_in t = map fst (tx_log t) @ in_hand (upc t) @ tx_msgq (drv t) \<and>
    tx_wire (drv t) = map (\<lambda>x. mesh_frame (fst x)) (filter snd (tx_log t))"
  using preempted.reachable_inv [OF assms] by (simp add: uart_threads_inv_def tx_ok_def)

subsection \<open>The receive handler comes to an end\<close>

abbreviation work_run :: "uart_threads \<Rightarrow> uart_threads \<Rightarrow> bool" where
  "work_run \<equiv> (\<lambda>a b. uart_thread_step a Work b)\<^sup>*\<^sup>*"

lemma work_run_rx: "rx_step a b \<Longrightarrow> work_run b c \<Longrightarrow> work_run a c"
  by (blast intro: converse_rtranclp_into_rtranclp work_rx)

lemma rx_byte_consumed:
  assumes "upc t = Rx_loop" and "rx_ring_buf (drv t) = b # bs"
  shows "\<exists>t'. work_run t t' \<and> upc t' = Rx_loop \<and> rx_ring_buf (drv t') = bs \<and> rx_in t' = rx_in t \<and> resets t' = resets t"
proof -
  obtain f n sm where s: "rx_switch b (rx_st (rx_sm (drv t))) (rx_sm (drv t)) = ((f, n), sm)" by (metis prod.exhaust)
  let ?a = "t\<lparr>drv := (drv t)\<lparr>rx_ring_buf := bs\<rparr>, upc := Rx_byte b, rx_eaten := rx_eaten t @ [b]\<rparr>"
  let ?b = "?a\<lparr>upc := Rx_work b (rx_st (rx_sm (drv ?a)))\<rparr>"
  let ?c = "?b\<lparr>drv := (drv ?b)\<lparr>rx_sm := sm\<rparr>, upc := (case n of None \<Rightarrow> Rx_loop | Some s \<Rightarrow> Rx_store s),
      rx_out := rx_out ?b @ (case f of None \<Rightarrow> [] | Some p \<Rightarrow> [p])\<rparr>"
  have "rx_step t ?a" by (rule rx_get [OF assms])
  moreover have "rx_step ?a ?b" by (rule rx_read) simp
  moreover have "rx_step ?b ?c" by (rule rx_work [where st = "rx_st (rx_sm (drv t))"]) (simp, use s in simp)
  ultimately have run: "work_run ?c d \<Longrightarrow> work_run t d" for d by (blast intro: work_run_rx)
  show ?thesis
  proof (cases n)
    case None
    then show ?thesis using run [of ?c] by (intro exI [of _ ?c]) simp
  next
    case (Some s)
    let ?d = "?c\<lparr>drv := (drv ?c)\<lparr>rx_sm := (rx_sm (drv ?c))\<lparr>rx_st := s\<rparr>\<rparr>, upc := Rx_loop\<rparr>"
    have "rx_step ?c ?d" by (rule rx_store) (simp add: Some)
    then have "work_run t ?d" by (rule run [OF work_run_rx]) simp
    then show ?thesis by (intro exI [of _ ?d]) simp
  qed
qed

lemma rx_loop_drains:
  assumes "upc t = Rx_loop"
  shows "\<exists>t'. work_run t t' \<and> upc t' = Rx_loop \<and> rx_ring_buf (drv t') = [] \<and> rx_in t' = rx_in t \<and> resets t' = resets t"
  using assms
proof (induction "rx_ring_buf (drv t)" arbitrary: t)
  case Nil
  then show ?case by (intro exI [of _ t]) simp
next
  case (Cons b bs)
  obtain u where u: "work_run t u" "upc u = Rx_loop" "rx_ring_buf (drv u) = bs" "rx_in u = rx_in t" "resets u = resets t"
    using rx_byte_consumed [OF Cons.prems Cons.hyps(2) [symmetric]] by blast
  with Cons.hyps(1) [OF u(3) [symmetric] u(2)] show ?case by (metis rtranclp_trans)
qed

lemma rx_handler_drains:
  assumes "upc t = U_idle" and "rx_work_pending (drv t)"
  shows "\<exists>t'. work_run t t' \<and> upc t' = U_idle \<and> rx_ring_buf (drv t') = [] \<and> rx_in t' = rx_in t \<and> resets t' = resets t"
proof -
  let ?a = "t\<lparr>drv := (drv t)\<lparr>rx_work_pending := False\<rparr>, upc := Rx_loop\<rparr>"
  have "upc ?a = Rx_loop" by simp
  from rx_loop_drains [OF this] obtain b where b: "work_run ?a b" "upc b = Rx_loop" "rx_ring_buf (drv b) = []"
    "rx_in b = rx_in t" "resets b = resets t" by auto
  let ?c = "b\<lparr>upc := Rx_watch\<rparr>"
  let ?d = "?c\<lparr>drv := rx_watch (drv ?c), upc := Rx_report\<rparr>"
  let ?e = "?d\<lparr>drv := (drv ?d)\<lparr>rx_overrun_bytes := 0\<rparr>, upc := U_idle\<rparr>"
  have c: "rx_step b ?c" by (rule rx_empty [OF b(2,3)])
  have d: "rx_step ?c ?d" by (rule rx_watchdog) simp
  have e: "rx_step ?d ?e" by (rule rx_report) simp
  have "work_run b ?e" by (rule work_run_rx [OF c], rule work_run_rx [OF d], rule work_run_rx [OF e]) simp
  with b(1) have "work_run ?a ?e" by (rule rtranclp_trans)
  then have "work_run t ?e" by (rule work_run_rx [OF rx_start [OF assms]])
  then show ?thesis using b(3-5) by (intro exI [of _ ?e]) (simp add: rx_watch_def)
qed

lemma reachable_work_run:
  assumes "work_run t t'" and "reachable uart_thread_start uart_thread_step t"
  shows "reachable uart_thread_start uart_thread_step t'"
  using assms by (induction rule: rtranclp.induct) (auto intro: reach_step)

text \<open>
  C9: no wakeup is lost: wherever the interrupt strikes, when the work queue is idle, bytes in the
  ring have the receive handler scheduled and a waiting payload has the transmit handler scheduled
  or a transfer whose completion will schedule it; and the receive handler, once scheduled, comes to
  its end with every byte received so far parsed.
\<close>

theorem uart_no_lost_wakeup:
  assumes "reachable uart_thread_start uart_thread_step t" and "upc t = U_idle"
  shows "(rx_ring_buf (drv t) \<noteq> [] \<longrightarrow> rx_work_pending (drv t)) \<and>
    (tx_msgq (drv t) \<noteq> [] \<longrightarrow> tx_work_pending (drv t) \<or> inflight t) \<and>
    (rx_work_pending (drv t) \<longrightarrow>
      (\<exists>t'. (\<lambda>a b. uart_thread_step a Work b)\<^sup>*\<^sup>* t t' \<and> upc t' = U_idle \<and> rx_in t' = rx_in t \<and> rx_eaten t' = rx_in t))"
proof -
  have "awake t" using preempted.reachable_inv [OF assms(1)] by (simp add: uart_threads_inv_def)
  moreover have "\<exists>t'. work_run t t' \<and> upc t' = U_idle \<and> rx_in t' = rx_in t \<and> rx_eaten t' = rx_in t"
    if pending: "rx_work_pending (drv t)"
  proof -
    obtain t' where t': "work_run t t'" "upc t' = U_idle" "rx_ring_buf (drv t') = []" "rx_in t' = rx_in t"
      using rx_handler_drains [OF assms(2) pending] by blast
    have "ring_ok t'"
      using preempted.reachable_inv [OF reachable_work_run [OF t'(1) assms(1)]] by (simp add: uart_threads_inv_def)
    then have "rx_eaten t' = rx_in t" using t'(3,4) by (simp add: ring_ok_def)
    with t' show ?thesis by blast
  qed
  ultimately show ?thesis using assms(2) by (simp add: awake_def)
qed

text \<open>
  C22: the frames do not depend on the schedule: as long as no link error and no stall resets the
  receive machine, wherever the interrupt strikes, the bytes are parsed in the order received, none
  lost or repeated between the interrupt and the handler, and the frames delivered are those of the
  bytes parsed. In particular, once the handler is through a stream of frames with noise in between,
  exactly its payloads have been delivered.
\<close>

theorem rx_schedule_independent:
  assumes "reachable uart_thread_start uart_thread_step t" and "resets t = 0" and "upc t = U_idle"
  shows "rx_in t = rx_eaten t @ rx_ring_buf (drv t) \<and>
    rx_out t = fst (rx_run (rx_eaten t) (rx_sm uart_static)) \<and>
    (\<forall>xs. (\<forall>(g, p) \<in> set xs. MESHTASTIC_MAGIC1 \<notin> set g \<and> 1 \<le> length p \<and> length p \<le> 512) \<and>
       rx_in t = concat (map (\<lambda>(g, p). g @ mesh_frame p) xs) \<and> rx_ring_buf (drv t) = [] \<longrightarrow> rx_out t = map snd xs)"
proof -
  have inv: "ring_ok t" "parse_ok t" using preempted.reachable_inv [OF assms(1)] by (simp_all add: uart_threads_inv_def)
  have r: "rx_in t = rx_eaten t @ rx_ring_buf (drv t)" "rx_out t = fst (rx_run (rx_eaten t) (rx_sm uart_static))"
    using inv assms(2,3) by (simp_all add: ring_ok_def parse_ok_def)
  have s: "rx_inv (rx_sm uart_static)" "rx_st (rx_sm uart_static) = RX_WAIT_MAGIC1"
    by (simp_all add: rx_inv_def uart_static_def)
  have "rx_out t = map snd xs"
    if "\<forall>(g, p) \<in> set xs. MESHTASTIC_MAGIC1 \<notin> set g \<and> 1 \<le> length p \<and> length p \<le> 512"
      "rx_in t = concat (map (\<lambda>(g, p). g @ mesh_frame p) xs)" "rx_ring_buf (drv t) = []" for xs
    using rx_run_stream [OF s that(1)] r that(2,3) by simp
  with r show ?thesis by blast
qed

section \<open>A reset that comes too early\<close>

lemma rx_run_partial:
  assumes "rx_st sm = RX_WAIT_PAYLOAD" and "unat (expected_len sm) \<le> 512"
    and "unat (received_len sm) + length bs < unat (expected_len sm)"
  shows "fst (rx_run bs sm) = [] \<and> rx_st (snd (rx_run bs sm)) = RX_WAIT_PAYLOAD"
  using assms
proof (induction bs arbitrary: sm)
  case (Cons b bs)
  let ?sm = "sm\<lparr>rx_payload := (rx_payload sm)[unat (received_len sm) := b], received_len := received_len sm + 1\<rparr>"
  have k: "unat (received_len sm + 1) = Suc (unat (received_len sm))"
    by (rule unat_u16_Suc) (use Cons.prems in simp)
  then have "received_len sm + 1 \<noteq> expected_len sm" using Cons.prems(3) by (auto simp: word_unat_eq_iff)
  then have "rx_process_byte b sm = (None, ?sm)" using Cons.prems(1) by (simp add: rx_process_byte_def Let_def)
  moreover have "fst (rx_run bs ?sm) = [] \<and> rx_st (snd (rx_run bs ?sm)) = RX_WAIT_PAYLOAD"
    by (rule Cons.IH) (use Cons.prems k in simp_all)
  ultimately show ?case by (simp add: split_beta Let_def)
qed simp

lemma rx_run_cut:
  assumes "rx_st sm = RX_WAIT_MAGIC1" and "length q \<le> 512" and "4 \<le> k"
    and "k - 4 + length bs < length q"
  shows "fst (rx_run (take k (mesh_frame q) @ bs) sm) = [] \<and>
    rx_st (snd (rx_run (take k (mesh_frame q) @ bs) sm)) = RX_WAIT_PAYLOAD"
proof -
  let ?len = "of_nat (length q) :: u16"
  let ?sm = "sm\<lparr>expected_len := ?len, received_len := 0, rx_st := RX_WAIT_PAYLOAD\<rparr>"
  have len: "unat ?len = length q" using assms(2) by (simp add: unat_of_nat)
  then have nz: "?len \<noteq> 0" using assms(4) by auto
  obtain j where k: "k = Suc (Suc (Suc (Suc j)))" using assms(3) by (metis add_Suc add_0 less_eqE numeral_eq_Suc pred_numeral_simps(2,3) BitM.simps(1,2))
  have "rx_run (take k (mesh_frame q) @ bs) sm = rx_run (take j q @ bs) ?sm"
    using assms(1,2) len nz
    by (simp add: k mesh_frame_def rx_process_byte_def MESHTASTIC_MAGIC1_def MESHTASTIC_MAGIC2_def
        layout_consts Let_def u16_bytes split: prod.splits)
  moreover have "fst (rx_run (take j q @ bs) ?sm) = [] \<and> rx_st (snd (rx_run (take j q @ bs) ?sm)) = RX_WAIT_PAYLOAD"
    by (rule rx_run_partial) (use assms k len in simp_all)
  ultimately show ?thesis by simp
qed

text \<open>A callback that collects what it is handed.\<close>

definition collect :: "u8 list \<Rightarrow> uart \<times> u8 list list \<Rightarrow> uart \<times> u8 list list" where
  "collect p s = (fst s, snd s @ [p])"

lemma rx_drain_collect:
  "snd (rx_drain (Some collect) bs (u, fs)) = fs @ fst (rx_run bs (rx_sm u)) \<and>
   rx_sm (fst (rx_drain (Some collect) bs (u, fs))) = snd (rx_run bs (rx_sm u))"
proof (induction bs arbitrary: u fs)
  case (Cons b bs)
  obtain f sm where "rx_process_byte b (rx_sm u) = (f, sm)" by fastforce
  with Cons show ?case by (cases f) (simp_all add: collect_def split_beta Let_def)
qed simp

lemma rx_rdy_room:
  assumes "length (rx_ring_buf u) + length d \<le> 2048"
  shows "rx_ring_buf (uart_cb rerr (UART_RX_RDY d) u) = rx_ring_buf u @ d"
    and "rx_sm (uart_cb rerr (UART_RX_RDY d) u) = rx_sm u"
proof -
  have "ring_buf_put (rx_ring_buf u) d = (length d, rx_ring_buf u @ d)"
    using assms by (simp add: ring_buf_put_def layout_consts)
  then show "rx_ring_buf (uart_cb rerr (UART_RX_RDY d) u) = rx_ring_buf u @ d"
    "rx_sm (uart_cb rerr (UART_RX_RDY d) u) = rx_sm u" by (simp_all add: Let_def)
qed

text \<open>How many bytes of a frame the machine has taken; a frame it delivers took four more than its payload.\<close>

fun rx_progress :: "rx_machine \<Rightarrow> nat" where
  "rx_progress sm = (case rx_st sm of RX_WAIT_MAGIC1 \<Rightarrow> 0 | RX_WAIT_MAGIC2 \<Rightarrow> 1 | RX_WAIT_LEN_HI \<Rightarrow> 2
     | RX_WAIT_LEN_LO \<Rightarrow> 3 | RX_WAIT_PAYLOAD \<Rightarrow> 4 + unat (received_len sm))"

lemma rx_progress_step:
  assumes "rx_inv sm" and "rx_process_byte b sm = (f, sm')"
  shows "case f of None \<Rightarrow> rx_progress sm' \<le> rx_progress sm + 1
    | Some p \<Rightarrow> rx_st sm' = RX_WAIT_MAGIC1 \<and> length p + 4 = rx_progress sm + 1"
proof (cases "rx_st sm")
  case RX_WAIT_PAYLOAD
  from rx_payload_step [OF assms(1) this] assms(2) RX_WAIT_PAYLOAD show ?thesis
    by (auto simp: rx_process_byte_def Let_def split: if_splits)
qed (use assms(2) in \<open>auto simp: rx_process_byte_def Let_def split: if_splits\<close>)

lemma rx_run_consumes:
  assumes "rx_inv sm" and "p \<in> set (fst (rx_run bs sm))"
  shows "length p + 4 \<le> rx_progress sm + length bs"
  using assms
proof (induction bs arbitrary: sm)
  case (Cons b bs)
  obtain f sm' where st: "rx_process_byte b sm = (f, sm')" by fastforce
  have inv: "rx_inv sm'" using rx_process_byte_inv [OF Cons.prems(1), of b] st by simp
  from rx_progress_step [OF Cons.prems(1) st] Cons.IH [OF inv] Cons.prems(2) st show ?case
    by (cases f) (fastforce simp: split_beta Let_def simp del: rx_progress.simps, auto simp: split_beta Let_def)
qed simp

text \<open>A frame cut inside its payload and completed by other bytes is a frame of the announced length.\<close>

lemma cut_frame:
  assumes "4 \<le> k" and "k < length q + 4" and "r = length q + 4 - k" and "r \<le> length bs"
  shows "take k (mesh_frame q) @ bs = mesh_frame (take (k - 4) q @ take r bs) @ drop r bs"
    and "length (take (k - 4) q @ take r bs) = length q"
proof -
  obtain j where k: "k = Suc (Suc (Suc (Suc j)))"
    using assms(1) by (metis add_Suc add_0 less_eqE numeral_eq_Suc pred_numeral_simps(2,3) BitM.simps(1,2))
  show len: "length (take (k - 4) q @ take r bs) = length q" using assms by simp
  show "take k (mesh_frame q) @ bs = mesh_frame (take (k - 4) q @ take r bs) @ drop r bs"
    unfolding mesh_frame_def len by (simp add: k)
qed

text \<open>
  C27: the reset on a link error comes too early: the interrupt sets the receive machine back to
  the start of a frame when reception is disabled, but the bytes received before are still in the
  ring, and the handler parses them afterwards. If the error cut a frame short inside its payload,
  the machine takes the bytes that follow for the missing ones. When a good frame follows that is
  shorter than what is missing, it is swallowed whole: nothing is delivered and the machine waits for
  the stall watchdog. When it is as long or longer, a frame nobody sent is delivered, the head of the
  cut one completed with the first bytes of the good one, and of what is parsed after that
  nothing is the good one.
\<close>

theorem reset_overtakes_ring:
  assumes "rx_ring_buf u = []" and "rx_inv (rx_sm u)" and "length q \<le> 512" and "length p \<le> 512"
    and "4 \<le> k" and "k < length q + 4" and "missing = length q + 4 - k"
    and "v = uart_cb r3 (UART_RX_RDY (mesh_frame p)) (uart_cb r2 UART_RX_DISABLED
           (uart_cb r1 (UART_RX_RDY (take k (mesh_frame q))) u))"
    and "rx_work_handler (Some collect) (v, []) = (v', frames)"
  shows "if length (mesh_frame p) < missing
    then frames = [] \<and> rx_st (rx_sm v') = RX_WAIT_PAYLOAD \<and> rx_resync_dwork v' = Some 250
    else \<exists>fs. frames = (take (k - 4) q @ take missing (mesh_frame p)) # fs \<and> p \<notin> set fs"
proof -
  let ?c = "take k (mesh_frame q)" and ?f = "mesh_frame p"
  have len: "length ?c \<le> 516" "length ?f \<le> 516"
    using assms(3,4) by (simp_all add: mesh_frame_def)
  let ?u = "uart_cb r2 UART_RX_DISABLED (uart_cb r1 (UART_RX_RDY ?c) u)"
  have u: "rx_ring_buf ?u = ?c" "rx_st (rx_sm ?u) = RX_WAIT_MAGIC1" "rx_inv (rx_sm ?u)"
    using rx_rdy_room [of u ?c r1] len(1) assms(1,2) by (simp_all add: rx_inv_def del: uart_cb.simps(1))
  have v: "rx_ring_buf v = ?c @ ?f" "rx_st (rx_sm v) = RX_WAIT_MAGIC1" "rx_inv (rx_sm v)"
    using rx_rdy_room [of ?u ?f r3] len u unfolding assms(8) by (simp_all del: uart_cb.simps)
  have drained: "frames = fst (rx_run (?c @ ?f) (rx_sm v))" "rx_sm v' = snd (rx_run (?c @ ?f) (rx_sm v))"
    using assms(9) rx_drain_collect [of "rx_ring_buf v" v "[]"]
    by (auto simp: rx_work_handler_def v(1) Let_def split_beta)
  show ?thesis
  proof (cases "length ?f < missing")
    case True
    then have "k - 4 + length ?f < length q" using assms(5,6,7) by linarith
    from rx_run_cut [OF v(2) assms(3,5) this] drained
    have "frames = [] \<and> rx_st (rx_sm v') = RX_WAIT_PAYLOAD" by simp
    moreover have "rx_resync_dwork v' = Some 250" if "rx_st (rx_sm v') = RX_WAIT_PAYLOAD"
      using assms(9) that by (auto simp: rx_work_handler_def Let_def split_beta RX_RESYNC_TIMEOUT_MS_def split: if_splits)
    ultimately show ?thesis using True by simp
  next
    case False
    let ?q = "take (k - 4) q @ take missing ?f"
    have fr: "?c @ ?f = mesh_frame ?q @ drop missing ?f" and lq: "length ?q = length q"
      using cut_frame [OF assms(5,6,7), of ?f] False by simp_all
    have pos: "0 < missing" "missing \<le> length ?f" using assms(6,7) False by simp_all
    then have "0 < length ?q" by (simp add: mesh_frame_def)
    moreover have "length (rx_payload (rx_sm v)) = 512" using v(3) by (simp add: rx_inv_def layout_consts)
    moreover have "length ?q \<le> 512" unfolding lq by (rule assms(3))
    ultimately obtain sm where sm: "rx_run (mesh_frame ?q) (rx_sm v) = ([?q], sm)" "rx_st sm = RX_WAIT_MAGIC1"
      using rx_run_frame [OF v(2)] by blast
    have inv: "rx_inv sm" using rx_run_inv [OF v(3), of "mesh_frame ?q"] sm(1) by simp
    have frames: "frames = ?q # fst (rx_run (drop missing ?f) sm)"
      unfolding drained fr by (simp add: rx_run_append sm(1) split_beta)
    have "p \<notin> set (fst (rx_run (drop missing ?f) sm))"
    proof
      assume "p \<in> set (fst (rx_run (drop missing ?f) sm))"
      from rx_run_consumes [OF inv this] pos sm(2) show False by (simp add: mesh_frame_def)
    qed
    with frames False show ?thesis by auto
  qed
qed

theorem reset_overtakes_ring_witness:
  "(\<exists>v'. rx_work_handler (Some collect)
      (uart_cb OK (UART_RX_RDY (mesh_frame [42])) (uart_cb OK UART_RX_DISABLED
         (uart_cb OK (UART_RX_RDY (take 6 (mesh_frame (replicate 9 1)))) uart_static)), []) = (v', []) \<and>
     rx_st (rx_sm v') = RX_WAIT_PAYLOAD) \<and>
   (\<exists>v' fs. rx_work_handler (Some collect)
      (uart_cb OK (UART_RX_RDY (mesh_frame [42])) (uart_cb OK UART_RX_DISABLED
         (uart_cb OK (UART_RX_RDY (take 6 (mesh_frame (replicate 4 1)))) uart_static)), []) = (v', [1, 1, 0x94, 0xC3] # fs) \<and>
     [42] \<notin> set fs)"
proof -
  let ?v = "\<lambda>n. uart_cb OK (UART_RX_RDY (mesh_frame [42])) (uart_cb OK UART_RX_DISABLED
         (uart_cb OK (UART_RX_RDY (take 6 (mesh_frame (replicate n 1)))) uart_static))"
  have z: "rx_ring_buf uart_static = []" "rx_inv (rx_sm uart_static)" by (simp_all add: uart_static_def rx_inv_def)
  obtain v1 f1 where r1: "rx_work_handler (Some collect) (?v 9, []) = (v1, f1)" by fastforce
  obtain v2 f2 where r2: "rx_work_handler (Some collect) (?v 4, []) = (v2, f2)" by fastforce
  have "f1 = [] \<and> rx_st (rx_sm v1) = RX_WAIT_PAYLOAD"
    using reset_overtakes_ring [OF z _ _ _ _ refl refl r1] by (simp add: mesh_frame_def)
  moreover have "\<exists>fs. f2 = [1, 1, 0x94, 0xC3] # fs \<and> [42] \<notin> set fs"
    using reset_overtakes_ring [OF z _ _ _ _ refl refl r2]
    by (simp add: mesh_frame_def numeral_eq_Suc MESHTASTIC_MAGIC1_def MESHTASTIC_MAGIC2_def)
  ultimately show ?thesis using r1 r2 by blast
qed

section \<open>A run\<close>

definition uart_zero :: uart_threads where
  "uart_zero = \<lparr>drv = snd (uart_meshtastic_init True True OK OK uart_static), upc = U_idle, inflight = False,
     rx_in = [], rx_eaten = [], rx_out = [], resets = 0, tx_in = [], tx_log = []\<rparr>"

text \<open>A frame has arrived and a payload has been submitted.\<close>

definition uart_rang :: uart_threads where
  "uart_rang = uart_zero\<lparr>drv := uart_cb OK (UART_RX_RDY (mesh_frame [42])) (drv uart_zero), rx_in := mesh_frame [42], resets := 0\<rparr>"

definition uart_asked :: uart_threads where
  "uart_asked = uart_rang\<lparr>drv := snd (uart_meshtastic_tx [7] (drv uart_rang)), tx_in := [[7]]\<rparr>"

lemma uart_zero_simps:
  "rx_ring_buf (drv uart_zero) = []" "tx_msgq (drv uart_zero) = []" "upc uart_zero = U_idle" "resets uart_zero = 0"
  "rx_in uart_zero = []" "tx_in uart_zero = []" "tx_wire (drv uart_zero) = []" "tx_log uart_zero = []"
  by (simp_all add: uart_zero_def uart_meshtastic_init_def uart_static_def Let_def)

lemma uart_asked_simps:
  "rx_ring_buf (drv uart_asked) = mesh_frame [42]" "rx_work_pending (drv uart_asked)" "upc uart_asked = U_idle"
  "resets uart_asked = 0" "rx_in uart_asked = mesh_frame [42]" "tx_msgq (drv uart_asked) = [[7]]" "tx_in uart_asked = [[7]]"
  by (simp_all add: uart_asked_def uart_rang_def uart_zero_simps uart_meshtastic_tx_def ring_buf_put_def layout_consts
      mesh_frame_def Let_def)

lemma uart_asked_reachable: "reachable uart_thread_start uart_thread_step uart_asked"
proof -
  have "uart_thread_start uart_zero" by (auto simp: uart_thread_start_def uart_zero_def)
  then have r: "reachable uart_thread_start uart_thread_step uart_zero" by (rule reach_start)
  have t: "taken (UART_RX_RDY (mesh_frame [42])) (drv uart_zero) = mesh_frame [42]"
    by (simp add: uart_zero_simps ring_buf_put_def layout_consts mesh_frame_def)
  have "uart_thread_step uart_zero Isr uart_rang"
    using isr [of "UART_RX_RDY (mesh_frame [42])" uart_zero OK]
    by (simp add: uart_rang_def t uart_zero_simps del: uart_cb.simps taken.simps)
  with r have r: "reachable uart_thread_start uart_thread_step uart_rang" by (rule reach_step)
  have "tx_msgq (drv uart_rang) = []" "tx_in uart_rang = []"
    by (simp_all add: uart_rang_def uart_zero_simps ring_buf_put_def Let_def)
  then have "uart_thread_step uart_rang App uart_asked"
    using submit [of "[7]" uart_rang OK "snd (uart_meshtastic_tx [7] (drv uart_rang))"]
    by (simp add: uart_asked_def uart_meshtastic_tx_def layout_consts)
  with r show ?thesis by (rule reach_step)
qed

theorem uart_preempted_safe_witness: "length (rx_ring_buf (drv uart_asked)) \<le> 2048 \<and> length (tx_msgq (drv uart_asked)) \<le> 4"
  using uart_preempted_safe [OF uart_asked_reachable] by blast

theorem uart_wire_order_preempted_witness:
  "tx_in uart_asked = map fst (tx_log uart_asked) @ in_hand (upc uart_asked) @ tx_msgq (drv uart_asked)"
  using uart_wire_order_preempted [OF uart_asked_reachable] by blast

theorem uart_no_lost_wakeup_witness:
  "\<exists>t'. (\<lambda>a b. uart_thread_step a Work b)\<^sup>*\<^sup>* uart_asked t' \<and> upc t' = U_idle \<and> rx_eaten t' = mesh_frame [42]"
  using uart_no_lost_wakeup [OF uart_asked_reachable] uart_asked_simps by auto

theorem rx_schedule_independent_witness:
  "\<exists>t. reachable uart_thread_start uart_thread_step t \<and> rx_in t = mesh_frame [42] \<and> rx_out t = [[42]]"
proof -
  obtain t where t: "work_run uart_asked t" "upc t = U_idle" "rx_ring_buf (drv t) = []"
    "rx_in t = mesh_frame [42]" "resets t = 0"
    using rx_handler_drains [of uart_asked] uart_asked_simps by auto
  have r: "reachable uart_thread_start uart_thread_step t" by (rule reachable_work_run [OF t(1) uart_asked_reachable])
  have "\<forall>(g, p) \<in> set [([] :: u8 list, [42 :: u8])]. MESHTASTIC_MAGIC1 \<notin> set g \<and> 1 \<le> length p \<and> length p \<le> 512"
    "rx_in t = concat (map (\<lambda>(g, p). g @ mesh_frame p) [([], [42])])" using t(4) by simp_all
  then have "rx_out t = map snd [([] :: u8 list, [42 :: u8])]" using rx_schedule_independent [OF r t(5,2)] t(3) by blast
  with r t(4) show ?thesis by auto
qed

end
