(* ===== verification/Cache_Threads.thy ===== *)
theory Cache_Threads
  imports Ble_Gatt
begin

text \<open>
  The config cache of \<^verbatim>\<open>src/src/config_cache.c\<close> read by the Bluetooth thread while the work queue writes
  it, without a mutex. Every store of \<open>cache_begin\<close>, \<open>cache_add_frame\<close> and \<open>cache_mark_ready\<close> is a
  step, the copy into the arena one byte at a time; so is every load of a reader, down to the bytes
  it copies out. Loads and stores take effect in program order.

  Two guards come from the callers. The session resets the cache only before it is published
  (\<open>upstream_session_start\<close> and \<open>fetch_retry_handler\<close>, while the first fetch is on), and a phone
  is put into replay only when the session is LIVE or CACHE_READY, after \<open>cache_mark_ready\<close>; frames may
  still be appended later, and those stores race with the readers.
\<close>

section \<open>The writer, one store at a time\<close>

datatype cache_wpc =
    W_idle
  | W_begin nat
  | W_copy "u8 list" fromradio_tag nat
  | W_index "u8 list" fromradio_tag nat
  | W_queuestatus "u8 list" fromradio_tag
  | W_nodeinfo "u8 list" fromradio_tag
  | W_used "u8 list" fromradio_tag
  | W_count "u8 list" fromradio_tag

text \<open>The checks of \<open>cache_add_frame\<close>; a frame that passes them is copied next.\<close>

definition add_check :: "u8 list \<Rightarrow> fromradio_tag \<Rightarrow> cache \<Rightarrow> rc \<times> cache_wpc" where
  "add_check raw variant c =
     (if s_count c \<ge> CONFIG_CACHE_MAX_FRAMES then (Err ENOMEM, W_idle)
      else if s_used c + length raw > CONFIG_CACHE_ARENA_BYTES then (Err ENOMEM, W_idle)
      else (OK, W_copy raw variant 0))"

text \<open>The stores of \<open>cache_begin\<close>, in order.\<close>

definition begin_store :: "nat \<Rightarrow> cache \<Rightarrow> cache \<times> cache_wpc" where
  "begin_store k c =
     (if k = 0 then (c\<lparr>s_ready := False\<rparr>, W_begin 1)
      else if k = 1 then (c\<lparr>s_used := 0\<rparr>, W_begin 2)
      else if k = 2 then (c\<lparr>s_count := 0\<rparr>, W_begin 3)
      else if k = 3 then (c\<lparr>s_queuestatus_idx := -1\<rparr>, W_begin 4)
      else (c\<lparr>s_own_nodeinfo_idx := -1\<rparr>, W_idle))"

text \<open>The stores of \<open>cache_add_frame\<close>: arena, index entry, remembered indices, cursor, count.\<close>

fun add_store :: "cache_wpc \<Rightarrow> cache \<Rightarrow> cache \<times> cache_wpc" where
  "add_store (W_copy raw v j) c =
     (if j < length raw then (c\<lparr>s_arena := (s_arena c)[s_used c + j := raw ! j]\<rparr>, W_copy raw v (j + 1))
      else (c, W_index raw v 0))"
| "add_store (W_index raw v k) c =
     (let r = s_index c ! s_count c in
      if k = 0 then (c\<lparr>s_index := (s_index c)[s_count c := r\<lparr>cf_offset := s_used c\<rparr>]\<rparr>, W_index raw v 1)
      else if k = 1 then (c\<lparr>s_index := (s_index c)[s_count c := r\<lparr>cf_len := length raw\<rparr>]\<rparr>, W_index raw v 2)
      else (c\<lparr>s_index := (s_index c)[s_count c := r\<lparr>cf_variant := v\<rparr>]\<rparr>, W_queuestatus raw v))"
| "add_store (W_queuestatus raw v) c =
     (if v = FromRadio_queueStatus_tag then c\<lparr>s_queuestatus_idx := int (s_count c)\<rparr> else c, W_nodeinfo raw v)"
| "add_store (W_nodeinfo raw v) c =
     (if v = FromRadio_node_info_tag \<and> s_own_nodeinfo_idx c < 0
      then c\<lparr>s_own_nodeinfo_idx := int (s_count c)\<rparr> else c, W_used raw v)"
| "add_store (W_used raw v) c = (c\<lparr>s_used := s_used c + length raw\<rparr>, W_count raw v)"
| "add_store (W_count raw v) c = (c\<lparr>s_count := s_count c + 1\<rparr>, W_idle)"
| "add_store pc c = (c, pc)"

section \<open>The reader, one load at a time\<close>

text \<open>
  The replay branch of \<open>fromradio_read\<close>: the number of frames, the loop over the segment test, the
  reference, the copy, the length. The result is the cursor, the bytes copied and the staged length.
\<close>

datatype cache_rpc =
    R_idle
  | R_ready
  | R_loop nat
  | R_test nat
  | R_variant nat
  | R_own nat
  | R_at nat
  | R_offset nat
  | R_len nat nat
  | R_copy nat nat nat "u8 list"
  | R_size nat "u8 list"
  | R_done "(nat \<times> u8 list \<times> nat) option"

definition read_load :: "u32 \<Rightarrow> nat \<Rightarrow> cache_rpc \<Rightarrow> cache \<Rightarrow> cache_rpc" where
  "read_load nonce n pc c =
     (case pc of
        R_loop i \<Rightarrow> if i < n then R_test i else R_done None
      | R_test i \<Rightarrow> if i \<ge> s_count c then R_loop (i + 1) else R_variant i
      | R_variant i \<Rightarrow>
          let variant = cf_variant (s_index c ! i); is_nodeinfo = (variant = FromRadio_node_info_tag) in
          if variant = FromRadio_config_complete_id_tag then R_loop (i + 1)
          else if nonce = MESH_NONCE_ONLY_NODES then (if is_nodeinfo then R_at i else R_loop (i + 1))
          else if nonce = MESH_NONCE_ONLY_CONFIG \<and> is_nodeinfo then R_own i
          else R_at i
      | R_own i \<Rightarrow> if int i \<noteq> s_own_nodeinfo_idx c then R_loop (i + 1) else R_at i
      | R_at i \<Rightarrow> if i \<ge> s_count c then R_done (Some (i, [], 0)) else R_offset i
      | R_offset i \<Rightarrow> R_len i (cf_offset (s_index c ! i))
      | R_len i off \<Rightarrow> R_copy i off (cf_len (s_index c ! i)) []
      | R_copy i off l bs \<Rightarrow>
          if length bs < l then R_copy i off l (bs @ [s_arena c ! (off + length bs)]) else R_size i bs
      | R_size i bs \<Rightarrow> R_done (Some (i, bs, cf_len (s_index c ! i)))
      | _ \<Rightarrow> pc)"

section \<open>The system\<close>

text \<open>
  Besides the cache and the two program points: what the reader was asked (start of the search and
  nonce) and the number of frames it loaded; and two history variables, the cache as the last
  complete operation of the writer left it, and that cache at the moment the reader loaded the
  number of frames.
\<close>

record cache_threads =
  ct_cache :: cache
  ct_w :: cache_wpc
  ct_r :: cache_rpc
  ct_start :: nat
  ct_nonce :: u32
  ct_n :: nat
  ct_base :: cache
  ct_snap :: cache

datatype cache_thread = Writer | Reader

inductive cache_step :: "cache_threads \<Rightarrow> cache_thread \<Rightarrow> cache_threads \<Rightarrow> bool" where
  w_begin: "ct_w t = W_idle \<Longrightarrow> \<not> s_ready (ct_cache t) \<Longrightarrow> cache_step t Writer (t\<lparr>ct_w := W_begin 0\<rparr>)"
| w_reset: "ct_w t = W_begin k \<Longrightarrow> begin_store k (ct_cache t) = (c, pc) \<Longrightarrow>
    cache_step t Writer (t\<lparr>ct_cache := c, ct_w := pc, ct_base := (if pc = W_idle then c else ct_base t)\<rparr>)"
| w_add: "ct_w t = W_idle \<Longrightarrow> add_check raw v (ct_cache t) = (r, pc) \<Longrightarrow> cache_step t Writer (t\<lparr>ct_w := pc\<rparr>)"
| w_store: "add_store (ct_w t) (ct_cache t) = (c, pc) \<Longrightarrow> ct_w t \<noteq> W_idle \<Longrightarrow> (\<forall>k. ct_w t \<noteq> W_begin k) \<Longrightarrow>
    cache_step t Writer (t\<lparr>ct_cache := c, ct_w := pc, ct_base := (if pc = W_idle then c else ct_base t)\<rparr>)"
| w_publish: "ct_w t = W_idle \<Longrightarrow>
    cache_step t Writer (t\<lparr>ct_cache := cache_mark_ready (ct_cache t), ct_base := cache_mark_ready (ct_cache t)\<rparr>)"
| r_start: "ct_r t = R_idle \<or> ct_r t = R_done r \<Longrightarrow> cache_is_ready (ct_cache t) \<Longrightarrow>
    cache_step t Reader (t\<lparr>ct_r := R_ready, ct_start := i, ct_nonce := nonce\<rparr>)"
| r_count: "ct_r t = R_ready \<Longrightarrow>
    cache_step t Reader (t\<lparr>ct_r := R_loop (ct_start t), ct_n := cache_frame_count (ct_cache t), ct_snap := ct_base t\<rparr>)"
| r_load: "read_load (ct_nonce t) (ct_n t) (ct_r t) (ct_cache t) = pc \<Longrightarrow> ct_r t \<noteq> R_idle \<Longrightarrow> ct_r t \<noteq> R_ready \<Longrightarrow>
    cache_step t Reader (t\<lparr>ct_r := pc\<rparr>)"

definition cache_start :: "cache_threads \<Rightarrow> bool" where
  "cache_start t \<longleftrightarrow> ct_cache t = cache_static \<and> ct_base t = cache_static \<and> ct_w t = W_idle \<and> ct_r t = R_idle"

text \<open>What the reader gets from a cache nobody writes.\<close>

definition replay_read :: "cache \<Rightarrow> u32 \<Rightarrow> nat \<Rightarrow> (nat \<times> u8 list \<times> nat) option" where
  "replay_read c nonce i =
     (let n = cache_frame_count c; k = skip_frames c nonce n i in
      if k < n then Some (k, take (cf_len (s_index c ! k)) (drop (cf_offset (s_index c ! k)) (s_arena c)), cf_len (s_index c ! k))
      else None)"

text \<open>It is what \<open>fromradio_read\<close> stages.\<close>

lemma replay_read_staged:
  assumes "pc_state pc = PHONE_REPLAYING" and "replay_read c (pc_nonce pc) (pc_replay_cursor pc) = Some (k, bs, l)"
  shows "stage_next c pc = (stage_bytes bs pc)\<lparr>pc_replay_cursor := k + 1\<rparr>"
proof -
  let ?k = "skip_frames c (pc_nonce pc) (s_count c) (pc_replay_cursor pc)"
  have k: "?k < s_count c" "k = ?k" "bs = take (cf_len (s_index c ! ?k)) (drop (cf_offset (s_index c ! ?k)) (s_arena c))"
    using assms(2) unfolding replay_read_def cache_frame_count_def Let_def by (metis option.distinct(1) option.inject prod.inject)+
  have "stage_next c pc = (stage_bytes bs (pc\<lparr>pc_replay_cursor := ?k\<rparr>))\<lparr>pc_replay_cursor := ?k + 1\<rparr>"
    using k(1) assms(1)
    by (simp add: stage_next_def Let_def cache_frame_at_def cache_frame_bytes_def cache_frame_count_def k(3) stage_bytes_def)
  then show ?thesis by (simp add: k(2) stage_bytes_def)
qed

section \<open>The invariant\<close>

text \<open>A cache being written has a snapshot of itself as its beginning.\<close>

definition extends :: "cache \<Rightarrow> cache \<Rightarrow> bool" where
  "extends c s \<longleftrightarrow> s_count s \<le> s_count c \<and> s_used s \<le> s_used c \<and> (\<forall>i < s_count s. s_index c ! i = s_index s ! i) \<and>
     take (s_used s) (s_arena c) = take (s_used s) (s_arena s) \<and>
     (0 \<le> s_own_nodeinfo_idx s \<longrightarrow> s_own_nodeinfo_idx c = s_own_nodeinfo_idx s)"

text \<open>How far the writer is: the cache it leaves behind, from the one it started with.\<close>

definition noted :: "fromradio_tag \<Rightarrow> bool \<Rightarrow> bool \<Rightarrow> cache \<Rightarrow> cache" where
  "noted v q p b = b\<lparr>s_queuestatus_idx := (if q \<and> v = FromRadio_queueStatus_tag then int (s_count b) else s_queuestatus_idx b),
     s_own_nodeinfo_idx := (if p \<and> v = FromRadio_node_info_tag \<and> s_own_nodeinfo_idx b < 0 then int (s_count b)
       else s_own_nodeinfo_idx b)\<rparr>"

definition entered :: "u8 list \<Rightarrow> fromradio_tag \<Rightarrow> nat \<Rightarrow> cache \<Rightarrow> cache" where
  "entered raw v k b = b\<lparr>s_arena := memcpy_at (s_arena b) (s_used b) raw,
     s_index := (s_index b)[s_count b := \<lparr>cf_offset = (if 0 < k then s_used b else cf_offset (s_index b ! s_count b)),
       cf_len = (if 1 < k then length raw else cf_len (s_index b ! s_count b)),
       cf_variant = (if 2 < k then v else cf_variant (s_index b ! s_count b))\<rparr>]\<rparr>"

fun stage :: "cache_wpc \<Rightarrow> cache \<Rightarrow> cache" where
  "stage W_idle b = b"
| "stage (W_begin k) b = b\<lparr>s_ready := (if 0 < k then False else s_ready b), s_used := (if 1 < k then 0 else s_used b),
     s_count := (if 2 < k then 0 else s_count b), s_queuestatus_idx := (if 3 < k then -1 else s_queuestatus_idx b)\<rparr>"
| "stage (W_copy raw v j) b = b\<lparr>s_arena := memcpy_at (s_arena b) (s_used b) (take j raw)\<rparr>"
| "stage (W_index raw v k) b = entered raw v k b"
| "stage (W_queuestatus raw v) b = entered raw v 3 b"
| "stage (W_nodeinfo raw v) b = noted v True False (entered raw v 3 b)"
| "stage (W_used raw v) b = noted v True True (entered raw v 3 b)"
| "stage (W_count raw v) b = (noted v True True (entered raw v 3 b))\<lparr>s_used := s_used b + length raw\<rparr>"

definition roomy :: "u8 list \<Rightarrow> cache \<Rightarrow> bool" where
  "roomy raw b \<longleftrightarrow> s_count b < CONFIG_CACHE_MAX_FRAMES \<and> s_used b + length raw \<le> CONFIG_CACHE_ARENA_BYTES"

fun writing_ok :: "cache_wpc \<Rightarrow> cache \<Rightarrow> bool" where
  "writing_ok W_idle b \<longleftrightarrow> True"
| "writing_ok (W_begin k) b \<longleftrightarrow> k \<le> 4 \<and> \<not> s_ready b"
| "writing_ok (W_copy raw v j) b \<longleftrightarrow> roomy raw b \<and> j \<le> length raw"
| "writing_ok (W_index raw v k) b \<longleftrightarrow> roomy raw b \<and> k \<le> 2"
| "writing_ok (W_queuestatus raw v) b \<longleftrightarrow> roomy raw b"
| "writing_ok (W_nodeinfo raw v) b \<longleftrightarrow> roomy raw b"
| "writing_ok (W_used raw v) b \<longleftrightarrow> roomy raw b"
| "writing_ok (W_count raw v) b \<longleftrightarrow> roomy raw b"

definition writer_ok :: "cache_threads \<Rightarrow> bool" where
  "writer_ok t \<longleftrightarrow> cache_inv (ct_base t) \<and> writing_ok (ct_w t) (ct_base t) \<and> ct_cache t = stage (ct_w t) (ct_base t)"

section \<open>The writer\<close>

lemma memcpy_next:
  assumes "j < length src" and "off + length src \<le> length dst"
  shows "(memcpy_at dst off (take j src))[off + j := src ! j] = memcpy_at dst off (take (Suc j) src)"
proof -
  have d: "drop (off + j) dst = dst ! (off + j) # drop (off + Suc j) dst"
    using assms by (metis Cons_nth_drop_Suc add_Suc_right add_less_cancel_left less_le_trans)
  have "min (length dst) off = off" "min (length src) j = j" using assms by simp_all
  then show ?thesis
    using assms by (simp add: memcpy_at_def list_update_append take_Suc_conv_app_nth d)
qed

lemma entered_nothing: "entered raw v 0 b = b\<lparr>s_arena := memcpy_at (s_arena b) (s_used b) raw\<rparr>"
proof -
  have "\<lparr>cf_offset = cf_offset r, cf_len = cf_len r, cf_variant = cf_variant r\<rparr> = r" for r :: cache_frame_ref by simp
  then show ?thesis by (simp only: entered_def less_irrefl not_less_zero if_False list_update_id) simp
qed

lemma add_store_stage:
  assumes "cache_inv b" and "writing_ok pc b" and "add_store pc (stage pc b) = (c, pc')"
    and "pc \<noteq> W_idle" and "\<forall>k. pc \<noteq> W_begin k"
  shows "if pc' = W_idle then \<exists>raw v. pc = W_count raw v \<and> c = snd (cache_add_frame raw v b)
    else writing_ok pc' b \<and> c = stage pc' b"
proof (cases pc)
  case (W_copy raw v j)
  have "s_used b + length raw \<le> length (s_arena b)" using assms(1,2) W_copy by (simp add: roomy_def cache_inv_def)
  then show ?thesis
    using assms(2,3) W_copy memcpy_next [of j raw "s_used b" "s_arena b"]
    by (cases "j < length raw") (auto simp: entered_nothing)
next
  case (W_index raw v k)
  have i: "s_count b < length (s_index b)" using assms(1,2) W_index by (simp add: roomy_def cache_inv_def)
  have "k = 0 \<or> k = 1 \<or> k = 2" using assms(2) W_index by auto
  then show ?thesis using assms(2,3) W_index i by (auto simp: entered_def Let_def numeral_eq_Suc)
next
  case (W_count raw v)
  then have room: "\<not> CONFIG_CACHE_MAX_FRAMES \<le> s_count b" "\<not> CONFIG_CACHE_ARENA_BYTES < s_used b + length raw"
    using assms(2) by (simp_all add: roomy_def)
  have "c = snd (cache_add_frame raw v b)"
    using assms(3) W_count room by (auto simp: cache_add_frame_def noted_def entered_def Let_def)
  then show ?thesis using assms(3) W_count by auto
qed (use assms(2-5) in \<open>auto simp: noted_def entered_def\<close>)

lemma begin_store_stage:
  assumes "k \<le> 4" and "begin_store k (stage (W_begin k) b) = (c, pc')" and "\<not> s_ready b"
  shows "if pc' = W_idle then c = cache_begin b else writing_ok pc' b \<and> c = stage pc' b"
proof -
  have "k = 0 \<or> k = 1 \<or> k = 2 \<or> k = 3 \<or> k = 4" using assms(1) by auto
  then show ?thesis using assms(2,3) by (auto simp: begin_store_def cache_begin_def)
qed

text \<open>Every store of the writer is beyond what a snapshot holds.\<close>

lemma add_store_extends:
  assumes "extends c s" and "add_store pc c = (c', pc')"
  shows "extends c' s"
  using assms by (cases pc) (auto simp: extends_def Let_def split: if_splits)

lemma extends_stage:
  assumes "cache_inv b" and "writing_ok pc b" and "\<forall>k. pc \<noteq> W_begin k"
  shows "extends (stage pc b) b" and "s_count (stage pc b) = s_count b" and "s_ready (stage pc b) = s_ready b"
proof -
  have m: "take (s_used b) (memcpy_at (s_arena b) (s_used b) x) = take (s_used b) (s_arena b)" if "s_used b \<le> length (s_arena b)" for x
    using that by (simp add: memcpy_at_def)
  have u: "s_used b \<le> length (s_arena b)" using assms(1) by (simp add: cache_inv_def)
  show "extends (stage pc b) b" using assms(3) m [OF u]
    by (cases pc) (auto simp: extends_def entered_def noted_def)
  show "s_count (stage pc b) = s_count b" "s_ready (stage pc b) = s_ready b"
    using assms(3) by (cases pc; simp add: entered_def noted_def)+
qed

section \<open>The reader\<close>

lemma ref_stored: "cache_inv s \<Longrightarrow> k < s_count s \<Longrightarrow> s_index s ! k \<in> set (refs s)"
  by (auto simp: refs_def cache_inv_def in_set_conv_nth)

lemma extends_frame:
  assumes "cache_inv s" and "extends c s" and "k < s_count s"
  shows "bslice (cf_offset (s_index s ! k)) (cf_len (s_index s ! k)) (s_arena c) =
      bslice (cf_offset (s_index s ! k)) (cf_len (s_index s ! k)) (s_arena s)"
    and "cf_offset (s_index s ! k) + cf_len (s_index s ! k) \<le> s_used s"
proof -
  let ?r = "s_index s ! k"
  have "?r \<in> set (refs s)" by (rule ref_stored [OF assms(1,3)])
  then show u: "cf_offset ?r + cf_len ?r \<le> s_used s" using refs_in_arena [OF assms(1)] by blast
  have e: "bslice (cf_offset ?r) (cf_len ?r) xs = drop (cf_offset ?r) (take (cf_offset ?r + cf_len ?r) (take (s_used s) xs))" for xs :: "u8 list"
    using u by (simp add: bslice_def take_drop min_absorb1 add.commute)
  have "take (s_used s) (s_arena c) = take (s_used s) (s_arena s)" using assms(2) by (simp add: extends_def)
  then show "bslice (cf_offset ?r) (cf_len ?r) (s_arena c) = bslice (cf_offset ?r) (cf_len ?r) (s_arena s)"
    by (simp only: e)
qed

text \<open>A node_info below the count has made the remembered index final.\<close>

lemma own_nodeinfo_known:
  assumes "cache_inv s" and "k < s_count s" and "cf_variant (s_index s ! k) = FromRadio_node_info_tag"
  shows "0 \<le> s_own_nodeinfo_idx s"
proof -
  have "v \<in> set ts \<Longrightarrow> 0 \<le> first_idx v n ts" for v n and ts :: "fromradio_tag list"
    by (induction v n ts rule: first_idx.induct) auto
  moreover have "FromRadio_node_info_tag \<in> set (map cf_variant (refs s))"
    using ref_stored [OF assms(1,2)] assms(3) by force
  ultimately show ?thesis using assms(1) by (simp add: cache_inv_def)
qed

text \<open>Where the reader is, in terms of the snapshot it works on.\<close>

definition same_search :: "cache \<Rightarrow> u32 \<Rightarrow> nat \<Rightarrow> nat \<Rightarrow> bool" where
  "same_search s nonce i k \<longleftrightarrow> skip_frames s nonce (s_count s) i = skip_frames s nonce (s_count s) k"

definition found :: "cache \<Rightarrow> u32 \<Rightarrow> nat \<Rightarrow> nat \<Rightarrow> bool" where
  "found s nonce i k \<longleftrightarrow> k < s_count s \<and> skip_frames s nonce (s_count s) i = k"

fun reading_ok :: "cache_rpc \<Rightarrow> cache \<Rightarrow> u32 \<Rightarrow> nat \<Rightarrow> bool" where
  "reading_ok (R_loop k) s nonce i \<longleftrightarrow> same_search s nonce i k"
| "reading_ok (R_test k) s nonce i \<longleftrightarrow> same_search s nonce i k \<and> k < s_count s"
| "reading_ok (R_variant k) s nonce i \<longleftrightarrow> same_search s nonce i k \<and> k < s_count s"
| "reading_ok (R_own k) s nonce i \<longleftrightarrow> same_search s nonce i k \<and> k < s_count s \<and>
     nonce = MESH_NONCE_ONLY_CONFIG \<and> cf_variant (s_index s ! k) = FromRadio_node_info_tag"
| "reading_ok (R_at k) s nonce i \<longleftrightarrow> found s nonce i k"
| "reading_ok (R_offset k) s nonce i \<longleftrightarrow> found s nonce i k"
| "reading_ok (R_len k off) s nonce i \<longleftrightarrow> found s nonce i k \<and> off = cf_offset (s_index s ! k)"
| "reading_ok (R_copy k off l bs) s nonce i \<longleftrightarrow> found s nonce i k \<and> off = cf_offset (s_index s ! k) \<and>
     l = cf_len (s_index s ! k) \<and> length bs \<le> l \<and> bs = bslice off (length bs) (s_arena s)"
| "reading_ok (R_size k bs) s nonce i \<longleftrightarrow> found s nonce i k \<and>
     bs = bslice (cf_offset (s_index s ! k)) (cf_len (s_index s ! k)) (s_arena s)"
| "reading_ok (R_done r) s nonce i \<longleftrightarrow> r = replay_read s nonce i"
| "reading_ok pc s nonce i \<longleftrightarrow> True"

lemma search_skip:
  assumes "same_search s nonce i k" and "k < s_count s" and "\<not> cache_frame_in_segment k nonce s"
  shows "same_search s nonce i (k + 1)"
  using assms by (simp add: same_search_def skip_frames.simps [of s nonce "s_count s" k])

lemma search_hit:
  assumes "same_search s nonce i k" and "k < s_count s" and "cache_frame_in_segment k nonce s"
  shows "found s nonce i k"
  using assms by (simp add: same_search_def found_def skip_frames.simps [of s nonce "s_count s" k])

lemma copy_next:
  assumes "cache_inv s" and "extends c s" and "k < s_count s" and "l < cf_len (s_index s ! k)"
    and "off = cf_offset (s_index s ! k)"
  shows "bslice off l (s_arena s) @ [s_arena c ! (off + l)] = bslice off (Suc l) (s_arena s)"
proof -
  note f = extends_frame [OF assms(1-3)]
  have u: "off + l < s_used s" "s_used s \<le> length (s_arena s)" using f(2) assms(1,4,5) by (simp_all add: cache_inv_def)
  have "s_arena c ! (off + l) = take (s_used s) (s_arena c) ! (off + l)" using u(1) by simp
  also have "\<dots> = s_arena s ! (off + l)" using assms(2) u(1) by (simp add: extends_def)
  finally show ?thesis using u by (simp add: bslice_def take_Suc_conv_app_nth)
qed

text \<open>Every load returns what the snapshot has.\<close>

lemma read_load_ok:
  assumes "cache_inv s" and "extends c s" and "reading_ok pc s nonce i"
  shows "reading_ok (read_load nonce (s_count s) pc c) s nonce i"
proof -
  have n: "s_count s \<le> s_count c" using assms(2) by (simp add: extends_def)
  have ix: "k < s_count s \<Longrightarrow> s_index c ! k = s_index s ! k" for k using assms(2) by (simp add: extends_def)
  show ?thesis
  proof (cases pc)
    case (R_loop k)
    then have k: "same_search s nonce i k" using assms(3) by simp
    show ?thesis
    proof (cases "k < s_count s")
      case False
      then have "skip_frames s nonce (s_count s) i = k"
        using k by (simp add: same_search_def skip_frames.simps [of s nonce "s_count s" k])
      then show ?thesis using R_loop False by (simp add: read_load_def replay_read_def cache_frame_count_def)
    qed (use R_loop k in \<open>simp add: read_load_def\<close>)
  next
    case (R_variant k)
    then have k: "same_search s nonce i k" "k < s_count s" using assms(3) by simp_all
    have seg: "cache_frame_in_segment k nonce s \<longleftrightarrow> cf_variant (s_index s ! k) \<noteq> FromRadio_config_complete_id_tag \<and>
        (if nonce = MESH_NONCE_ONLY_NODES then cf_variant (s_index s ! k) = FromRadio_node_info_tag
         else nonce = MESH_NONCE_ONLY_CONFIG \<and> cf_variant (s_index s ! k) = FromRadio_node_info_tag \<longrightarrow>
           int k = s_own_nodeinfo_idx s)"
      using k(2) by (auto simp: cache_frame_in_segment_def Let_def)
    show ?thesis
      using R_variant k ix [OF k(2)] search_skip [OF k] search_hit [OF k] seg
      by (auto simp: read_load_def Let_def)
  next
    case (R_own k)
    then have k: "same_search s nonce i k" "k < s_count s" and v: "nonce = MESH_NONCE_ONLY_CONFIG"
        "cf_variant (s_index s ! k) = FromRadio_node_info_tag" using assms(3) by auto
    have "s_own_nodeinfo_idx c = s_own_nodeinfo_idx s"
      using own_nodeinfo_known [OF assms(1) k(2) v(2)] assms(2) by (simp add: extends_def)
    moreover have "cache_frame_in_segment k nonce s \<longleftrightarrow> int k = s_own_nodeinfo_idx s"
      using k(2) v by (simp add: cache_frame_in_segment_def MESH_NONCE_ONLY_CONFIG_def MESH_NONCE_ONLY_NODES_def)
    ultimately show ?thesis using R_own search_skip [OF k] search_hit [OF k] by (simp add: read_load_def)
  next
    case (R_copy k off l bs)
    then have f: "k < s_count s" "off = cf_offset (s_index s ! k)" "l = cf_len (s_index s ! k)" "length bs \<le> l"
      "bs = bslice off (length bs) (s_arena s)" "found s nonce i k"
      using assms(3) by (auto simp: found_def)
    show ?thesis
    proof (cases "length bs < l")
      case True
      let ?bs = "bs @ [s_arena c ! (off + length bs)]"
      have "?bs = bslice off (length ?bs) (s_arena s)"
        using copy_next [OF assms(1,2) f(1) _ f(2), of "length bs"] True f(3,5) by (metis length_append_singleton)
      moreover have "length ?bs \<le> l" using True by simp
      ultimately have "reading_ok (R_copy k off l ?bs) s nonce i" using f(2,3,6) by (simp only: reading_ok.simps)
      then show ?thesis using R_copy True by (simp add: read_load_def del: reading_ok.simps)
    next
      case False
      then have "length bs = l" using f(4) by simp
      then show ?thesis using R_copy f False by (simp add: read_load_def)
    qed
  next
    case (R_size k bs)
    then have f: "found s nonce i k" "bs = bslice (cf_offset (s_index s ! k)) (cf_len (s_index s ! k)) (s_arena s)"
      using assms(3) by simp_all
    then show ?thesis
      using R_size ix [of k] by (simp add: read_load_def found_def replay_read_def cache_frame_count_def bslice_def Let_def)
  qed (use assms(3) n ix in \<open>auto simp: read_load_def found_def bslice_def\<close>)
qed

definition reader_ok :: "cache_threads \<Rightarrow> bool" where
  "reader_ok t \<longleftrightarrow> ct_r t = R_idle \<or>
     s_ready (ct_cache t) \<and>
     (ct_r t = R_ready \<or>
      cache_inv (ct_snap t) \<and> extends (ct_cache t) (ct_snap t) \<and> ct_n t = s_count (ct_snap t) \<and>
      reading_ok (ct_r t) (ct_snap t) (ct_nonce t) (ct_start t))"

definition cache_threads_inv :: "cache_threads \<Rightarrow> bool" where
  "cache_threads_inv t \<longleftrightarrow> writer_ok t \<and> reader_ok t"

lemma writer_store_ok:
  assumes "cache_threads_inv t" and "add_store (ct_w t) (ct_cache t) = (c, pc)" and "ct_w t \<noteq> W_idle"
    and "\<forall>k. ct_w t \<noteq> W_begin k"
  shows "cache_threads_inv (t\<lparr>ct_cache := c, ct_w := pc, ct_base := (if pc = W_idle then c else ct_base t)\<rparr>)"
proof -
  have w: "cache_inv (ct_base t)" "writing_ok (ct_w t) (ct_base t)" "ct_cache t = stage (ct_w t) (ct_base t)"
    using assms(1) by (simp_all add: cache_threads_inv_def writer_ok_def)
  note st = add_store_stage [OF w(1,2) assms(2) [unfolded w(3)] assms(3,4)]
  have ready: "s_ready c = s_ready (ct_cache t)"
    using assms(2) by (cases "ct_w t") (auto simp: Let_def split: if_splits)
  have "writer_ok (t\<lparr>ct_cache := c, ct_w := pc, ct_base := (if pc = W_idle then c else ct_base t)\<rparr>)"
  proof (cases "pc = W_idle")
    case True
    then obtain raw v where "c = snd (cache_add_frame raw v (ct_base t))" using st by auto
    then show ?thesis using True cache_add_inv [OF w(1), of raw v] by (simp add: writer_ok_def)
  qed (use st w in \<open>simp add: writer_ok_def\<close>)
  moreover have "reader_ok (t\<lparr>ct_cache := c, ct_w := pc, ct_base := (if pc = W_idle then c else ct_base t)\<rparr>)"
    using assms(1) add_store_extends [OF _ assms(2)] ready by (auto simp: cache_threads_inv_def reader_ok_def)
  ultimately show ?thesis by (simp add: cache_threads_inv_def)
qed

lemma writer_reset_ok:
  assumes "cache_threads_inv t" and "ct_w t = W_begin k" and "begin_store k (ct_cache t) = (c, pc)"
  shows "cache_threads_inv (t\<lparr>ct_cache := c, ct_w := pc, ct_base := (if pc = W_idle then c else ct_base t)\<rparr>)"
proof -
  have w: "cache_inv (ct_base t)" "k \<le> 4" "\<not> s_ready (ct_base t)" "ct_cache t = stage (W_begin k) (ct_base t)"
    using assms(1,2) by (simp_all add: cache_threads_inv_def writer_ok_def)
  note st = begin_store_stage [OF w(2) assms(3) [unfolded w(4)] w(3)]
  have "\<not> s_ready (ct_cache t)" using w(3,4) by simp
  then have "ct_r t = R_idle" using assms(1) by (simp add: cache_threads_inv_def reader_ok_def)
  moreover have "writer_ok (t\<lparr>ct_cache := c, ct_w := pc, ct_base := (if pc = W_idle then c else ct_base t)\<rparr>)"
  proof (cases "pc = W_idle")
    case True
    then have "c = cache_begin (ct_base t)" using st by simp
    then show ?thesis
      using True cache_begin_inv(1) [of "ct_base t"] cache_inv_sizes [OF w(1)] by (simp add: writer_ok_def)
  qed (use st w(1) in \<open>simp add: writer_ok_def\<close>)
  ultimately show ?thesis by (simp add: cache_threads_inv_def reader_ok_def)
qed

lemma extends_ready [simp]: "extends (cache_mark_ready c) s = extends c s"
  by (simp add: extends_def cache_mark_ready_def)

lemma add_check_room: "add_check raw v c = (r, pc) \<Longrightarrow> writing_ok pc c \<and> stage pc c = c"
  by (auto simp: add_check_def roomy_def memcpy_at_def split: if_splits)

interpretation publication: safe_system cache_start cache_step cache_threads_inv
proof
  show "cache_threads_inv t" if "cache_start t" for t
    using that cache_static_inv by (simp add: cache_start_def cache_threads_inv_def writer_ok_def reader_ok_def)
  show "cache_threads_inv t'" if inv: "cache_threads_inv t" and step: "cache_step t e t'" for t e t'
    using step
  proof cases
    case w_begin
    then show ?thesis using inv by (simp add: cache_threads_inv_def writer_ok_def reader_ok_def)
  next
    case (w_reset k c pc)
    then show ?thesis using writer_reset_ok [OF inv] by blast
  next
    case (w_add raw v r pc)
    have "ct_cache t = ct_base t" using inv w_add by (simp add: cache_threads_inv_def writer_ok_def)
    with add_check_room [OF w_add(4)] have "writing_ok pc (ct_base t)" "stage pc (ct_base t) = ct_cache t" by simp_all
    then show ?thesis using inv w_add(2) by (auto simp: cache_threads_inv_def writer_ok_def reader_ok_def)
  next
    case (w_store c pc)
    then show ?thesis using writer_store_ok [OF inv] by blast
  next
    case w_publish
    then show ?thesis
      using inv by (auto simp: cache_threads_inv_def writer_ok_def reader_ok_def) (simp_all add: cache_mark_ready_def)
  next
    case (r_start r i nonce)
    then show ?thesis using inv by (auto simp: cache_threads_inv_def writer_ok_def reader_ok_def cache_is_ready_def)
  next
    case r_count
    have w: "cache_inv (ct_base t)" "writing_ok (ct_w t) (ct_base t)" "ct_cache t = stage (ct_w t) (ct_base t)"
      using inv by (simp_all add: cache_threads_inv_def writer_ok_def)
    have ready: "s_ready (ct_cache t)" using inv r_count by (simp add: cache_threads_inv_def reader_ok_def)
    then have "\<forall>k. ct_w t \<noteq> W_begin k" using w(2,3) by (auto split: if_splits)
    from extends_stage [OF w(1,2) this] show ?thesis
      using inv r_count ready w(1,3)
      by (simp add: cache_threads_inv_def writer_ok_def reader_ok_def cache_frame_count_def same_search_def)
  next
    case (r_load pc)
    then have r: "s_ready (ct_cache t)" "cache_inv (ct_snap t)" "extends (ct_cache t) (ct_snap t)"
      "ct_n t = s_count (ct_snap t)" "reading_ok (ct_r t) (ct_snap t) (ct_nonce t) (ct_start t)"
      using inv by (auto simp: cache_threads_inv_def reader_ok_def)
    have "reading_ok pc (ct_snap t) (ct_nonce t) (ct_start t)"
      using read_load_ok [OF r(2,3,5)] r_load r(4) by simp
    then show ?thesis using inv r r_load(1,2) by (simp add: cache_threads_inv_def writer_ok_def reader_ok_def)
  qed
qed

section \<open>What a reader sees\<close>

text \<open>
  C10: a phone that reads the config never sees a frame half written. The read takes no lock and its
  loads may interleave in any way with the stores of frames the work queue appends; yet once the
  cache is published the result is the one an undisturbed read would have had at the moment it loaded
  the number of frames, and that moment's cache is well-formed: the frame skipped to, its bytes
  whole, its length.
\<close>

theorem cache_reads_atomic:
  assumes "reachable cache_start cache_step t" and "ct_r t = R_done r"
  shows "r = replay_read (ct_snap t) (ct_nonce t) (ct_start t) \<and> cache_inv (ct_snap t) \<and>
    (\<forall>k bs l. r = Some (k, bs, l) \<longrightarrow> k < length (frames (ct_snap t)) \<and> bs = snd (frames (ct_snap t) ! k) \<and> l = length bs)"
proof -
  have inv: "cache_inv (ct_snap t)" "r = replay_read (ct_snap t) (ct_nonce t) (ct_start t)"
    using publication.reachable_inv [OF assms(1)] assms(2) by (simp_all add: cache_threads_inv_def reader_ok_def)
  have "k < length (frames (ct_snap t)) \<and> bs = snd (frames (ct_snap t) ! k) \<and> l = length bs" if "r = Some (k, bs, l)" for k bs l
  proof -
    let ?r = "s_index (ct_snap t) ! k"
    have k: "k < s_count (ct_snap t)" "bs = bslice (cf_offset ?r) (cf_len ?r) (s_arena (ct_snap t))" "l = cf_len ?r"
      using inv(2) that unfolding replay_read_def cache_frame_count_def Let_def bslice_def
      by (metis option.distinct(1) option.inject prod.inject)+
    have "cf_offset ?r + cf_len ?r \<le> length (s_arena (ct_snap t))"
      using refs_in_arena [OF inv(1) ref_stored [OF inv(1) k(1)]] by linarith
    then have "l = length bs" using k(2,3) by simp
    then show ?thesis using k inv(1) by (simp add: frames_def ref_frame_def refs_def cache_inv_def)
  qed
  with inv show ?thesis by blast
qed

section \<open>A read in the middle of a write\<close>

text \<open>Several stores, several loads.\<close>

fun stores :: "nat \<Rightarrow> cache_threads \<Rightarrow> cache_threads" where
  "stores 0 t = t"
| "stores (Suc k) t =
     (case ct_w t of W_idle \<Rightarrow> t | W_begin j \<Rightarrow> t
      | _ \<Rightarrow> (case add_store (ct_w t) (ct_cache t) of (c, pc) \<Rightarrow>
          stores k (t\<lparr>ct_cache := c, ct_w := pc, ct_base := (if pc = W_idle then c else ct_base t)\<rparr>)))"

fun loads :: "nat \<Rightarrow> cache_threads \<Rightarrow> cache_threads" where
  "loads 0 t = t"
| "loads (Suc k) t =
     (if ct_r t = R_idle \<or> ct_r t = R_ready then t
      else loads k (t\<lparr>ct_r := read_load (ct_nonce t) (ct_n t) (ct_r t) (ct_cache t)\<rparr>))"

abbreviation cache_reachable :: "cache_threads \<Rightarrow> bool" where
  "cache_reachable \<equiv> reachable cache_start cache_step"

lemma reachable_loads: "cache_reachable t \<Longrightarrow> cache_reachable (loads k t)"
proof (induction k t rule: loads.induct)
  case (2 k t)
  then show ?case
  proof (cases "ct_r t = R_idle \<or> ct_r t = R_ready")
    case False
    let ?t = "t\<lparr>ct_r := read_load (ct_nonce t) (ct_n t) (ct_r t) (ct_cache t)\<rparr>"
    have "cache_step t Reader ?t" by (rule r_load) (use False in auto)
    with "2.prems" have "cache_reachable ?t" by (rule reach_step)
    with "2.IH" False show ?thesis by simp
  qed simp
qed simp

lemma reachable_stores: "cache_reachable t \<Longrightarrow> cache_reachable (stores k t)"
proof (induction k arbitrary: t)
  case (Suc k)
  obtain c pc where a: "add_store (ct_w t) (ct_cache t) = (c, pc)" by fastforce
  let ?t = "t\<lparr>ct_cache := c, ct_w := pc, ct_base := (if pc = W_idle then c else ct_base t)\<rparr>"
  show ?case
  proof (cases "ct_w t = W_idle \<or> (\<exists>j. ct_w t = W_begin j)")
    case False
    then have "cache_step t Writer ?t" by (intro w_store [OF a]) auto
    with Suc.prems have "cache_reachable ?t" by (rule reach_step)
    from Suc.IH [OF this] False a show ?thesis by (cases "ct_w t") simp_all
  qed (use Suc.prems in auto)
qed simp

definition cache_zero :: cache_threads where
  "cache_zero = \<lparr>ct_cache = cache_static, ct_w = W_idle, ct_r = R_idle, ct_start = 0, ct_nonce = 0, ct_n = 0,
     ct_base = cache_static, ct_snap = cache_static\<rparr>"

text \<open>One frame is stored and published, a read begins, a second frame is half stored, the read goes on.\<close>

definition cache_one :: cache_threads where
  "cache_one = stores 9 (cache_zero\<lparr>ct_w := W_copy [5] FromRadio_my_info_tag 0\<rparr>)"

definition cache_published :: cache_threads where
  "cache_published = cache_one\<lparr>ct_cache := cache_mark_ready (ct_cache cache_one), ct_base := cache_mark_ready (ct_cache cache_one)\<rparr>"

definition cache_counted :: cache_threads where
  "cache_counted = cache_published\<lparr>ct_start := 0, ct_nonce := 7, ct_r := R_loop 0,
     ct_n := cache_frame_count (ct_cache cache_published), ct_snap := ct_base cache_published\<rparr>"

definition cache_torn :: cache_threads where
  "cache_torn = stores 3 (cache_counted\<lparr>ct_w := W_copy [9] FromRadio_node_info_tag 0\<rparr>)"

lemma run_numeral:
  "stores (numeral n) t =
     (case ct_w t of W_idle \<Rightarrow> t | W_begin j \<Rightarrow> t
      | _ \<Rightarrow> (case add_store (ct_w t) (ct_cache t) of (c, pc) \<Rightarrow>
          stores (pred_numeral n) (t\<lparr>ct_cache := c, ct_w := pc, ct_base := (if pc = W_idle then c else ct_base t)\<rparr>)))"
  "loads (numeral n) t =
     (if ct_r t = R_idle \<or> ct_r t = R_ready then t
      else loads (pred_numeral n) (t\<lparr>ct_r := read_load (ct_nonce t) (ct_n t) (ct_r t) (ct_cache t)\<rparr>))"
  by (simp_all only: numeral_eq_Suc stores.simps loads.simps)

lemma reach_writer: "cache_reachable t \<Longrightarrow> cache_step t Writer t' \<Longrightarrow> cache_reachable t'"
  by (rule reach_step)

lemma cache_static_facts:
  "s_used cache_static = 0" "s_count cache_static = 0" "s_own_nodeinfo_idx cache_static = -1" "\<not> s_ready cache_static"
  "length (s_arena cache_static) = 4096" "length (s_index cache_static) = 128"
  by (simp_all add: cache_static_def layout_consts)

lemma cache_one_value:
  "ct_w cache_one = W_idle" "ct_r cache_one = R_idle" "s_count (ct_cache cache_one) = 1" "s_used (ct_cache cache_one) = 1"
  "s_index (ct_cache cache_one) ! 0 = \<lparr>cf_offset = 0, cf_len = 1, cf_variant = FromRadio_my_info_tag\<rparr>"
  "s_arena (ct_cache cache_one) ! 0 = 5" "length (s_arena (ct_cache cache_one)) = 4096"
  "length (s_index (ct_cache cache_one)) = 128"
  by (simp_all add: cache_one_def cache_zero_def run_numeral cache_static_facts Let_def)

lemma cache_torn_value:
  "ct_w cache_torn = W_index [9] FromRadio_node_info_tag 1" "ct_r cache_torn = R_loop 0" "ct_n cache_torn = 1" "ct_nonce cache_torn = 7"
  "s_count (ct_cache cache_torn) = 1"
  "s_index (ct_cache cache_torn) ! 0 = \<lparr>cf_offset = 0, cf_len = 1, cf_variant = FromRadio_my_info_tag\<rparr>"
  "s_arena (ct_cache cache_torn) ! 0 = 5"
  by (simp_all add: cache_torn_def cache_counted_def cache_published_def cache_mark_ready_def cache_frame_count_def run_numeral
      cache_one_value Let_def)

lemma cache_torn_reachable: "cache_reachable cache_torn"
proof -
  have "cache_reachable cache_zero" by (rule reach_start) (simp add: cache_start_def cache_zero_def)
  moreover have "cache_step cache_zero Writer (cache_zero\<lparr>ct_w := W_copy [5] FromRadio_my_info_tag 0\<rparr>)"
    by (rule w_add [of _ "[5]" FromRadio_my_info_tag OK])
      (simp_all add: cache_zero_def add_check_def cache_static_facts layout_consts)
  ultimately have "cache_reachable (cache_zero\<lparr>ct_w := W_copy [5] FromRadio_my_info_tag 0\<rparr>)" by (rule reach_writer)
  then have "cache_reachable cache_one" unfolding cache_one_def by (rule reachable_stores)
  then have "cache_reachable cache_published"
    unfolding cache_published_def by (rule reach_writer) (rule w_publish, simp add: cache_one_value)
  moreover have "cache_step cache_published Reader (cache_published\<lparr>ct_r := R_ready, ct_start := 0, ct_nonce := 7\<rparr>)"
    by (rule r_start) (simp_all add: cache_published_def cache_one_value cache_is_ready_def cache_mark_ready_def)
  ultimately have "cache_reachable (cache_published\<lparr>ct_r := R_ready, ct_start := 0, ct_nonce := 7\<rparr>)" by (rule reach_step)
  moreover have "cache_step (cache_published\<lparr>ct_r := R_ready, ct_start := 0, ct_nonce := 7\<rparr>) Reader cache_counted"
    using r_count [of "cache_published\<lparr>ct_r := R_ready, ct_start := 0, ct_nonce := 7\<rparr>"] by (simp add: cache_counted_def)
  ultimately have "cache_reachable cache_counted" by (rule reach_step)
  moreover have "cache_step cache_counted Writer (cache_counted\<lparr>ct_w := W_copy [9] FromRadio_node_info_tag 0\<rparr>)"
    by (rule w_add [of _ "[9]" FromRadio_node_info_tag OK])
      (simp_all add: cache_counted_def cache_published_def cache_one_value cache_mark_ready_def add_check_def layout_consts)
  ultimately have "cache_reachable (cache_counted\<lparr>ct_w := W_copy [9] FromRadio_node_info_tag 0\<rparr>)" by (rule reach_writer)
  then show ?thesis unfolding cache_torn_def by (rule reachable_stores)
qed

theorem cache_reads_atomic_witness:
  "\<exists>t. reachable cache_start cache_step t \<and> ct_w t = W_index [9] FromRadio_node_info_tag 1 \<and>
     replay_read (ct_snap t) (ct_nonce t) (ct_start t) = Some (0, [5], 1)"
proof -
  let ?t = "loads 10 cache_torn"
  have r: "ct_r ?t = R_done (Some (0, [5], 1))"
    by (simp add: run_numeral read_load_def cache_torn_value Let_def MESH_NONCE_ONLY_NODES_def MESH_NONCE_ONLY_CONFIG_def)
  have w: "ct_w (loads k t) = ct_w t" for k t by (induction k t rule: loads.induct) simp_all
  have reach: "cache_reachable ?t" by (rule reachable_loads [OF cache_torn_reachable])
  from cache_reads_atomic [OF this r] have "replay_read (ct_snap ?t) (ct_nonce ?t) (ct_start ?t) = Some (0, [5], 1)" by (rule conjE) (rule sym)
  moreover have "ct_w ?t = W_index [9] FromRadio_node_info_tag 1" using w [of 10 cache_torn] cache_torn_value(1) by (rule trans)
  ultimately show ?thesis using reach by blast
qed

end
