(* ===== verification/Phase0_Report.thy ===== *)
theory Phase0_Report
  imports Upstream_Session
begin

text \<open>
  The measurement of the boot burst that \<^verbatim>\<open>src/src/upstream_session.c\<close> logs when the cache is
  published (\<open>log_phase0_breakdown\<close>), and that its figures are those of the frames received.
\<close>

definition bytes_line :: "string \<Rightarrow> nat \<Rightarrow> string" where
  "bytes_line label b = label @ decimal b @ '' B''"

definition frames_line :: "string \<Rightarrow> nat \<Rightarrow> nat \<Rightarrow> string" where
  "frames_line label n b = label @ decimal n @ '' frames, '' @ decimal b @ '' B''"

definition log_phase0_breakdown :: "phase0_stats \<Rightarrow> string list" where
  "log_phase0_breakdown p0 =
     [''=== Phase 0 config-burst measurement ==='',
      bytes_line ''  my_info:        '' (unat (my_info_bytes p0)),
      bytes_line ''  deviceuiConfig: '' (unat (deviceuiConfig_bytes p0)),
      frames_line ''  node_info:      '' (unat (node_info_count p0)) (unat (node_info_bytes p0)),
      bytes_line ''  metadata:       '' (unat (metadata_bytes p0)),
      frames_line ''  channel:        '' (unat (channel_count p0)) (unat (channel_bytes p0)),
      frames_line ''  config:         '' (unat (config_count p0)) (unat (config_bytes p0)),
      frames_line ''  moduleConfig:   '' (unat (moduleConfig_count p0)) (unat (moduleConfig_bytes p0)),
      frames_line ''  fileInfo:       '' (unat (fileInfo_count p0)) (unat (fileInfo_bytes p0)),
      frames_line ''  queueStatus:    '' (unat (queueStatus_count p0)) (unat (queueStatus_bytes p0))] @
     (if other_count p0 \<noteq> 0
      then [frames_line ''  other:          '' (unat (other_count p0)) (unat (other_bytes p0))] else []) @
     [''  config_complete_id: '' @ decimal (unat (p0_config_complete_id p0)),
      bytes_line ''  TOTAL: '' (unat (total_bytes p0))]"

section \<open>The figures of a burst\<close>

text \<open>How many of the frames have a tag, and the bytes of those frames.\<close>

definition tag_count :: "(fromradio_tag \<Rightarrow> bool) \<Rightarrow> frame list \<Rightarrow> nat" where
  "tag_count P fs = length (filter (\<lambda>f. P (fst f)) fs)"

definition tag_bytes :: "(fromradio_tag \<Rightarrow> bool) \<Rightarrow> frame list \<Rightarrow> nat" where
  "tag_bytes P fs = sum_list (map (\<lambda>f. length (snd f)) (filter (\<lambda>f. P (fst f)) fs))"

abbreviation all_bytes :: "frame list \<Rightarrow> nat" where
  "all_bytes fs \<equiv> tag_bytes (\<lambda>_. True) fs"

text \<open>The variants the breakdown has no line for.\<close>

fun unlisted :: "fromradio_tag \<Rightarrow> bool" where
  "unlisted FromRadio_packet_tag = True"
| "unlisted FromRadio_config_complete_id_tag = True"
| "unlisted FromRadio_rebooted_tag = True"
| "unlisted (FromRadio_other_tag n) = True"
| "unlisted v = False"

lemma tag_snoc [simp]:
  "tag_count P [] = 0" "tag_bytes P [] = 0"
  "tag_count P (fs @ [(v, d)]) = tag_count P fs + (if P v then 1 else 0)"
  "tag_bytes P (fs @ [(v, d)]) = tag_bytes P fs + (if P v then length d else 0)"
  by (simp_all add: tag_count_def tag_bytes_def)

lemma tag_bytes_le: "tag_bytes P fs \<le> all_bytes fs"
  by (induction fs) (auto simp: tag_bytes_def)

lemma tag_count_le: "tag_count P fs \<le> length fs"
  by (simp add: tag_count_def)

text \<open>The counters hold the figures of \<open>fs\<close>, at their width.\<close>

definition tallies :: "phase0_stats \<Rightarrow> frame list \<Rightarrow> bool" where
  "tallies p fs \<longleftrightarrow>
     my_info_bytes p = of_nat (tag_bytes ((=) FromRadio_my_info_tag) fs) \<and>
     deviceuiConfig_bytes p = of_nat (tag_bytes ((=) FromRadio_deviceuiConfig_tag) fs) \<and>
     node_info_count p = of_nat (tag_count ((=) FromRadio_node_info_tag) fs) \<and>
     node_info_bytes p = of_nat (tag_bytes ((=) FromRadio_node_info_tag) fs) \<and>
     metadata_bytes p = of_nat (tag_bytes ((=) FromRadio_metadata_tag) fs) \<and>
     channel_count p = of_nat (tag_count ((=) FromRadio_channel_tag) fs) \<and>
     channel_bytes p = of_nat (tag_bytes ((=) FromRadio_channel_tag) fs) \<and>
     config_count p = of_nat (tag_count ((=) FromRadio_config_tag) fs) \<and>
     config_bytes p = of_nat (tag_bytes ((=) FromRadio_config_tag) fs) \<and>
     moduleConfig_count p = of_nat (tag_count ((=) FromRadio_moduleConfig_tag) fs) \<and>
     moduleConfig_bytes p = of_nat (tag_bytes ((=) FromRadio_moduleConfig_tag) fs) \<and>
     fileInfo_count p = of_nat (tag_count ((=) FromRadio_fileInfo_tag) fs) \<and>
     fileInfo_bytes p = of_nat (tag_bytes ((=) FromRadio_fileInfo_tag) fs) \<and>
     queueStatus_count p = of_nat (tag_count ((=) FromRadio_queueStatus_tag) fs) \<and>
     queueStatus_bytes p = of_nat (tag_bytes ((=) FromRadio_queueStatus_tag) fs) \<and>
     other_count p = of_nat (tag_count unlisted fs) \<and>
     other_bytes p = of_nat (tag_bytes unlisted fs) \<and>
     total_bytes p = of_nat (all_bytes fs)"

lemma tallies_zero: "tallies phase0_zero []"
  by (simp add: tallies_def phase0_zero_def)

lemma tallies_account: "tallies p fs \<Longrightarrow> tallies (phase0_account v (length d) p) (fs @ [(v, d)])"
  by (cases v) (simp_all add: tallies_def phase0_account_def Let_def)

lemma tallies_nonce: "tallies (p\<lparr>p0_config_complete_id := n\<rparr>) fs = tallies p fs"
  by (simp add: tallies_def)

lemma tallies_boot_run:
  assumes "boot_fetching nonce cs ps w0 w" and "tallies (s_p0 (up w)) fs"
    and "\<forall>p info. Inl (p, info) \<in> set es \<longrightarrow> burst_tag (which_variant info)"
  shows "tallies (s_p0 (up (boot_run pb es w))) (fs @ boot_frames es)"
  using assms
proof (induction pb es w arbitrary: cs ps fs rule: boot_run.induct)
  case (2 pb p info es w)
  have t: "burst_tag (which_variant info)" using "2.prems"(3) by auto
  have "upstream_on_fromradio pb p info w = (True, stored_frame p (which_variant info) w)"
    using on_fromradio_burst [OF _ t, of w pb p] "2.prems"(1) by (simp add: boot_fetching_def fetching_def)
  then have "tallies (s_p0 (up (snd (upstream_on_fromradio pb p info w)))) (fs @ [(which_variant info, p)])"
    using tallies_account [OF "2.prems"(2), of "which_variant info" p]
    by (simp add: stored_frame_def fetch_retry_arm_def session_cache_add_def)
  from "2.IH" [OF boot_frame_step(2) [OF "2.prems"(1) t] this] "2.prems"(3) show ?case by simp
next
  case (3 pb conn es w)
  have "\<not> cache_is_ready (cch w)"
    using "3.prems"(1) by (simp add: boot_fetching_def session_inv_def)
  then have "s_p0 (up (upstream_on_pending_phone conn w)) = s_p0 (up w)"
    by (simp add: upstream_on_pending_phone_def Let_def)
  with "3.IH" [OF boot_phone_step [OF "3.prems"(1)]] "3.prems"(2,3) show ?case by simp
qed simp

section \<open>The report\<close>

text \<open>The breakdown of a list of frames, in plain numbers.\<close>

definition burst_report :: "u32 \<Rightarrow> frame list \<Rightarrow> string list" where
  "burst_report nonce fs =
     (let frames_of = (\<lambda>label P. frames_line label (tag_count P fs) (tag_bytes P fs));
          bytes_of = (\<lambda>label P. bytes_line label (tag_bytes P fs))
      in [''=== Phase 0 config-burst measurement ==='',
          bytes_of ''  my_info:        '' ((=) FromRadio_my_info_tag),
          bytes_of ''  deviceuiConfig: '' ((=) FromRadio_deviceuiConfig_tag),
          frames_of ''  node_info:      '' ((=) FromRadio_node_info_tag),
          bytes_of ''  metadata:       '' ((=) FromRadio_metadata_tag),
          frames_of ''  channel:        '' ((=) FromRadio_channel_tag),
          frames_of ''  config:         '' ((=) FromRadio_config_tag),
          frames_of ''  moduleConfig:   '' ((=) FromRadio_moduleConfig_tag),
          frames_of ''  fileInfo:       '' ((=) FromRadio_fileInfo_tag),
          frames_of ''  queueStatus:    '' ((=) FromRadio_queueStatus_tag),
          frames_of ''  other:          '' unlisted,
          ''  config_complete_id: '' @ decimal (unat nonce),
          bytes_of ''  TOTAL: '' (\<lambda>_. True)])"

lemma tally_exact:
  assumes "all_bytes fs < 2 ^ 32" and "length fs < 2 ^ 16"
  shows "unat (of_nat (tag_bytes P fs) :: u32) = tag_bytes P fs"
    and "unat (of_nat (tag_count P fs) :: u16) = tag_count P fs"
proof -
  have "tag_bytes P fs < 2 ^ 32" using tag_bytes_le [of P fs] assms(1) by linarith
  then show "unat (of_nat (tag_bytes P fs) :: u32) = tag_bytes P fs" by (simp add: unat_of_nat)
  have "tag_count P fs < 2 ^ 16" using tag_count_le [of P fs] assms(2) by linarith
  then show "unat (of_nat (tag_count P fs) :: u16) = tag_count P fs" by (simp add: unat_of_nat)
qed

lemma breakdown_exact:
  assumes "tallies p fs" and "all_bytes fs < 2 ^ 32" and "length fs < 2 ^ 16" and "0 < tag_count unlisted fs"
  shows "log_phase0_breakdown p = burst_report (p0_config_complete_id p) fs"
proof -
  note e = tally_exact [OF assms(2,3)]
  have "other_count p \<noteq> 0"
    using assms(1,4) e(2) [of unlisted] by (metis tallies_def less_irrefl unat_0)
  with assms(1) show ?thesis
    by (simp add: log_phase0_breakdown_def burst_report_def tallies_def e Let_def)
qed

text \<open>
  C39: the measurement logged at the end of the boot fetch is exact: whatever the order of burst
  frames and phones, the lines logged when the closing frame arrives report, for each variant, the
  number and the bytes of the frames received (also of those the cache had no room for), the nonce
  of the fetch, and as the total the bytes of the whole burst with its closing frame, as long as
  the burst stays below 65536 frames and 4 GiB.
\<close>

theorem boot_report_exact:
  assumes "session_inv w" and "s_state (up w) = UPSTREAM_BOOT"
    and "fst (pb_encode_toradio pb (want_config_msg (fetch_nonce rnd)) (pb_toradio_size pb))"
    and "\<forall>p info. Inl (p, info) \<in> set es \<longrightarrow> burst_tag (which_variant info)"
    and "which_variant cinfo = FromRadio_config_complete_id_tag"
    and "decode_config_complete_nonce pb close = Some (fetch_nonce rnd)"
    and "burst = boot_frames es @ [(FromRadio_config_complete_id_tag, close)]"
    and "length burst < 65536" and "tag_bytes (\<lambda>_. True) burst < 4294967296"
    and "upstream_on_fromradio pb close cinfo (boot_run pb es (upstream_session_start pb rnd w)) = (b, w')"
  shows "log_phase0_breakdown (s_p0 (up w')) = burst_report (fetch_nonce rnd) burst"
proof -
  let ?s = "upstream_session_start pb rnd w"
  let ?v = "boot_run pb es ?s"
  note s = boot_start [OF assms(1-3)]
  have "s_p0 (up ?s) = phase0_zero"
    using assms(3) by (simp add: upstream_session_start_def fetch_retry_arm_def phase0_reset_def Let_def split_beta)
  then have t: "tallies (s_p0 (up ?v)) (boot_frames es)"
    using tallies_boot_run [OF s _ assms(4), of "[]"] tallies_zero by simp
  have f: "boot_fetching (fetch_nonce rnd) ([] @ accepted frame_fits [] (boot_frames es)) (parked [] es) w ?v"
    by (rule boot_run_fetching [OF s assms(4)])
  then have "pending_inv (up ?v)" by (simp add: boot_fetching_def session_inv_def upstream_inv_def)
  then have "w' = boot_closed close ?v"
    using on_fromradio_boot_close [of ?v cinfo pb close, OF _ assms(5)] assms(6,10) f
    by (simp add: boot_fetching_def)
  then have p: "s_p0 (up w') = phase0_account FromRadio_config_complete_id_tag (length close)
      ((s_p0 (up ?v))\<lparr>p0_config_complete_id := fetch_nonce rnd\<rparr>)"
    using f by (simp add: boot_closed_def boot_fetching_def)
  then have "tallies (s_p0 (up w')) burst"
    using t by (simp only: assms(7) p tallies_account tallies_nonce)
  moreover have "p0_config_complete_id (s_p0 (up w')) = fetch_nonce rnd" by (simp add: p phase0_account_def Let_def)
  ultimately show ?thesis using breakdown_exact [of "s_p0 (up w')" burst] assms(7-9) by simp
qed

theorem boot_report_exact_witness:
  "\<exists>b w'. upstream_on_fromradio sample_pb [7, 5] (fromradio_info_zero\<lparr>which_variant := FromRadio_config_complete_id_tag\<rparr>)
      (boot_run sample_pb [Inl ([3, 1], fromradio_info_zero\<lparr>which_variant := FromRadio_my_info_tag\<rparr>)]
        (upstream_session_start sample_pb 5 (sample_session () None))) = (b, w') \<and>
     last (log_phase0_breakdown (s_p0 (up w'))) = ''  TOTAL: 4 B''"
proof -
  let ?es = "[Inl ([3, 1], fromradio_info_zero\<lparr>which_variant := FromRadio_my_info_tag\<rparr>)] :: boot_event list"
  let ?i = "fromradio_info_zero\<lparr>which_variant := FromRadio_config_complete_id_tag\<rparr>"
  let ?s = "sample_session () None"
  have n: "fetch_nonce 5 = 5" by (simp add: fetch_nonce_def)
  have enc: "fst (pb_encode_toradio sample_pb (want_config_msg (fetch_nonce 5)) (pb_toradio_size sample_pb))"
    by (simp add: sample_pb_def want_config_msg_def)
  have dec: "decode_config_complete_nonce sample_pb [7, 5] = Some (fetch_nonce 5)"
    by (simp add: sample_pb_def decode_config_complete_nonce_def config_complete_msg_def n)
  have st: "s_state (up ?s) = UPSTREAM_BOOT" by (simp add: sample_session_def upstream_static_def)
  have tags: "\<forall>p info. Inl (p, info) \<in> set ?es \<longrightarrow> burst_tag (which_variant info)"
    by (simp add: burst_tag_def)
  obtain b w' where run: "upstream_on_fromradio sample_pb [7, 5] ?i
      (boot_run sample_pb ?es (upstream_session_start sample_pb 5 ?s)) = (b, w')" by fastforce
  let ?burst = "[(FromRadio_my_info_tag, [3, 1]), (FromRadio_config_complete_id_tag, [7, 5])] :: frame list"
  have "log_phase0_breakdown (s_p0 (up w')) = burst_report 5 ?burst"
    using boot_report_exact [OF sample_session_inv st enc tags _ dec _ _ _ run] by (simp add: n tag_bytes_def)
  moreover have "last (burst_report 5 ?burst) = ''  TOTAL: 4 B''" by code_simp
  ultimately show ?thesis using run by simp
qed

end
