(* ===== verification/Phone_Isolation.thy ===== *)
theory Phone_Isolation
  imports Proxy_System
begin

text \<open>
  Isolation of the phones. The slots of \<^verbatim>\<open>src/src/ble_gatt.c\<close> share one table, one cache and one
  UART; the handlers of \<^verbatim>\<open>src/src/main.c\<close> act on all of them. This theory shows, over the whole
  transition system of \<open>Proxy_System\<close>, that what a phone reads is decided by its own requests
  and by the traffic of the node, never by what the other phones do: connecting, leaving, reading,
  writing, registering, asking for the config or being torn down. The argument is by unwinding: an
  event of another party leaves the phone's view alone, and the effect of the phone's own event on
  its view depends on that view only.
\<close>

section \<open>What a phone sees\<close>

text \<open>
  The view of a phone: its slot, apart from the teardown timer that no read shows, and the cache
  its config replay is served from.
\<close>

definition slot_view :: "proxy_conn \<Rightarrow> proxy_conn" where
  "slot_view pc = pc\<lparr>pc_teardown_work := None\<rparr>"

definition phone_slot :: "bt_conn \<Rightarrow> gatt \<Rightarrow> proxy_conn option" where
  "phone_slot d g = map_option (\<lambda>i. slot_view (conns g ! i)) (find_slot d g)"

definition phone_view :: "bt_conn \<Rightarrow> gatt session \<Rightarrow> proxy_conn option \<times> cache" where
  "phone_view d w = (phone_slot d (client w), cch w)"

fun own_read :: "bt_conn \<Rightarrow> fw_event \<Rightarrow> bool" where
  "own_read d (Fw_fromnum_read c) = (c = d)"
| "own_read d (Fw_fromradio_read c len off) = (c = d)"
| "own_read d (Fw_node_reg c buf off) = (c = d)"
| "own_read d e = False"

text \<open>
  The events that may change the view from outside: frames of the node, the retry of the config
  fetch (which empties the cache), and the phone's own connection, departure and ToRadio writes.
\<close>

fun undisturbed :: "bt_conn \<Rightarrow> fw_event \<Rightarrow> bool" where
  "undisturbed d Fw_rx_work = False"
| "undisturbed d Fw_fetch_retry = False"
| "undisturbed d (Fw_connected c err) = (c \<noteq> d)"
| "undisturbed d (Fw_disconnected c reason) = (c \<noteq> d)"
| "undisturbed d (Fw_toradio c data off) = (c \<noteq> d)"
| "undisturbed d e = True"

text \<open>A change of the table that leaves the slot of \<open>d\<close> alone.\<close>

definition spares :: "bt_conn \<Rightarrow> gatt \<Rightarrow> gatt \<Rightarrow> bool" where
  "spares d g h \<longleftrightarrow> list_all2 (\<lambda>pc pc'. slot_view pc' = slot_view pc \<or> pc_conn pc \<noteq> d \<and> pc_conn pc' \<noteq> d)
     (conns g) (conns h)"

lemma slot_view_simps [simp]:
  "pc_conn (slot_view pc) = pc_conn pc" "pc_fromnum (slot_view pc) = pc_fromnum pc"
  "pc_staged (slot_view pc) = pc_staged pc" "pc_staged_len (slot_view pc) = pc_staged_len pc"
  "slot_view (pc\<lparr>pc_proxy_id := p\<rparr>) = (slot_view pc)\<lparr>pc_proxy_id := p\<rparr>"
  by (simp_all add: slot_view_def)

lemma slot_view_conn_eq: "slot_view pc = slot_view pc' \<Longrightarrow> pc_conn pc = pc_conn pc'"
  using slot_view_simps(1) by metis

lemma slot_index_all2:
  assumes "list_all2 (\<lambda>x y. f y = f x \<or> \<not> P x \<and> \<not> P y) xs ys" and "\<And>x y. f y = f x \<Longrightarrow> P y = P x"
  shows "map_option (\<lambda>i. f (ys ! i)) (slot_index P ys) = map_option (\<lambda>i. f (xs ! i)) (slot_index P xs)"
  using assms(1)
proof (induction xs ys rule: list_all2_induct)
  case (Cons x xs y ys)
  show ?case
  proof (cases "P x")
    case True
    with Cons(1) assms(2) have "f y = f x" "P y" by blast+
    with True show ?thesis by simp
  next
    case False
    with Cons(1) assms(2) have "\<not> P y" by blast
    with False Cons(3) show ?thesis by (simp add: option.map_comp comp_def)
  qed
qed simp

lemma spares_slot: "spares d g h \<Longrightarrow> phone_slot d h = phone_slot d g"
  unfolding phone_slot_def find_slot_def spares_def
  by (rule slot_index_all2) (auto dest: slot_view_conn_eq)

lemma spares_same [simp]: "conns h = conns g \<Longrightarrow> spares d g h"
  by (simp add: spares_def list_all2_same)

lemma spares_put:
  assumes "slot_view pc = slot_view (conns g ! i) \<or> pc_conn (conns g ! i) \<noteq> d \<and> pc_conn pc \<noteq> d"
    and "conns h = conns (put_slot i pc g)"
  shows "spares d g h"
  unfolding spares_def list_all2_conv_all_nth
proof (intro conjI allI impI)
  fix j
  assume "j < length (conns g)"
  with assms show "slot_view (conns h ! j) = slot_view (conns g ! j) \<or>
      pc_conn (conns g ! j) \<noteq> d \<and> pc_conn (conns h ! j) \<noteq> d"
    by (cases "j = i") simp_all
qed (simp add: assms(2))

text \<open>
  The contract of the operations a phone can cause: the one of connection \<open>c\<close> writes the slot
  it finds for \<open>c\<close>, which stays that connection's or becomes free, and no other.
\<close>

locale one_slot_operation =
  fixes op :: "bt_conn \<Rightarrow> gatt \<Rightarrow> gatt"
    and valid :: "gatt \<Rightarrow> bool"
  assumes op_unknown: "valid g \<Longrightarrow> find_slot c g = None \<Longrightarrow> conns (op c g) = conns g"
    and op_found: "valid g \<Longrightarrow> find_slot c g = Some i \<Longrightarrow>
      \<exists>pc. conns (op c g) = conns (put_slot i pc g) \<and> (pc_conn pc = c \<or> pc_conn pc = None)"
begin

lemma op_spares:
  assumes "valid g" and "c \<noteq> d" and "d \<noteq> None"
  shows "spares d g (op c g)"
proof (cases "find_slot c g")
  case None
  then show ?thesis using op_unknown [OF assms(1)] by simp
next
  case (Some i)
  obtain pc where pc: "conns (op c g) = conns (put_slot i pc g)" "pc_conn pc = c \<or> pc_conn pc = None"
    using op_found [OF assms(1) Some] by blast
  have "pc_conn (conns g ! i) \<noteq> d \<and> pc_conn pc \<noteq> d"
    using find_slot_SomeD(2) [OF Some] pc(2) assms(2,3) by auto
  then show ?thesis by (intro spares_put [OF _ pc(1)]) simp
qed

lemma op_slot: "valid g \<Longrightarrow> c \<noteq> d \<Longrightarrow> d \<noteq> None \<Longrightarrow> phone_slot d (op c g) = phone_slot d g"
  by (intro spares_slot op_spares)

end

lemma stage_next_conn [simp]: "pc_conn (stage_next c pc) = pc_conn pc"
  by (simp add: stage_next_def ring_get_def Let_def split: option.split)

lemma stage_next_view: "slot_view (stage_next c pc) = stage_next c (slot_view pc)"
  by (simp add: stage_next_def slot_view_def ring_get_def stage_bytes_def Let_def split: option.split)

interpretation fromradio_op: one_slot_operation "\<lambda>c g. snd (fromradio_read rd cache c len off g)" "\<lambda>_. True"
proof
  show "\<exists>pc. conns (snd (fromradio_read rd cache c len off g)) = conns (put_slot i pc g) \<and>
      (pc_conn pc = c \<or> pc_conn pc = None)" if "find_slot c g = Some i" for c g i
    using that find_slot_SomeD(2) [OF that]
    by (intro exI [of _ "if off = 0 then stage_next cache (conns g ! i) else conns g ! i"])
      (simp add: fromradio_read_def Let_def)
qed (simp add: fromradio_read_def)

interpretation node_reg_op: one_slot_operation "\<lambda>c g. snd (node_reg_write c buf off g)" "\<lambda>_. True"
proof
  show "\<exists>pc. conns (snd (node_reg_write c buf off g)) = conns (put_slot i pc g) \<and>
      (pc_conn pc = c \<or> pc_conn pc = None)" if "find_slot c g = Some i" for c g i
    using that find_slot_SomeD(2) [OF that]
    by (intro exI [of _ "if off \<noteq> 0 \<or> length buf \<noteq> PROXY_ID_SIZE then conns g ! i
        else (conns g ! i)\<lparr>pc_proxy_id := \<lparr>id_bytes = take PROXY_ID_SIZE buf\<rparr>\<rparr>"])
      (simp add: node_reg_write_def ble_gatt_register_proxy_id_def Let_def)
qed (simp add: node_reg_write_def ble_gatt_register_proxy_id_def Let_def)

interpretation teardown_op: one_slot_operation "\<lambda>c g. snd (ble_gatt_request_teardown c g)" "\<lambda>_. True"
proof
  show "\<exists>pc. conns (snd (ble_gatt_request_teardown c g)) = conns (put_slot i pc g) \<and>
      (pc_conn pc = c \<or> pc_conn pc = None)" if "find_slot c g = Some i" for c g i
    using that find_slot_SomeD(2) [OF that]
    by (intro exI [of _ "(conns g ! i)\<lparr>pc_leaving := True, pc_teardown_work := Some TEARDOWN_DELAY_MS\<rparr>"])
      (simp add: ble_gatt_request_teardown_def)
qed (simp add: ble_gatt_request_teardown_def)

interpretation enqueue_op: one_slot_operation "\<lambda>c g. snd (ble_gatt_enqueue_fromradio c data g)" "\<lambda>_. True"
proof
  show "\<exists>pc. conns (snd (ble_gatt_enqueue_fromradio c data g)) = conns (put_slot i pc g) \<and>
      (pc_conn pc = c \<or> pc_conn pc = None)" if "find_slot c g = Some i" for c g i
    using enqueue_tracked(2) [OF that, of data] find_slot_SomeD(2) [OF that]
    by (intro exI [of _ "snd (phone_offer data (conns g ! i))"]) (simp add: put_slot_def)
qed (simp add: ble_gatt_enqueue_fromradio_def)

interpretation replay_op: one_slot_operation "\<lambda>c g. ble_gatt_replay_cached_burst pb c nonce g"
  "\<lambda>g. gatt_inv g \<and> pb_bounded pb"
proof
  show "\<exists>pc. conns (ble_gatt_replay_cached_burst pb c nonce g) = conns (put_slot i pc g) \<and>
      (pc_conn pc = c \<or> pc_conn pc = None)" if "gatt_inv g \<and> pb_bounded pb" "find_slot c g = Some i" for c g i
    using replay_frame [of g pb c nonce] that find_slot_SomeD(2) [OF that(2)] by auto
qed (simp add: ble_gatt_replay_cached_burst_def)

interpretation heartbeat_op: one_slot_operation "\<lambda>c g. ble_gatt_reply_queuestatus pb c g" "\<lambda>_. True"
proof
  fix c and g :: gatt
  define x where "x = (if s_qs_len g = 0 then
      let (rc, buf, len) = proto_encode_queue_status pb (s_qs g) 16 (s_qs_len g)
      in (rc, g\<lparr>s_qs := buf, s_qs_len := (if rc \<noteq> OK then 0 else len)\<rparr>) else (OK, g))"
  have "conns (snd x) = conns g" by (simp add: x_def split_beta)
  moreover have "ble_gatt_reply_queuestatus pb c g = (if fst x \<noteq> OK then snd x
      else snd (ble_gatt_enqueue_fromradio c (take (s_qs_len (snd x)) (s_qs (snd x))) (snd x)))"
    by (simp add: ble_gatt_reply_queuestatus_def x_def [symmetric] split_beta)
  ultimately obtain h d where h: "conns h = conns g"
    "ble_gatt_reply_queuestatus pb c g = h \<or> ble_gatt_reply_queuestatus pb c g = snd (ble_gatt_enqueue_fromradio c d h)"
    by metis
  have f: "find_slot c h = find_slot c g" using h(1) by (simp add: find_slot_def)
  show "conns (ble_gatt_reply_queuestatus pb c g) = conns g" if "find_slot c g = None"
    using h enqueue_op.op_unknown [OF TrueI, of c h] f that by auto
  show "\<exists>pc. conns (ble_gatt_reply_queuestatus pb c g) = conns (put_slot i pc g) \<and>
      (pc_conn pc = c \<or> pc_conn pc = None)" if "find_slot c g = Some i" for i
    using h(2)
  proof
    assume "ble_gatt_reply_queuestatus pb c g = h"
    with h(1) find_slot_SomeD(2) [OF that] show ?thesis by (intro exI [of _ "conns g ! i"]) simp
  next
    assume "ble_gatt_reply_queuestatus pb c g = snd (ble_gatt_enqueue_fromradio c d h)"
    with enqueue_op.op_found [OF TrueI, of c h i d] f that h(1) show ?thesis by (auto simp: put_slot_def)
  qed
qed

interpretation disconnect_op: one_slot_operation "\<lambda>c g. on_disconnected adv c reason g" "\<lambda>_. True"
proof
  show "\<exists>pc. conns (on_disconnected adv c reason g) = conns (put_slot i pc g) \<and>
      (pc_conn pc = c \<or> pc_conn pc = None)" if "find_slot c g = Some i" for c g i
  proof -
    have "conns (on_disconnected adv c reason g) = conns (free_slot i g)" using that by (simp add: on_disconnected_def)
    moreover have "\<exists>pc. conns (free_slot i g) = conns (put_slot i pc g) \<and> pc_conn pc = None"
      by (auto simp: free_slot_def put_slot_def Let_def)
    ultimately show ?thesis by auto
  qed
qed (simp add: on_disconnected_def)

text \<open>A new connection takes a slot that was free.\<close>

lemma connected_slot:
  assumes "c \<noteq> d" and "d \<noteq> None"
  shows "phone_slot d (on_connected adv c err g) = phone_slot d g"
proof (cases "err \<noteq> 0 \<or> slot_index (\<lambda>pc. pc_conn pc = None) (conns g) = None")
  case True
  then have "conns (on_connected adv c err g) = conns g"
    by (auto simp: on_connected_def alloc_slot_def bt_conn_disconnect_def)
  then show ?thesis by (intro spares_slot spares_same)
next
  case False
  then obtain i where i: "slot_index (\<lambda>pc. pc_conn pc = None) (conns g) = Some i" by blast
  have "\<exists>pc. conns (on_connected adv c err g) = conns (put_slot i pc g) \<and> pc_conn pc = c"
    using False i by (auto simp: on_connected_def alloc_slot_def put_slot_def Let_def)
  then obtain pc where pc: "conns (on_connected adv c err g) = conns (put_slot i pc g)" "pc_conn pc = c" by blast
  have "pc_conn (conns g ! i) = None" using slot_index_SomeD [OF i] by simp
  with pc(2) assms show ?thesis by (intro spares_slot spares_put [OF _ pc(1)]) auto
qed

lemma fire_teardown_slot: "phone_slot d (fire_teardown i g) = phone_slot d g"
proof (rule spares_slot, rule spares_put)
  show "conns (fire_teardown i g) = conns (put_slot i ((conns g ! i)\<lparr>pc_teardown_work := None\<rparr>) g)"
    by (simp add: fire_teardown_def teardown_work_handler_def bt_conn_disconnect_def Let_def)
qed (simp add: slot_view_def)

lemma phone_slot_frame [simp]:
  "phone_slot d (g\<lparr>led_toradio_active := a\<rparr>) = phone_slot d g"
  "phone_slot d (g\<lparr>led_fromradio_active := a\<rparr>) = phone_slot d g"
  "phone_slot d (led_blink_work g) = phone_slot d g"
  "phone_slot d (teardown_work_handler i g) = phone_slot d g"
  by (auto intro!: spares_slot spares_same simp: led_blink_work_def teardown_work_handler_def
      bt_conn_disconnect_def led_blink_tick_def Let_def)

section \<open>The firmware keeps the phones apart\<close>

lemma toradio_view:
  assumes "fw_inv pb w" and "c \<noteq> d" and "d \<noteq> None"
  shows "phone_view d (on_toradio_ble pb c data w) = phone_view d w"
proof -
  have g: "gatt_inv (client w) \<and> pb_bounded pb" using assms(1) by (simp add: fw_inv_def)
  note ops = replay_op.op_slot [OF g assms(2,3)] heartbeat_op.op_slot [OF TrueI assms(2,3)]
    teardown_op.op_slot [OF TrueI assms(2,3)]
  show ?thesis
    by (simp add: on_toradio_ble_def phone_view_def upstream_get_state_def upstream_keepalive_reschedule_def ops
        Let_def split_beta)
qed

lemma session_view:
  "phone_view d (keepalive_work_handler pb w) = phone_view d w"
  "phone_view d (upstream_refetch pb rnd w) = phone_view d w"
  by (simp_all add: phone_view_def keepalive_work_handler_def upstream_refetch_def fetch_retry_arm_def
      upstream_keepalive_reschedule_def Let_def split_beta)

lemma view_frame [simp]:
  "phone_view d (w\<lparr>uar := u\<rparr>) = phone_view d w" "phone_view d (w\<lparr>up := s\<rparr>) = phone_view d w"
  "phone_view d (w\<lparr>client := g\<rparr>) = (phone_slot d g, cch w)"
  by (simp_all add: phone_view_def)

lemma view_respected:
  assumes "fw_inv pb w" and "fw_step pb w e v" and "undisturbed d e" and "\<not> own_read d e" and "d \<noteq> None"
  shows "phone_view d v = phone_view d w"
  using assms(2)
proof cases
  case (fw_connected c adv err)
  then show ?thesis using connected_slot [OF _ assms(5)] assms(3) by (simp add: phone_view_def)
next
  case (fw_disconnected c reason adv)
  then show ?thesis using disconnect_op.op_slot [OF TrueI _ assms(5)] assms(3) by (simp add: phone_view_def)
next
  case (fw_fromnum c rd len off)
  then show ?thesis by (simp add: phone_view_def fromnum_read_def split: option.split)
next
  case (fw_fromradio c len off rd)
  then show ?thesis using fromradio_op.op_slot [OF TrueI _ assms(5)] assms(4) by (simp add: phone_view_def)
next
  case (fw_node_reg c buf off)
  then show ?thesis using node_reg_op.op_slot [OF TrueI _ assms(5)] assms(4) by (simp add: phone_view_def)
next
  case (fw_toradio c data off)
  have "fw_inv pb (w\<lparr>client := (client w)\<lparr>led_toradio_active := True\<rparr>\<rparr>)" using assms(1) by (simp add: fw_inv_def)
  from toradio_view [OF this _ assms(5), of c data] fw_toradio assms(3) show ?thesis
    by (simp add: toradio_write_def Let_def phone_view_def)
next
  case (fw_liveness rnd)
  then show ?thesis by (simp add: liveness_handler_def session_view)
qed (use assms(3) in \<open>simp_all add: phone_view_def fire_teardown_slot session_view [unfolded phone_view_def]\<close>)

text \<open>The effect and the answers of the phone's own reads depend on its view only.\<close>

definition staged_answer :: "attr_read \<Rightarrow> nat \<Rightarrow> nat \<Rightarrow> proxy_conn option \<Rightarrow> att_read" where
  "staged_answer rd len off s =
     (case s of None \<Rightarrow> Att_error BT_ATT_ERR_UNLIKELY
      | Some pc \<Rightarrow> if pc_staged_len pc > 0 then rd len off (take (pc_staged_len pc) (pc_staged pc)) else Att_data [])"

lemma phone_slot_put:
  assumes "find_slot d g = Some i" and "pc_conn pc = d"
  shows "phone_slot d (put_slot i pc g) = Some (slot_view pc)"
proof -
  have "find_slot d (put_slot i pc g) = Some i"
    using find_slot_cong [of "put_slot i pc g" g d] assms find_slot_SomeD(2) [OF assms(1)] by simp
  then show ?thesis using find_slot_SomeD(1) [OF assms(1)] by (simp add: phone_slot_def)
qed

lemma fromradio_view:
  "phone_slot d (snd (fromradio_read rd c d len off g)) =
     map_option (\<lambda>pc. if off = 0 then stage_next c pc else pc) (phone_slot d g)"
  "fst (fromradio_read rd c d len off g) =
     staged_answer rd len off (map_option (\<lambda>pc. if off = 0 then stage_next c pc else pc) (phone_slot d g))"
proof -
  have v: "pc_staged_len (stage_next c (slot_view pc)) = pc_staged_len (stage_next c pc)"
    "pc_staged (stage_next c (slot_view pc)) = pc_staged (stage_next c pc)" for pc
    by (simp_all flip: stage_next_view)
  show "phone_slot d (snd (fromradio_read rd c d len off g)) =
     map_option (\<lambda>pc. if off = 0 then stage_next c pc else pc) (phone_slot d g)"
  proof (cases "find_slot d g")
    case (Some i)
    then have "phone_slot d g = Some (slot_view (conns g ! i))" by (simp add: phone_slot_def)
    with Some find_slot_SomeD(2) [OF Some] show ?thesis
      by (simp add: fromradio_read_def phone_slot_put stage_next_view Let_def)
  qed (simp add: fromradio_read_def phone_slot_def)
  show "fst (fromradio_read rd c d len off g) =
     staged_answer rd len off (map_option (\<lambda>pc. if off = 0 then stage_next c pc else pc) (phone_slot d g))"
    by (cases "find_slot d g")
      (simp_all add: fromradio_read_def staged_answer_def phone_slot_def v Let_def)
qed

lemma node_reg_view:
  "phone_slot d (snd (node_reg_write d buf off g)) = map_option (\<lambda>pc. if off \<noteq> 0 \<or> length buf \<noteq> PROXY_ID_SIZE then pc
     else pc\<lparr>pc_proxy_id := \<lparr>id_bytes = take PROXY_ID_SIZE buf\<rparr>\<rparr>) (phone_slot d g)"
proof (cases "find_slot d g")
  case (Some i)
  then have "phone_slot d g = Some (slot_view (conns g ! i))" by (simp add: phone_slot_def)
  then show ?thesis
    using Some find_slot_SomeD(2) [OF Some]
    by (simp add: node_reg_write_def ble_gatt_register_proxy_id_def phone_slot_put Let_def)
qed (simp add: node_reg_write_def ble_gatt_register_proxy_id_def phone_slot_def Let_def)

lemma view_consistent:
  assumes "phone_view d w' = phone_view d w" and "own_read d e" and "fw_step pb w e v" and "fw_step pb w' e v'"
  shows "phone_view d v' = phone_view d v"
  using assms(3)
proof cases
  case (fw_fromnum c rd len off)
  from assms(4) obtain rd' len' off' where "v' = w'\<lparr>client := snd (fromnum_read rd' c len' off' (client w'))\<rparr>"
    unfolding fw_fromnum by cases
  with fw_fromnum assms(1) show ?thesis by (simp add: phone_view_def fromnum_read_def split: option.split)
next
  case (fw_fromradio c len off rd)
  from assms(4) obtain rd' where "v' = w'\<lparr>client := snd (fromradio_read rd' (cch w') c len off (client w'))\<rparr>"
    unfolding fw_fromradio by cases auto
  with fw_fromradio assms(1,2) show ?thesis by (simp add: phone_view_def fromradio_view)
next
  case (fw_node_reg c buf off)
  from assms(4) have "v' = w'\<lparr>client := snd (node_reg_write c buf off (client w'))\<rparr>"
    unfolding fw_node_reg by cases auto
  with fw_node_reg assms(1,2) show ?thesis by (simp add: phone_view_def node_reg_view)
qed (use assms(2) in simp_all)

interpretation watched: watched_system "\<lambda>w. pb_bounded pb \<and> fw_boot pb w" "fw_step pb" "fw_inv pb"
  "phone_view (Some d)" "own_read (Some d)" "undisturbed (Some d)"
proof
  show "phone_view (Some d) t = phone_view (Some d) s"
    if "fw_inv pb s" "fw_step pb s e t" "undisturbed (Some d) e" "\<not> own_read (Some d) e" for s e t
    by (rule view_respected [OF that]) simp
  show "phone_view (Some d) t' = phone_view (Some d) t"
    if "fw_inv pb s" "fw_inv pb s'" "phone_view (Some d) s' = phone_view (Some d) s" "own_read (Some d) e"
      "fw_step pb s e t" "fw_step pb s' e t'" for s s' e t t'
    by (rule view_consistent [OF that(3-6)])
qed

text \<open>
  C5: the phones do not interfere with each other. Take two runs of the firmware from a reachable
  state in which phone \<open>d\<close> makes the same FROMRADIO, FROMNUM and NODE_REG accesses in the same
  order, while the other phones connect, leave, read, write, register, ask for the config or are
  torn down, and the UART driver, the timers and the LEDs run, in any way and at any point of either
  run. As long as no frame of the node is processed, the fetch is not restarted, and \<open>d\<close> itself
  does not connect, leave or write ToRadio, both runs end with the same slot for \<open>d\<close> (queue,
  counter, replay cursor and staging buffer) and the same cache, and the next FROMRADIO or FROMNUM
  read of \<open>d\<close> is given the same answer in both.
\<close>

theorem phones_do_not_interfere:
  assumes "reachable (\<lambda>w. pb_bounded pb \<and> fw_boot pb w) (fw_step pb) w"
    and "event_run (fw_step pb) w es v" and "event_run (fw_step pb) w fs v'"
    and "\<forall>e \<in> set es. undisturbed (Some d) e" and "\<forall>e \<in> set fs. undisturbed (Some d) e"
    and "filter (own_read (Some d)) es = filter (own_read (Some d)) fs"
  shows "phone_view (Some d) v = phone_view (Some d) v' \<and>
    fst (fromradio_read rd (cch v) (Some d) len off (client v)) =
      fst (fromradio_read rd (cch v') (Some d) len off (client v')) \<and>
    fst (fromnum_read rd (Some d) len off (client v)) = fst (fromnum_read rd (Some d) len off (client v'))"
proof -
  note inv = firmware.reachable_inv [OF assms(1)]
  have view: "phone_view (Some d) v = phone_view (Some d) v'"
    by (rule watched.run_purge [OF assms(3,2) inv inv refl assms(5,4,6)])
  have num: "fst (fromnum_read rd (Some d) len off g) = (case phone_slot (Some d) g of
      None \<Rightarrow> Att_error BT_ATT_ERR_UNLIKELY | Some pc \<Rightarrow> rd len off (u32_bytes (pc_fromnum pc)))" for g
    by (simp add: fromnum_read_def phone_slot_def split: option.split)
  from view show ?thesis by (simp add: phone_view_def fromradio_view num)
qed

text \<open>
  A second phone connects, writes to ToRadio and leaves again around a read of the first.
\<close>

theorem phones_do_not_interfere_witness:
  "\<exists>v v'. event_run (fw_step sample_pb) registered [Fw_fromradio_read (Some 7) 23 0] v \<and>
     event_run (fw_step sample_pb) registered
       [Fw_connected (Some 8) 0, Fw_toradio (Some 8) [9, 9] 0, Fw_fromradio_read (Some 7) 23 0,
        Fw_disconnected (Some 8) 19, Fw_ble_led] v' \<and>
     phone_slot (Some 7) (client v') \<noteq> None \<and>
     fst (fromradio_read sample_attr_read (cch v) (Some 7) 23 0 (client v)) =
       fst (fromradio_read sample_attr_read (cch v') (Some 7) 23 0 (client v'))"
proof -
  let ?own = "\<lambda>w. w\<lparr>client := snd (fromradio_read sample_attr_read (cch w) (Some 7) 23 0 (client w))\<rparr>"
  have own: "fw_step sample_pb w (Fw_fromradio_read (Some 7) 23 0) (?own w)" for w
    by (rule fw_step.fw_fromradio) simp
  define a where "a = registered\<lparr>client := on_connected OK (Some 8) 0 (client registered)\<rparr>"
  define b where "b = snd (toradio_write (Some (on_toradio_ble sample_pb)) (Some 8) [9, 9] 0 a)"
  define c where "c = (?own b)\<lparr>client := on_disconnected OK (Some 8) 19 (client (?own b))\<rparr>"
  define v' where "v' = c\<lparr>client := led_blink_work (client c)\<rparr>"
  have "Some 8 \<notin> set (tracked_conns (client registered))"
    by (simp add: tracked_conns_def registered_state)
  then have sa: "fw_step sample_pb registered (Fw_connected (Some 8) 0) a"
    unfolding a_def by (intro fw_step.fw_connected) simp_all
  have sb: "fw_step sample_pb a (Fw_toradio (Some 8) [9, 9] 0) b" unfolding b_def by (rule fw_step.fw_toradio) simp
  have sc: "fw_step sample_pb (?own b) (Fw_disconnected (Some 8) 19) c"
    unfolding c_def by (rule fw_step.fw_disconnected) simp
  have sd: "fw_step sample_pb c Fw_ble_led v'" unfolding v'_def by (rule fw_step.fw_ble_led)
  let ?fs = "[Fw_connected (Some 8) 0, Fw_toradio (Some 8) [9, 9] 0, Fw_fromradio_read (Some 7) 23 0,
    Fw_disconnected (Some 8) 19, Fw_ble_led]"
  have run1: "event_run (fw_step sample_pb) registered [Fw_fromradio_read (Some 7) 23 0] (?own registered)"
    using own by simp
  have run2: "event_run (fw_step sample_pb) registered ?fs v'"
    unfolding event_run_simps using sa sb own [of b] sc sd by blast
  have eq: "phone_view (Some 7) (?own registered) = phone_view (Some 7) v'"
    "fst (fromradio_read sample_attr_read (cch (?own registered)) (Some 7) 23 0 (client (?own registered))) =
      fst (fromradio_read sample_attr_read (cch v') (Some 7) 23 0 (client v'))"
    using phones_do_not_interfere [OF registered_reachable run1 run2, of 7 sample_attr_read 23 0] by simp_all
  have "phone_slot (Some 7) (client (?own registered)) \<noteq> None"
    by (simp add: fromradio_view) (simp add: phone_slot_def registered_state)
  moreover have "phone_slot (Some 7) (client (?own registered)) = phone_slot (Some 7) (client v')"
    using eq(1) unfolding phone_view_def by (rule Pair_inject)
  ultimately have "phone_slot (Some 7) (client v') \<noteq> None" by (simp only: not_False_eq_True)
  with run1 run2 eq(2) show ?thesis by blast
qed

end
