(* ===== verification/Pbx_Stats.thy ===== *)
theory Pbx_Stats
  imports Prelude
begin

text \<open>
  The cumulative counters and their periodic log line, \<^verbatim>\<open>src/src/pbx_stats.c\<close>. A counter is a
  32-bit atomic; the entry points take the integer value of the enumeration, which C does not
  confine to the enumerators. A dump is the text handed to the logger, or the index at which the
  buffer was too small. The period of the dump is a build option and an argument here.
\<close>

section \<open>Counters\<close>

datatype pbx_stat =
    PBX_STAT_TX_FWD | PBX_STAT_TX_DROP_TXQ | PBX_STAT_TX_DROP_ERR | PBX_STAT_TX_DECODE_FAIL
  | PBX_STAT_RX_FRAMES | PBX_STAT_RX_OVERRUN_B | PBX_STAT_RX_RESYNC | PBX_STAT_RX_DECODE_FAIL
  | PBX_STAT_ROUTED | PBX_STAT_BROADCAST | PBX_STAT_BCAST_FALLBACK | PBX_STAT_PHONE_Q_DROP
  | PBX_STAT_BLE_CONNECT | PBX_STAT_BLE_DISCONNECT | PBX_STAT_BLE_REJECT | PBX_STAT_NODE_REG
  | PBX_STAT_NODE_REBOOT | PBX_STAT_SESSION_REFETCH | PBX_STAT_KEEPALIVE_FAIL

definition PBX_STAT_COUNT :: nat where "PBX_STAT_COUNT = 19"

fun stat_no :: "pbx_stat \<Rightarrow> nat" where
  "stat_no PBX_STAT_TX_FWD = 0" | "stat_no PBX_STAT_TX_DROP_TXQ = 1" | "stat_no PBX_STAT_TX_DROP_ERR = 2"
| "stat_no PBX_STAT_TX_DECODE_FAIL = 3" | "stat_no PBX_STAT_RX_FRAMES = 4" | "stat_no PBX_STAT_RX_OVERRUN_B = 5"
| "stat_no PBX_STAT_RX_RESYNC = 6" | "stat_no PBX_STAT_RX_DECODE_FAIL = 7" | "stat_no PBX_STAT_ROUTED = 8"
| "stat_no PBX_STAT_BROADCAST = 9" | "stat_no PBX_STAT_BCAST_FALLBACK = 10" | "stat_no PBX_STAT_PHONE_Q_DROP = 11"
| "stat_no PBX_STAT_BLE_CONNECT = 12" | "stat_no PBX_STAT_BLE_DISCONNECT = 13" | "stat_no PBX_STAT_BLE_REJECT = 14"
| "stat_no PBX_STAT_NODE_REG = 15" | "stat_no PBX_STAT_NODE_REBOOT = 16" | "stat_no PBX_STAT_SESSION_REFETCH = 17"
| "stat_no PBX_STAT_KEEPALIVE_FAIL = 18"

lemma stat_no_inj: "stat_no a = stat_no b \<Longrightarrow> a = b"
  by (cases a; cases b) simp_all

text \<open>The enumeration is ordered the way the dump lists it.\<close>

instantiation pbx_stat :: linorder
begin

definition less_eq_pbx_stat :: "pbx_stat \<Rightarrow> pbx_stat \<Rightarrow> bool" where
  "less_eq_pbx_stat a b \<longleftrightarrow> stat_no a \<le> stat_no b"

definition less_pbx_stat :: "pbx_stat \<Rightarrow> pbx_stat \<Rightarrow> bool" where
  "less_pbx_stat a b \<longleftrightarrow> stat_no a < stat_no b"

instance
  by standard (auto simp: less_eq_pbx_stat_def less_pbx_stat_def dest: stat_no_inj)

end

definition s_keys :: "string list" where
  "s_keys = [''tx_fwd'', ''tx_drop_txq'', ''tx_drop_err'', ''tx_dec_fail'',
     ''rx_frames'', ''rx_ovr_b'', ''rx_resync'', ''rx_dec_fail'',
     ''routed'', ''bcast'', ''bcast_fb'', ''phone_q_drop'',
     ''ble_conn'', ''ble_disc'', ''ble_reject'', ''node_reg'',
     ''node_reboot'', ''sess_refetch'', ''ka_fail'']"

datatype stats_log = Stats_line string | Stats_truncated nat | Stats_started nat

record pbx_stats =
  s_counters :: "u32 list"
  s_dump_work :: "nat option"
  stats_out :: "stats_log list"

definition stats_static :: pbx_stats where
  "stats_static = \<lparr>s_counters = replicate PBX_STAT_COUNT 0, s_dump_work = None, stats_out = []\<rparr>"

definition pbx_stats_inc :: "nat \<Rightarrow> pbx_stats \<Rightarrow> pbx_stats" where
  "pbx_stats_inc stat s =
     (if stat < PBX_STAT_COUNT
      then s\<lparr>s_counters := (s_counters s)[stat := s_counters s ! stat + 1]\<rparr> else s)"

definition pbx_stats_add :: "nat \<Rightarrow> u32 \<Rightarrow> pbx_stats \<Rightarrow> pbx_stats" where
  "pbx_stats_add stat delta s =
     (if stat < PBX_STAT_COUNT
      then s\<lparr>s_counters := (s_counters s)[stat := s_counters s ! stat + delta]\<rparr> else s)"

section \<open>The dump\<close>

definition stat_text :: "string \<Rightarrow> u32 \<Rightarrow> string" where
  "stat_text key v = '' '' @ key @ ''='' @ decimal (unat v)"

text \<open>
  The loop from index \<open>i\<close>: \<open>line\<close> is what has been written, so \<open>used\<close> is its length, and the
  buffer has 512 bytes. \<open>snprintk\<close> reports the length it needed; the loop gives up when that does
  not fit with the terminating NUL.
\<close>

fun dump_loop :: "nat \<Rightarrow> string list \<Rightarrow> u32 list \<Rightarrow> string \<Rightarrow> nat + string" where
  "dump_loop i (k # ks) (v # vs) line =
     (let t = stat_text k v in
      if length t \<ge> 512 - length line then Inl i
      else dump_loop (i + 1) ks vs (line @ t))"
| "dump_loop i ks vs line = Inr line"

definition pbx_stats_dump :: "pbx_stats \<Rightarrow> pbx_stats" where
  "pbx_stats_dump s =
     (case dump_loop 0 s_keys (s_counters s) [] of
        Inl i \<Rightarrow> s\<lparr>stats_out := stats_out s @ [Stats_truncated i]\<rparr>
      | Inr line \<Rightarrow> s\<lparr>stats_out := stats_out s @ [Stats_line (''EVT stats v=1'' @ line)]\<rparr>)"

definition dump_work_handler :: "nat \<Rightarrow> pbx_stats \<Rightarrow> pbx_stats" where
  "dump_work_handler period_s s = (pbx_stats_dump s)\<lparr>s_dump_work := Some (period_s * 1000)\<rparr>"

definition pbx_stats_start :: "nat \<Rightarrow> pbx_stats \<Rightarrow> pbx_stats" where
  "pbx_stats_start period_s s = s\<lparr>s_dump_work := Some 0, stats_out := stats_out s @ [Stats_started period_s]\<rparr>"

section \<open>Every counter is in the line\<close>

definition stats_text :: "string list \<Rightarrow> u32 list \<Rightarrow> string" where
  "stats_text ks vs = concat (map2 stat_text ks vs)"

lemma stat_text_length: "length (stat_text k v) \<le> length k + 12"
proof -
  have "unat v < 10 ^ 10" using unsigned_less [of v, where 'a = nat] by simp
  then have "length (decimal (unat v)) \<le> 10" by (intro decimal_length) simp
  then show ?thesis by (simp add: stat_text_def)
qed

lemma dump_loop_fits:
  "length line + sum_list (map length ks) + 12 * length ks < 512 \<Longrightarrow> length vs = length ks \<Longrightarrow>
     dump_loop i ks vs line = Inr (line @ stats_text ks vs)"
proof (induction i ks vs line rule: dump_loop.induct)
  case (1 i k ks v vs line)
  have len: "length (stat_text k v) \<le> length k + 12" by (rule stat_text_length)
  have "length (line @ stat_text k v) + sum_list (map length ks) + 12 * length ks < 512"
    using "1.prems"(1) len by simp
  moreover have "\<not> 512 - length line \<le> length (stat_text k v)" using "1.prems"(1) len by simp
  ultimately show ?case using "1.IH" [OF refl] "1.prems"(2) by (simp add: stats_text_def Let_def)
qed (auto simp: stats_text_def)

lemma keys_size: "length s_keys = 19" "sum_list (map length s_keys) = 171"
  by (simp_all add: s_keys_def)

lemma dump_line:
  assumes "length (s_counters s) = PBX_STAT_COUNT"
  shows "dump_loop 0 s_keys (s_counters s) [] = Inr (stats_text s_keys (s_counters s))"
  using dump_loop_fits [of "[]" s_keys "s_counters s" 0] assms keys_size by (simp add: PBX_STAT_COUNT_def)

text \<open>The line determines the counters.\<close>

lemma decimal_inj: "decimal m = decimal n \<Longrightarrow> m = n"
proof (induction m arbitrary: n rule: decimal.induct)
  case (1 m)
  have len1: "length (decimal k) = 1 \<longleftrightarrow> k < 10" for k
  proof (cases "k < 10")
    case True
    then show ?thesis by (simp add: decimal.simps [of k])
  next
    case False
    then show ?thesis using decimal_nonempty [of "k div 10"] by (simp add: decimal.simps [of k])
  qed
  have same: "m < 10 \<longleftrightarrow> n < 10" using len1 [of m] len1 [of n] "1.prems" by simp
  show ?case
  proof (cases "m < 10")
    case True
    with same "1.prems" digit_char_inj [of m n] show ?thesis by (simp add: decimal.simps [of m] decimal.simps [of n])
  next
    case False
    then have "decimal (m div 10) = decimal (n div 10)" "digit_char (m mod 10) = digit_char (n mod 10)"
      using same "1.prems" by (simp_all add: decimal.simps [of m] decimal.simps [of n])
    then have "m div 10 = n div 10" "m mod 10 = n mod 10"
      using "1.IH" [OF False] digit_char_inj [of "m mod 10" "n mod 10"] by simp_all
    then show ?thesis by (metis div_mod_decomp)
  qed
qed

lemma digit_not_space: "d < 10 \<Longrightarrow> digit_char d \<noteq> CHR '' ''"
  by (auto simp: digit_char_def char_of_eq_iff take_bit_eq_mod)

lemma decimal_no_space: "CHR '' '' \<notin> set (decimal n)"
  using decimal_digits digit_not_space by metis

lemma stats_text_inj:
  "length vs = length ks \<Longrightarrow> length us = length ks \<Longrightarrow> stats_text ks vs = stats_text ks us \<Longrightarrow> vs = us"
proof (induction ks arbitrary: vs us)
  case (Cons k ks)
  obtain v vs' where vs: "vs = v # vs'" using Cons.prems(1) by (cases vs) auto
  obtain u us' where us: "us = u # us'" using Cons.prems(2) by (cases us) auto
  have eq: "decimal (unat v) @ stats_text ks vs' = decimal (unat u) @ stats_text ks us'"
    using Cons.prems(3) by (simp add: vs us stats_text_def stat_text_def)
  have rest: "xs = [] \<or> hd xs = CHR '' ''" if "xs = stats_text ks zs" for xs zs
    using that by (cases ks; cases zs) (simp_all add: stats_text_def stat_text_def)
  have tw: "takeWhile (\<lambda>c. c \<noteq> CHR '' '') (decimal (unat w) @ stats_text ks zs) = decimal (unat w)" for w zs
    using rest [OF refl, of zs] decimal_no_space [of "unat w"]
    by (cases "stats_text ks zs") (auto simp: takeWhile_append)
  have d: "decimal (unat v) = decimal (unat u)" using tw [of v vs'] tw [of u us'] eq by simp
  then have "v = u" using decimal_inj word_unat_eq_iff by blast
  moreover have "vs' = us'" using Cons.IH [of vs' us'] Cons.prems(1,2) eq d by (simp add: vs us)
  ultimately show ?case by (simp add: vs us)
qed simp

text \<open>
  C38: the dump is one complete line for any counter values: the 512-byte buffer is never too
  small, the line holds every key with its value in enumeration order, and two states that dump
  the same line have the same counters.
\<close>

theorem stats_dump_complete:
  assumes "length (s_counters s) = 19" and "length (s_counters t) = 19"
  shows "stats_out (pbx_stats_dump s) =
      stats_out s @ [Stats_line (''EVT stats v=1'' @ concat (map2 stat_text s_keys (s_counters s)))] \<and>
    (last (stats_out (pbx_stats_dump s)) = last (stats_out (pbx_stats_dump t)) \<longrightarrow> s_counters s = s_counters t)"
  using dump_line [of s] dump_line [of t] assms stats_text_inj [of "s_counters s" s_keys "s_counters t"] keys_size
  by (simp add: pbx_stats_dump_def stats_text_def PBX_STAT_COUNT_def)

theorem stats_dump_complete_witness:
  "\<exists>l. stats_out (pbx_stats_dump stats_static) = [Stats_line l]"
proof -
  have l: "length (s_counters stats_static) = 19" by (simp add: stats_static_def PBX_STAT_COUNT_def)
  from stats_dump_complete [OF l l] show ?thesis by (auto simp: stats_static_def)
qed

section \<open>Accounting\<close>

fun run_adds :: "(nat \<times> u32) list \<Rightarrow> pbx_stats \<Rightarrow> pbx_stats" where
  "run_adds [] s = s"
| "run_adds ((i, d) # ops) s = run_adds ops (pbx_stats_add i d s)"

lemma pbx_stats_inc_add: "pbx_stats_inc i s = pbx_stats_add i 1 s"
  by (simp add: pbx_stats_inc_def pbx_stats_add_def)

lemma stats_add_counters:
  "length (s_counters (pbx_stats_add i d s)) = length (s_counters s)"
  "k < length (s_counters s) \<Longrightarrow> length (s_counters s) = PBX_STAT_COUNT \<Longrightarrow>
    s_counters (pbx_stats_add i d s) ! k = s_counters s ! k + (if i = k then d else 0)"
  by (auto simp: pbx_stats_add_def nth_list_update)

text \<open>
  a counter is the running total, modulo 2 to the 32, of what was added to it and of nothing
  else, whatever the order of the updates; an out-of-range counter number changes nothing.
\<close>

theorem stats_running_totals:
  assumes "length (s_counters s) = 19" and "k < 19"
  shows "s_counters (run_adds ops s) ! k = s_counters s ! k + sum_list (map snd (filter (\<lambda>(i, d). i = k) ops)) \<and>
    (\<forall>i d. 19 \<le> i \<longrightarrow> pbx_stats_add i d s = s \<and> pbx_stats_inc i s = s)"
proof
  show "s_counters (run_adds ops s) ! k = s_counters s ! k + sum_list (map snd (filter (\<lambda>(i, d). i = k) ops))"
    using assms(1)
  proof (induction ops s rule: run_adds.induct)
    case (2 i d ops s)
    then show ?case
      using stats_add_counters(1) [of i d s] stats_add_counters(2) [of k s i d] assms(2) by (simp add: PBX_STAT_COUNT_def)
  qed simp
  show "\<forall>i d. 19 \<le> i \<longrightarrow> pbx_stats_add i d s = s \<and> pbx_stats_inc i s = s"
    by (simp add: pbx_stats_add_def pbx_stats_inc_def PBX_STAT_COUNT_def)
qed

theorem stats_running_totals_witness:
  "s_counters (run_adds [(5, 3), (1, 9), (5, 4)] stats_static) ! 5 = 7"
proof -
  have l: "length (s_counters stats_static) = 19" by (simp add: stats_static_def PBX_STAT_COUNT_def)
  from stats_running_totals [OF l, of 5 "[(5, 3), (1, 9), (5, 4)]"] show ?thesis
    by (simp add: stats_static_def PBX_STAT_COUNT_def)
qed

end
