(* ===== verification/Spec2Isabelle.thy ===== *)
theory Spec2Isabelle
  imports Gatt_Service Gatt_Threads Uart_Threads Cache_Threads Phase0_Report Phone_Isolation Pbx_Stats
begin

text \<open>
  A model of the meshpbx firmware, the proxy that lets several phones share one Meshtastic node,
  with the theorems that make it correct.

  \<^bold>\<open>The program.\<close> The node is attached to the UART; up to six phones are attached over Bluetooth LE.
  At boot (\<^verbatim>\<open>main.c\<close>) the firmware starts the GATT server and the UART driver, then asks the node
  for its configuration as if it were a phone. The frames of the answer are cached
  (\<^verbatim>\<open>upstream_session.c\<close>, \<^verbatim>\<open>config_cache.c\<close>); when the closing frame with the firmware's own nonce
  arrives, the session is live. A phone that then asks for its configuration is answered from the
  cache, one frame per read, closed with its own nonce (\<^verbatim>\<open>ble_gatt.c\<close>). Live frames go from the UART
  through the decoder (\<^verbatim>\<open>proto_handler.c\<close>) to the router (\<^verbatim>\<open>router.c\<close>), which reads the header of
  \<^verbatim>\<open>proxy_protocol.c\<close> and queues the frame for the phone registered under the destination, or for all.
  What a phone writes is forwarded to the node, except the control messages that concern the phone's
  own session. Timers keep the session alive: a keepalive, a watchdog over a fetch in progress, a
  watchdog over a silent node.

  \<^bold>\<open>The theories.\<close> Paths are below \<^verbatim>\<open>src/src/\<close>; definitions have the names of the C functions.

  \<^item> \<^verbatim>\<open>Prelude\<close>: types, error codes as values, bytes, the C string functions the sources use, and
    lemmas the components share.
  \<^item> \<^verbatim>\<open>Interfaces\<close>: the contracts as locales: a bounded log, a bounded first-in first-out queue, a
    transition system with an invariant (over its \<^verbatim>\<open>reachable\<close> states), a forward simulation, and a
    system watched by one party, with the unwinding argument for noninterference. Each is interpreted on the
    model: the cache is a bounded log (\<^verbatim>\<open>cache_log\<close>), the transmit queue (\<^verbatim>\<open>tx_queue\<close>) and the packet
    ring of a phone (\<^verbatim>\<open>phone_ring\<close>) are bounded queues, the transmitter (\<^verbatim>\<open>tx_system\<close>), the session
    (\<^verbatim>\<open>session_system\<close>), the firmware (\<^verbatim>\<open>firmware\<close>, and with its doorbells \<^verbatim>\<open>doorbell\<close>), the slot table under two threads
    (\<^verbatim>\<open>interleaving\<close>), the UART driver under interrupts (\<^verbatim>\<open>preempted\<close>) and the cache under two
    threads (\<^verbatim>\<open>publication\<close>) are safe systems, the session simulates the config service
    (\<^verbatim>\<open>session_service\<close>), and the firmware is watched by any phone (\<^verbatim>\<open>watched\<close>). \<^verbatim>\<open>Upstream_Session\<close> adds the contract of the callback that
    serves a parked phone, which the replay meets (\<^verbatim>\<open>replay_cb\<close>); \<^verbatim>\<open>Gatt_Threads\<close> the contract of an
    operation that is safe at any point of the other thread, which the reads, writes, enqueues and
    replays meet (\<^verbatim>\<open>op_notify\<close>, \<^verbatim>\<open>op_node_reg\<close> and others); \<^verbatim>\<open>Phone_Isolation\<close> the contract of an
    operation that writes one phone's slot only (\<^verbatim>\<open>fromradio_op\<close>, \<^verbatim>\<open>replay_op\<close> and others).
  \<^item> \<^verbatim>\<open>Proxy_Protocol\<close> (\<^verbatim>\<open>proxy_protocol.c\<close>): header parser, builder and renderings. The builder and
    the parser are inverse, the parser accepts exactly the documented layout.
  \<^item> \<^verbatim>\<open>Proto_Handler\<close> (\<^verbatim>\<open>proto_handler.c\<close>): decoders and encoders over the nanopb entry points.
  \<^item> \<^verbatim>\<open>Config_Cache\<close> (\<^verbatim>\<open>config_cache.c\<close>): arena, index and replay segments. Appending refines a
    bounded log, reading gives back what was stored, the segment test is the documented one.
  \<^item> \<^verbatim>\<open>Uart_Meshtastic\<close> (\<^verbatim>\<open>uart_meshtastic.c\<close>): framing, receive ring, transmit queue, driver events.
    The receiver is memory safe on any bytes, delivers well-framed streams and recovers; the
    transmitter sends what was accepted, in order, and never stalls; what one board sends another
    receives.
  \<^item> \<^verbatim>\<open>Uart_Threads\<close>: the same driver with its handlers split at every access to what the interrupt
    writes, and the interrupt and submissions at any point. No index leaves its buffer, the frame
    buffer is not touched while the hardware has it, no wakeup is lost, the wire carries what was
    accepted, and the frames delivered do not depend on the schedule, unless a link error resets the
    machine while bytes wait in the ring, where the reset comes too early: the good frame after it is
    swallowed or cut up.
  \<^item> \<^verbatim>\<open>Upstream_Session\<close> (\<^verbatim>\<open>upstream_session.c\<close>): the session as a transition system with its
    invariant, the boot fetch end to end, and the refinement of an abstract config service whose
    config changes only during a fetch and whose subscribers are served once it is complete.
  \<^item> \<^verbatim>\<open>Phase0_Report\<close>: the measurement of the boot burst the session logs; its figures are exact.
  \<^item> \<^verbatim>\<open>Ble_Gatt\<close> (\<^verbatim>\<open>ble_gatt.c\<close>): slots, packet rings, attribute callbacks, replay, connection
    tracking. A phone reads exactly what was queued, or exactly its part of the cache.
  \<^item> \<^verbatim>\<open>Gatt_Threads\<close>: the slot table with its operations split at their locks, and the Bluetooth
    thread and the work queue interleaved. The table stays consistent, references balance, a teardown
    drops only connections that asked for it, an enqueue takes effect at its lock; what the enqueue
    does not check, that the slot still has its owner, is stated too.
  \<^item> \<^verbatim>\<open>Cache_Threads\<close>: the cache written store by store while a phone's replay reads it load by load,
    with no lock. Every read gives exactly what it would have given from the cache as the last
    complete operation of the writer had left it when the read loaded the number of frames.
  \<^item> \<^verbatim>\<open>Router\<close> (\<^verbatim>\<open>router.c\<close>) and \<^verbatim>\<open>Main_Proxy\<close> (\<^verbatim>\<open>main.c\<close>): dispatch, callbacks and boot.
  \<^item> \<^verbatim>\<open>Proxy_System\<close>: every handler as an event of one system over the composed state, and the
    invariant of the whole. This theory, the root, states what follows from it: memory safety, a
    phone's config, a frame from the wire to the phone, a packet from the phone to the wire, and
    that reading comes to an end.
  \<^item> \<^verbatim>\<open>Phone_Isolation\<close>: over that system, what a phone reads does not depend on what the other
    phones do, only on its own requests and the traffic of the node.
  \<^item> \<^verbatim>\<open>Gatt_Service\<close> (the static tables of \<^verbatim>\<open>ble_gatt.c\<close>): the service table, the callback each attribute
    runs, the advertising data; any access by a phone is an event of the system, and every doorbell
    rung in a run names the FROMNUM attribute and carries the phone's counter.
  \<^item> \<^verbatim>\<open>Pbx_Stats\<close> (\<^verbatim>\<open>pbx_stats.c\<close>): the counters and their log line.

  \<^bold>\<open>State.\<close> The static variables of a module are a record; \<^verbatim>\<open>session\<close> composes the session, the cache,
  the UART driver and, as its client, the GATT server. Fixed C arrays are lists of that length,
  updated in place, so writing out of bounds would be visible as a lost write and the invariants
  exclude it; 16- and 32-bit counters that can wrap are words. Zephyr objects are state too: a
  message queue is the list of its entries, a scheduled work item a flag or its delay, a connection
  reference a count. What the firmware asks of the Bluetooth stack and the UART is recorded
  (\<^verbatim>\<open>notified\<close>, \<^verbatim>\<open>disconnects\<close>, \<^verbatim>\<open>adv_starts\<close>, \<^verbatim>\<open>tx_wire\<close>).

  \<^bold>\<open>Parameters.\<close> Code outside the sources is an argument: nanopb (the record \<^verbatim>\<open>nanopb\<close>), the stack's
  \<^verbatim>\<open>bt_gatt_attr_read\<close>, the random number generator, the results of platform calls. What is assumed of
  them is named: \<^verbatim>\<open>pb_bounded\<close> (an encoder writes at most the buffer it is given), \<^verbatim>\<open>pb_closes\<close> (the
  closing frame of any nonce fits in 16 bytes), \<^verbatim>\<open>attr_read_spec\<close> (the stack copies from the offset, up to the
  buffer length), \<^verbatim>\<open>gatt_macros\<close> (how the stack lays out a service). \<^verbatim>\<open>sample_pb\<close>,
  \<^verbatim>\<open>sample_attr_read\<close> and \<^verbatim>\<open>sample_expand\<close> satisfy them.

  \<^bold>\<open>Bounds and fuel.\<close> Every loop of the sources terminates in the model by a measure. The only fuel is
  in \<^verbatim>\<open>blob_reads\<close>, the phone that reads a value piece by piece: 513 steps are enough because a value
  has at most 512 bytes and a piece at least one.

  \<^bold>\<open>Atomicity.\<close> In \<^verbatim>\<open>Proxy_System\<close> a handler is one step; the boot runs before the first event, and a
  teardown handler dequeued before it is cancelled is an event of its own (\<^verbatim>\<open>Fw_teardown_stale\<close>). The
  three places where the sources let contexts overlap are modelled at the grain of their shared
  accesses: the slots, between the Bluetooth thread and the work queue (\<^verbatim>\<open>Gatt_Threads\<close>), the UART
  driver, between the interrupt and the work queue (\<^verbatim>\<open>Uart_Threads\<close>), and the cache, between the work
  queue that fills it and the Bluetooth thread that replays it (\<^verbatim>\<open>Cache_Threads\<close>). In the first two a
  section under the mutex, an operation of the kernel's queue or ring, a call into the stack and an
  interrupt are one step, as are the stores of \<^verbatim>\<open>alloc_slot\<close> and the unlocked stores that follow a
  lookup; in the third every load and store is one, in program order. Of the session the Bluetooth
  thread otherwise only reads the state and pushes the keepalive out.

  \<^bold>\<open>Not modelled.\<close> Log output other than the statistics line and the burst report, which is a function of
  the counters and not a step of the session (with \<^verbatim>\<open>route_trace.h\<close> and the
  CCC callbacks, which only log), real time (a delay is recorded, not measured), device tree and Kconfig files, and the host
  tools. The statistics are a module of their own: no other module calls them in these sources.
\<close>

section \<open>Properties of the whole firmware\<close>

text \<open>
  C1: memory safety and liveness bookkeeping of the whole firmware: after a successful boot,
  whatever the node sends, the phones do, the timers and the hardware report, in any order, every
  buffer stays in bounds (packet rings, staging buffers, closing frames, cache arena, receive
  buffer, receive ring, transmit queue), the count of active connections and the references held
  on connection objects are those of the phones connected, a waiting payload always has a transfer
  in progress or the transmit work scheduled, and a fetch in progress always has its watchdog.
\<close>

theorem firmware_safe:
  assumes "reachable (\<lambda>w. pb_bounded pb \<and> fw_boot pb w) (fw_step pb) w"
  shows "length (conns (client w)) = 6 \<and>
    (\<forall>pc \<in> set (conns (client w)). length (pkts pc) \<le> 16 \<and> (\<forall>p \<in> set (pkts pc). length p \<le> 512) \<and>
      pc_staged_len pc \<le> 512 \<and> pc_cc_len pc \<le> 16 \<and> pc_replay_cursor pc \<le> 129) \<and>
    active_conn_count (client w) = length (tracked_conns (client w)) \<and>
    (\<forall>c. conn_refs (client w) c = (if c \<in> set (tracked_conns (client w)) then 1 else 0)) \<and>
    length (frames (cch w)) \<le> 128 \<and> frames_size (frames (cch w)) \<le> 4096 \<and>
    (\<forall>f \<in> set (frames (cch w)). 1 \<le> length (snd f) \<and> length (snd f) \<le> 512) \<and>
    length (tx_msgq (uar w)) \<le> 4 \<and> length (rx_ring_buf (uar w)) \<le> 2048 \<and>
    (rx_st (rx_sm (uar w)) = RX_WAIT_PAYLOAD \<longrightarrow> unat (received_len (rx_sm (uar w))) < 512) \<and>
    (tx_msgq (uar w) \<noteq> [] \<longrightarrow> tx_in_progress (uar w) \<or> tx_work_pending (uar w)) \<and>
    (s_state (up w) \<in> {UPSTREAM_FETCHING, UPSTREAM_REFETCHING} \<longleftrightarrow> s_fetch_retry_work (up w) \<noteq> None)"
proof -
  have inv: "fw_inv pb w" by (rule firmware.reachable_inv [OF assms])
  have g: "gatt_inv (client w)" and u: "uart_ok (uar w)" and c: "cache_ok (cch w)" and s: "session_inv w"
    using inv by (simp_all add: fw_inv_def)
  have slots: "length (pkts pc) \<le> 16 \<and> (\<forall>p \<in> set (pkts pc). length p \<le> 512) \<and>
      pc_staged_len pc \<le> 512 \<and> pc_cc_len pc \<le> 16 \<and> pc_replay_cursor pc \<le> 129" if "pc \<in> set (conns (client w))" for pc
  proof -
    have "slot_inv pc" using g that by (simp add: gatt_inv_def)
    then show ?thesis using pkts_small [of pc] by (auto simp: slot_inv_def ring_inv_def layout_consts)
  qed
  have ci: "cache_inv (cch w)" using c by (simp add: cache_ok_def)
  then have "length (frames (cch w)) \<le> 128" "frames_size (frames (cch w)) \<le> 4096"
    using frames_size_used [OF ci] by (simp_all add: cache_inv_def layout_consts)
  moreover have "\<forall>f \<in> set (frames (cch w)). 1 \<le> length (snd f) \<and> length (snd f) \<le> 512"
    using c by (simp add: cache_ok_def layout_consts)
  moreover have "length (tx_msgq (uar w)) \<le> 4" "length (rx_ring_buf (uar w)) \<le> 2048"
    "rx_st (rx_sm (uar w)) = RX_WAIT_PAYLOAD \<longrightarrow> unat (received_len (rx_sm (uar w))) < 512"
    "tx_msgq (uar w) \<noteq> [] \<longrightarrow> tx_in_progress (uar w) \<or> tx_work_pending (uar w)"
    using u by (auto simp: uart_ok_def tx_live_def tx_inv_def rx_inv_def layout_consts)
  moreover have "s_state (up w) \<in> {UPSTREAM_FETCHING, UPSTREAM_REFETCHING} \<longleftrightarrow> s_fetch_retry_work (up w) \<noteq> None"
    using s by (auto simp: session_inv_defs)
  ultimately show ?thesis using g slots by (simp add: gatt_inv_def layout_consts)
qed

theorem firmware_safe_witness:
  "length (conns (client booted)) = 6 \<and> active_conn_count (client booted) = length (tracked_conns (client booted))"
  using firmware_safe [OF booted_reachable] by blast

text \<open>
  C2: in every state the firmware can reach in which the session is LIVE, a connected phone that
  writes a want-config request gets its config: reading FROMRADIO, with any ATT buffer size, it
  receives the cached frames of the segment the nonce selects, whole and in order, then a closing
  frame with that nonce, then an empty response. The nonce is the one the phone sent; but for a
  request with nonce 0 it is the one left in its slot (that of its previous request, 0 if there
  was none). The encoder is assumed to succeed on the closing frame. Nothing goes to the node, the
  packets queued for the phone stay queued, and no other phone's slot changes.
\<close>

theorem live_phone_gets_config:
  assumes "reachable (\<lambda>w. pb_bounded pb \<and> fw_boot pb w) (fw_step pb) w" and "s_state (up w) = UPSTREAM_LIVE"
    and "find_slot conn (client w) = Some i" and "conn \<noteq> None"
    and "proto_decode_toradio pb data = (OK, ti)" and "has_want_config ti"
    and "nonce = (if want_config_id ti \<noteq> 0 then want_config_id ti else pc_nonce (conns (client w) ! i))"
    and "pb_encode_fromradio pb (config_complete_msg nonce) 16 = (True, bytes)"
    and "attr_read_spec rd" and "0 < len"
    and "seg = map (\<lambda>k. snd (frames (cch w) ! k))
      (filter (in_segment_spec (frames (cch w)) nonce) [0..<length (frames (cch w))])"
    and "toradio_write (Some (on_toradio_ble pb)) conn data 0 w = (r, w')"
  shows "r = Att_written (length data) \<and> uar w' = uar w \<and>
    (\<exists>g'. read_packets rd (cch w') conn len (length seg + 2) (client w') = (map Some seg @ [Some bytes, Some []], g') \<and>
      pc_state (conns g' ! i) = PHONE_ACTIVE \<and> pkts (conns g' ! i) = pkts (conns (client w) ! i) \<and>
      (\<forall>j. j \<noteq> i \<longrightarrow> conns g' ! j = conns (client w) ! j))"
proof -
  have inv: "fw_inv pb w" by (rule firmware.reachable_inv [OF assms(1)])
  let ?g = "(client w)\<lparr>led_toradio_active := True\<rparr>"
  have g: "gatt_inv ?g" and c: "cache_ok (cch w)" and b: "pb_bounded pb" using inv by (simp_all add: fw_inv_def)
  have len: "length bytes \<le> 16" using b assms(8) unfolding pb_bounded_def by (metis snd_conv)
  have f: "find_slot conn ?g = Some i" using assms(3) by (simp add: find_slot_def)
  have n: "nonce = replay_nonce (want_config_id ti) (conns ?g ! i)" by (simp add: assms(7) replay_nonce_def)
  have w': "r = Att_written (length data)" "uar w' = uar w" "cch w' = cch w"
    "client w' = ble_gatt_replay_cached_burst pb conn (want_config_id ti) ?g"
    using assms(2,5,6,12) by (auto simp: toradio_write_def on_toradio_ble_def upstream_get_state_def Let_def)
  from replay_drains [OF assms(9) c assms(10) g f n assms(8) len assms(11)] w' show ?thesis by auto
qed

text \<open>After a boot fetch that brought one frame.\<close>

theorem live_phone_gets_config_witness:
  "\<exists>w' g'. toradio_write (Some (on_toradio_ble sample_pb)) (Some 7) [3, 42] 0 went_live = (Att_written 2, w') \<and>
     uar w' = uar went_live \<and>
     read_packets sample_attr_read (cch w') (Some 7) 1 3 (client w') = ([Some [4], Some [7, 42], Some []], g')"
proof -
  obtain r w' where wr: "toradio_write (Some (on_toradio_ble sample_pb)) (Some 7) [3, 42] 0 went_live = (r, w')"
    by fastforce
  let ?ti = "toradio_info_zero\<lparr>has_want_config := True, want_config_id := 42\<rparr>"
  have d: "proto_decode_toradio sample_pb [3, 42] = (OK, ?ti)"
    by (simp add: proto_decode_toradio_def sample_pb_def toradio_zero_def)
  have n: "42 = (if want_config_id ?ti \<noteq> 0 then want_config_id ?ti else pc_nonce (conns (client went_live) ! 0))" by simp
  have enc: "pb_encode_fromradio sample_pb (config_complete_msg 42) 16 = (True, [7, 42])"
    by (simp add: sample_pb_def config_complete_msg_def)
  have seg: "[[4]] = map (\<lambda>k. snd (frames (cch went_live) ! k))
      (filter (in_segment_spec (frames (cch went_live)) 42) [0..<length (frames (cch went_live))])"
    unfolding went_live_state(2) by (simp add: in_segment_spec_def)
  have three: "length [[4 :: u8]] + 2 = 3" by simp
  from live_phone_gets_config [OF went_live_reachable went_live_state(1,3) _ d _ n enc sample_attr_read_spec _ seg wr, of 1]
  obtain g' where "r = Att_written 2" "uar w' = uar went_live"
    "read_packets sample_attr_read (cch w') (Some 7) 1 3 (client w') = ([Some [4], Some [7, 42], Some []], g')"
    unfolding three by auto
  with wr show ?thesis by blast
qed

text \<open>
  C3: a message from phone to phone, from the wire to the reader. Take any state the firmware can
  reach in which the receive machine is between two frames and no received byte is waiting, and let
  the node send a frame of 1 to 512 bytes that decodes to a packet on the proxy's port whose payload
  the header builder produced for a destination under which a phone is registered. When the receive
  interrupt and the receive work item have run, that phone, reading FROMRADIO with any ATT buffer
  size, gets what is left of its config replay if one is in progress, then the packets already
  queued for it, then exactly the node's bytes, then an empty response; if the phone is leaving or
  sixteen packets are already queued for it, the node's bytes are missing from that sequence. In
  all cases no other phone's slot changes and the receiver is ready for the next frame.
\<close>

theorem wire_frame_reaches_phone:
  assumes "reachable (\<lambda>w. pb_bounded pb \<and> fw_boot pb w) (fw_step pb) w" and "attr_read_spec rd" and "0 < len"
    and "rx_st (rx_sm (uar w)) = RX_WAIT_MAGIC1" and "rx_ring_buf (uar w) = []"
    and "wf_id src" and "wf_id dst" and "length c \<le> PROXY_CONTENT_MAX"
    and "proxy_header_build src dst (Some c) (length c) (replicate 200 0) 200 = (n, out)"
    and "pb_decode_fromradio pb raw = Some m" and "fr_which m = FromRadio_packet_tag"
    and "mp_which (fr_packet m) = MeshPacket_decoded_tag" and "mp_portnum (fr_packet m) = 256"
    and "mp_payload (fr_packet m) = take n out" and "1 \<le> length raw" and "length raw \<le> 512"
    and "ble_gatt_get_conn_by_proxy_id dst (client w) = Some k" and "find_slot (Some k) (client w) = Some i"
    and "rest = replay_rest (cch w) (conns (client w) ! i)"
    and "q = (if pc_leaving (conns (client w) ! i) \<or> 16 \<le> length (pkts (conns (client w) ! i))
      then pkts (conns (client w) ! i) else pkts (conns (client w) ! i) @ [raw])"
    and "fw_step pb w (Fw_uart (UART_RX_RDY (mesh_frame raw))) w1" and "fw_step pb w1 Fw_rx_work w2"
  shows "\<exists>g'. read_packets rd (cch w2) (Some k) len (length rest + length q + 1) (client w2) =
      (map Some (rest @ q @ [[]]), g') \<and>
    (\<forall>j. j \<noteq> i \<longrightarrow> conns g' ! j = conns (client w) ! j) \<and>
    rx_st (rx_sm (uar w2)) = RX_WAIT_MAGIC1 \<and> rx_ring_buf (uar w2) = []"
proof -
  have inv: "fw_inv pb w" by (rule firmware.reachable_inv [OF assms(1)])
  obtain rerr where w1: "w1 = w\<lparr>uar := uart_cb rerr (UART_RX_RDY (mesh_frame raw)) (uar w)\<rparr>" using assms(21) by blast
  obtain rng where w2: "w2 = fw_rx_work pb rng (w1\<lparr>uar := (uar w1)\<lparr>rx_work_pending := False\<rparr>\<rparr>)" using assms(22) by blast
  let ?v = "w1\<lparr>uar := (uar w1)\<lparr>rx_work_pending := False\<rparr>\<rparr>"
  have same: "client (?v\<lparr>uar := u\<rparr>) = client w" "cch (?v\<lparr>uar := u\<rparr>) = cch w" for u by (simp_all add: w1)
  have rx: "rx_inv (rx_sm (uar ?v))" "rx_st (rx_sm (uar ?v)) = RX_WAIT_MAGIC1" "rx_ring_buf (uar ?v) = mesh_frame raw"
    using inv assms(4,5,16) by (simp_all add: w1 fw_inv_def uart_ok_def ring_buf_put_def mesh_frame_def Let_def layout_consts)
  have g: "gatt_inv (client w)" "cache_ok (cch w)" using inv by (simp_all add: fw_inv_def)
  have q: "q = queue_after raw (conns (client w) ! i)" by (simp add: assms(20) queue_after_def)
  have msg: "uar w' = u \<and>
      (\<exists>g'. read_packets rd (cch w') (Some k) len (length rest + length q + 1) (client w') =
        (map Some (rest @ q @ [[]]), g') \<and> (\<forall>j. j \<noteq> i \<longrightarrow> conns g' ! j = conns (client w) ! j))"
    if "w' = on_fromradio_uart pb rnd raw (?v\<lparr>uar := u\<rparr>)" for u w' rnd
    using mesh_message_reaches_phone [of "?v\<lparr>uar := u\<rparr>", unfolded same, OF g assms(2,3,6-14,16-19) q that] by simp
  from rx_work_one_frame [OF rx assms(15,16), of pb rng] msg [OF refl] obtain u u' where
    "w2 = (on_fromradio_uart pb (rng (?v\<lparr>uar := u\<rparr>)) raw (?v\<lparr>uar := u\<rparr>))\<lparr>uar := u'\<rparr>"
    "rx_ring_buf u' = []" "rx_st (rx_sm u') = RX_WAIT_MAGIC1"
    unfolding w2 by blast
  with msg [OF refl, of "rng (?v\<lparr>uar := u\<rparr>)" u] show ?thesis by auto
qed

theorem wire_frame_reaches_phone_witness:
  "\<exists>w1 w2 g'. fw_step sample_pb registered (Fw_uart (UART_RX_RDY (mesh_frame [2, 4, 1, 9, 9, 9, 9, 1, 2, 3, 4, 65]))) w1 \<and>
     fw_step sample_pb w1 Fw_rx_work w2 \<and>
     read_packets sample_attr_read (cch w2) (Some 7) 3 2 (client w2) =
       ([Some [2, 4, 1, 9, 9, 9, 9, 1, 2, 3, 4, 65], Some []], g')"
proof -
  let ?raw = "[2, 4, 1, 9, 9, 9, 9, 1, 2, 3, 4, 65] :: u8 list"
  let ?s = "\<lparr>id_bytes = [9, 9, 9, 9]\<rparr>" and ?d = "\<lparr>id_bytes = [1, 2, 3, 4]\<rparr>"
  let ?m = "fromradio_zero\<lparr>fr_which := FromRadio_packet_tag, fr_packet := sample_packet [4, 1, 9, 9, 9, 9, 1, 2, 3, 4, 65]\<rparr>"
  define w1 where "w1 = registered\<lparr>uar := uart_cb OK (UART_RX_RDY (mesh_frame ?raw)) (uar registered)\<rparr>"
  define w2 where "w2 = fw_rx_work sample_pb (\<lambda>_. 9) (w1\<lparr>uar := (uar w1)\<lparr>rx_work_pending := False\<rparr>\<rparr>)"
  have s1: "fw_step sample_pb registered (Fw_uart (UART_RX_RDY (mesh_frame ?raw))) w1"
    unfolding w1_def by (rule fw_step.fw_uart) simp
  have s2: "fw_step sample_pb w1 Fw_rx_work w2"
    unfolding w2_def by (rule fw_step.fw_rx) (simp add: w1_def Let_def split_beta)
  have wf: "wf_id ?s" "wf_id ?d" by (simp_all add: wf_id_def PROXY_ID_SIZE_def)
  have one: "length [65 :: u8] \<le> PROXY_CONTENT_MAX" by (simp add: layout_consts)
  obtain n out where b: "proxy_header_build ?s ?d (Some [65]) (length [65 :: u8]) (replicate 200 0) 200 = (n, out)"
    by fastforce
  have "n = 10 \<and> take n out = [1, 9, 9, 9, 9, 1, 2, 3, 4, 65]"
    using build_writes_frame [OF wf one, of 200 "replicate 200 0"] b by (auto simp: layout_consts PROXY_VERSION_def)
  then have pay: "mp_payload (fr_packet ?m) = take n out" unfolding sample_packet_def by auto
  have dec: "pb_decode_fromradio sample_pb ?raw = Some ?m" by (simp add: sample_pb_def)
  have k: "fr_which ?m = FromRadio_packet_tag" "mp_which (fr_packet ?m) = MeshPacket_decoded_tag"
    "mp_portnum (fr_packet ?m) = 256" by (simp_all add: sample_packet_def)
  let ?pc = "conns (client registered) ! 0"
  have slot: "pkts ?pc = []" "\<not> pc_leaving ?pc" "pc_state ?pc \<noteq> PHONE_REPLAYING"
    by (simp_all add: registered_state(1) pkts_def slot_static_def)
  have rest: "[] = replay_rest (cch registered) ?pc" using slot(3) by (simp add: replay_rest_def)
  have q: "[?raw] = (if pc_leaving ?pc \<or> 16 \<le> length (pkts ?pc) then pkts ?pc else pkts ?pc @ [?raw])"
    using slot(1,2) by simp
  have rx: "rx_st (rx_sm (uar registered)) = RX_WAIT_MAGIC1" by (simp add: registered_state(4) uart_static_def)
  have len: "1 \<le> length ?raw" "length ?raw \<le> 512" by simp_all
  have two: "length ([] :: u8 list list) + length [?raw] + 1 = 2" by simp
  from wire_frame_reaches_phone [OF registered_reachable sample_attr_read_spec _ rx registered_state(5) wf one b dec k pay
      len registered_state(3,2) rest q s1 s2, of 3]
  obtain g' where "read_packets sample_attr_read (cch w2) (Some 7) 3 2 (client w2) = ([Some ?raw, Some []], g')"
    unfolding two by auto
  with s1 s2 show ?thesis by blast
qed

text \<open>
  C4: a phone's packet, from the write to the wire: in every state the firmware can reach in which
  the transmitter is idle and the queue has room, the bytes a phone writes, unless they are session
  control, leave on the wire unchanged, framed, after the payloads queued before them; one cycle of
  the transmitter per payload empties the queue, and the phones and the cache are left alone.
\<close>

theorem phone_packet_reaches_wire:
  assumes "reachable (\<lambda>w. pb_bounded pb \<and> fw_boot pb w) (fw_step pb) w"
    and "\<not> tx_in_progress (uar w)" and "length (tx_msgq (uar w)) < 4"
    and "proto_decode_toradio pb data = (rc, ti)" and "length data \<le> 512"
    and "rc \<noteq> OK \<or> \<not> has_want_config ti \<and> \<not> has_heartbeat ti \<and> \<not> has_disconnect ti"
    and "fw_step pb w (Fw_toradio conn data 0) w1"
    and "u = (tx_cycle ^^ (length (tx_msgq (uar w)) + 1)) (uar w1)"
  shows "tx_msgq u = [] \<and> tx_wire u = tx_wire (uar w) @ map mesh_frame (tx_msgq (uar w) @ [data]) \<and>
    conns (client w1) = conns (client w) \<and> cch w1 = cch w"
proof -
  have inv: "uart_ok (uar w)" using firmware.reachable_inv [OF assms(1)] by (simp add: fw_inv_def)
  let ?w = "w\<lparr>client := (client w)\<lparr>led_toradio_active := True\<rparr>\<rparr>"
  have w1: "w1 = on_toradio_ble pb conn data ?w" using assms(7) by (auto simp: toradio_write_def Let_def)
  note fwd = toradio_forward [OF assms(4,6), of conn ?w, folded w1]
  have u1: "uar w1 = (uar w)\<lparr>tx_msgq := tx_msgq (uar w) @ [data], tx_work_pending := True\<rparr>"
    using fwd(1) assms(3,5) by (simp add: uart_meshtastic_tx_def layout_consts)
  have "uart_ok (uar w1)" using fwd(1) uart_ok_tx [OF inv] by simp
  then have "tx_inv (uar w1)" by (simp add: uart_ok_def tx_live_def)
  from tx_cycles_send [OF this, of "length (tx_msgq (uar w)) + 1"] assms(2,8) u1 fwd(2,3) show ?thesis by simp
qed

theorem phone_packet_reaches_wire_witness:
  "\<exists>w1. fw_step sample_pb booted (Fw_toradio (Some 7) [9] 0) w1 \<and>
     tx_wire ((tx_cycle ^^ (length (tx_msgq (uar booted)) + 1)) (uar w1)) =
       tx_wire (uar booted) @ map mesh_frame (tx_msgq (uar booted) @ [[9]])"
proof -
  obtain rc ti where d: "proto_decode_toradio sample_pb [9] = (rc, ti)" by fastforce
  then have c: "rc \<noteq> OK \<or> \<not> has_want_config ti \<and> \<not> has_heartbeat ti \<and> \<not> has_disconnect ti"
    by (auto simp: proto_decode_toradio_def sample_pb_def Let_def)
  have "fw_step sample_pb booted (Fw_toradio (Some 7) [9] 0)
      (snd (toradio_write (Some (on_toradio_ble sample_pb)) (Some 7) [9] 0 booted))"
    by (rule fw_step.fw_toradio) simp
  from phone_packet_reaches_wire [OF booted_reachable _ _ d _ c this refl] this
  show ?thesis using booted_tx by auto
qed

text \<open>
  C14: reading comes to an end: in every state the firmware can reach, a connected phone that reads
  FROMRADIO again and again, with any ATT buffer size, meets an empty response within 130 packets,
  and every response before it is a whole packet of at most 512 bytes, never an error.
\<close>

theorem reads_reach_empty:
  assumes "reachable (\<lambda>w. pb_bounded pb \<and> fw_boot pb w) (fw_step pb) w" and "attr_read_spec rd" and "0 < len"
    and "find_slot conn (client w) = Some i" and "ps = fst (read_packets rd (cch w) conn len 130 (client w))"
  shows "Some [] \<in> set ps \<and> (\<forall>p \<in> set ps. \<exists>bs. p = Some bs \<and> length bs \<le> 512)"
proof -
  have g: "gatt_inv (client w)" "cache_ok (cch w)"
    using firmware.reachable_inv [OF assms(1)] by (simp_all add: fw_inv_def)
  from reads_reach_end [OF assms(2) g(2) assms(3) g(1) assms(4), of 130]
    reads_left_bounds(2) [OF g(2) gatt_inv_find(2) [OF g(1) assms(4)]] show ?thesis
    by (simp add: assms(5))
qed

theorem reads_reach_empty_witness:
  "Some [] \<in> set (fst (read_packets sample_attr_read (cch went_live) (Some 7) 20 130 (client went_live)))"
  using reads_reach_empty [OF went_live_reachable sample_attr_read_spec _ went_live_state(3) refl, of 20] by simp

end
